(* ===== verification/Prelude.thy ===== *)
theory Prelude
  imports Main "HOL-Library.Word"
begin

text \<open>
  The vocabulary every theory of the development shares: the outcome of running kernel code
  (it returns, it panics, or it goes to sleep on a channel), the state-passing combinators the
  handlers are written with, a weakest-precondition calculus for them, the machine integers of
  \<^verbatim>\<open>kernel/types.h\<close>, and the list lemmas about array scans and array updates.
\<close>

unbundle bit_operations_syntax

named_theorems kernel_defs \<open>the combinators, unfolded for evaluation\<close>
named_theorems wp_simps \<open>the weakest-precondition calculus\<close>

section \<open>Machine integers\<close>

type_synonym u8 = "8 word"
type_synonym u16 = "16 word"
type_synonym u32 = "32 word"
type_synonym u64 = "64 word"

text \<open>
  A C \<^verbatim>\<open>int\<close> is an \<^typ>\<open>int\<close>; where an operation can leave the 32-bit range, \<open>i32\<close> wraps it
  the way the RV64 word instructions do. \<open>i32_of_u64\<close> is the truncating conversion of a 64-bit
  register to \<^verbatim>\<open>int\<close>, \<open>u64_of_int\<close> the sign-extending conversion back.
\<close>

definition i32 :: "int \<Rightarrow> int" where
  "i32 x = (x + 2147483648) mod 4294967296 - 2147483648"

definition i32_of_u64 :: "u64 \<Rightarrow> int" where
  "i32_of_u64 w = sint (ucast w :: u32)"

definition u64_of_int :: "int \<Rightarrow> u64" where
  "u64_of_int x = word_of_int x"

text \<open>Unsigned 64-bit division: \<^verbatim>\<open>divu\<close> gives all ones for a zero divisor.\<close>

definition udiv64 :: "u64 \<Rightarrow> u64 \<Rightarrow> u64" where
  "udiv64 a b = (if b = 0 then - 1 else a div b)"

lemma i32_id [simp]: "\<lbrakk>- 2147483648 \<le> x; x < 2147483648\<rbrakk> \<Longrightarrow> i32 x = x"
  by (simp add: i32_def)

lemma i32_range: "- 2147483648 \<le> i32 x" "i32 x < 2147483648"
proof -
  have "0 \<le> (x + 2147483648) mod 4294967296" "(x + 2147483648) mod 4294967296 < 4294967296"
    by simp_all
  then show "- 2147483648 \<le> i32 x" "i32 x < 2147483648"
    by (simp_all add: i32_def)
qed

lemma unat_u64_of_int: "\<lbrakk>0 \<le> x; x < 2 ^ 64\<rbrakk> \<Longrightarrow> unat (u64_of_int x) = nat x"
  by (simp add: u64_of_int_def unat_eq_nat_uint uint_word_of_int take_bit_eq_mod)

lemma unat_udiv64: "b \<noteq> 0 \<Longrightarrow> unat (udiv64 a b) = unat a div unat b"
  by (simp add: udiv64_def unat_div)

section \<open>Wait channels\<close>

text \<open>
  \<^verbatim>\<open>sleep\<close> and \<^verbatim>\<open>wakeup\<close> name a channel by the address of a kernel object. The constructors are the
  objects the kernel uses so; an address of a physical page identifies a pipe.
\<close>

datatype channel =
    ChProc nat           \<comment> \<open>a \<^verbatim>\<open>struct proc\<close>: \<^verbatim>\<open>kwait\<close>, \<^verbatim>\<open>kwaitpid\<close>\<close>
  | ChTicks              \<comment> \<open>\<^verbatim>\<open>&ticks\<close>\<close>
  | ChLog                \<comment> \<open>\<^verbatim>\<open>&log\<close>\<close>
  | ChPipeRead u64       \<comment> \<open>\<^verbatim>\<open>&pi->nread\<close>\<close>
  | ChPipeWrite u64      \<comment> \<open>\<^verbatim>\<open>&pi->nwrite\<close>\<close>
  | ChBufLock nat        \<comment> \<open>the sleep lock of a buffer\<close>
  | ChInodeLock nat      \<comment> \<open>the sleep lock of an in-memory inode\<close>
  | ChDiskBuf nat        \<comment> \<open>a buffer the disk owns\<close>
  | ChDiskFree           \<comment> \<open>\<^verbatim>\<open>&disk.free[0]\<close>\<close>
  | ChCons               \<comment> \<open>\<^verbatim>\<open>&cons.r\<close>\<close>
  | ChTx                 \<comment> \<open>\<^verbatim>\<open>&tx_chan\<close>\<close>

section \<open>Running kernel code\<close>

text \<open>
  A piece of kernel code takes the state and returns a value with the new state, or panics with
  the message of the source, or calls \<^verbatim>\<open>sleep\<close> on a channel with nothing left for it to do until a
  \<^verbatim>\<open>wakeup\<close>; in the last case the state at the moment of sleeping is kept.
\<close>

datatype ('a, 's) outcome = Ret 'a 's | Panic string | Sleep channel 's

type_synonym ('s, 'a) kmon = "'s \<Rightarrow> ('a, 's) outcome"

definition kret :: "'a \<Rightarrow> ('s, 'a) kmon" where
  "kret x = (\<lambda>s. Ret x s)"

definition kpanic :: "string \<Rightarrow> ('s, 'a) kmon" where
  "kpanic msg = (\<lambda>s. Panic msg)"

definition ksleep :: "channel \<Rightarrow> ('s, 'a) kmon" where
  "ksleep ch = (\<lambda>s. Sleep ch s)"

definition kbind :: "('s, 'a) kmon \<Rightarrow> ('a \<Rightarrow> ('s, 'b) kmon) \<Rightarrow> ('s, 'b) kmon" where
  "kbind m f = (\<lambda>s. case m s of Ret x s' \<Rightarrow> f x s' | Panic e \<Rightarrow> Panic e | Sleep ch s' \<Rightarrow> Sleep ch s')"

definition kget :: "('s \<Rightarrow> 'a) \<Rightarrow> ('s, 'a) kmon" where
  "kget f = (\<lambda>s. Ret (f s) s)"

definition kmod :: "('s \<Rightarrow> 's) \<Rightarrow> ('s, unit) kmon" where
  "kmod f = (\<lambda>s. Ret () (f s))"

definition kthen :: "('s, unit) kmon \<Rightarrow> ('s, 'b) kmon \<Rightarrow> ('s, 'b) kmon" where
  "kthen m f = kbind m (\<lambda>_. f)"

text \<open>\<open>kguard c msg\<close> is \<^verbatim>\<open>if(!c) panic(msg);\<close>, \<open>kwhen c m\<close> is \<^verbatim>\<open>if(c) m;\<close>.\<close>

definition kguard :: "bool \<Rightarrow> string \<Rightarrow> ('s, unit) kmon" where
  "kguard c msg = (if c then kret () else kpanic msg)"

definition kwhen :: "bool \<Rightarrow> ('s, unit) kmon \<Rightarrow> ('s, unit) kmon" where
  "kwhen c m = (if c then m else kret ())"

text \<open>\<open>kforeach f xs\<close> is a counted \<^verbatim>\<open>for\<close> loop without an early exit.\<close>

primrec kforeach :: "('x \<Rightarrow> ('s, unit) kmon) \<Rightarrow> 'x list \<Rightarrow> ('s, unit) kmon" where
  "kforeach f [] = kret ()"
| "kforeach f (x # xs) = kthen (f x) (kforeach f xs)"

text \<open>\<open>kfirst f xs\<close> is a counted \<^verbatim>\<open>for\<close> loop whose body may return out of the loop with a value.\<close>

primrec kfirst :: "('x \<Rightarrow> ('s, 'a option) kmon) \<Rightarrow> 'x list \<Rightarrow> ('s, 'a option) kmon" where
  "kfirst f [] = kret None"
| "kfirst f (x # xs) = kbind (f x) (\<lambda>r. case r of None \<Rightarrow> kfirst f xs | Some a \<Rightarrow> kret (Some a))"

lemmas kernel_basic_defs [kernel_defs] =
  kret_def kpanic_def ksleep_def kbind_def kget_def kmod_def kthen_def kguard_def kwhen_def

lemma kbind_ret [simp]: "m s = Ret x s' \<Longrightarrow> kbind m f s = f x s'"
  by (simp add: kbind_def)

lemma kbind_panic [simp]: "m s = Panic e \<Longrightarrow> kbind m f s = Panic e"
  by (simp add: kbind_def)

lemma kbind_Ret_iff:
  "kbind m f s = Ret y t \<longleftrightarrow> (\<exists>x s'. m s = Ret x s' \<and> f x s' = Ret y t)"
  by (simp add: kbind_def split: outcome.splits)

lemma kthen_Ret_iff:
  "kthen m f s = Ret y t \<longleftrightarrow> (\<exists>x s'. m s = Ret x s' \<and> f s' = Ret y t)"
  by (simp add: kthen_def kbind_Ret_iff)

lemma kret_Ret_iff [simp]: "kret x s = Ret y t \<longleftrightarrow> x = y \<and> s = t"
  by (simp add: kret_def)

lemma kget_Ret_iff [simp]: "kget f s = Ret y t \<longleftrightarrow> f s = y \<and> s = t"
  by (simp add: kget_def)

lemma kmod_Ret_iff [simp]: "kmod f s = Ret y t \<longleftrightarrow> f s = t"
  by (simp add: kmod_def)

lemma kguard_Ret_iff [simp]: "kguard c e s = Ret y t \<longleftrightarrow> c \<and> s = t"
  by (simp add: kguard_def kret_def kpanic_def)

lemma kpanic_Ret_iff [simp]: "\<not> kpanic e s = Ret y t"
  by (simp add: kpanic_def)

section \<open>Weakest preconditions\<close>

text \<open>
  \<open>wp m Q s\<close>: run from \<open>s\<close>, the code returns (it neither panics nor sleeps) and \<open>Q\<close> holds of
  the value and the new state. \<open>wlp\<close> is the partial form: \<open>Q\<close> holds if it returns.
\<close>

definition wp :: "('s, 'a) kmon \<Rightarrow> ('a \<Rightarrow> 's \<Rightarrow> bool) \<Rightarrow> 's \<Rightarrow> bool" where
  "wp m Q s = (case m s of Ret x s' \<Rightarrow> Q x s' | Panic e \<Rightarrow> False | Sleep ch s' \<Rightarrow> False)"

definition wlp :: "('s, 'a) kmon \<Rightarrow> ('a \<Rightarrow> 's \<Rightarrow> bool) \<Rightarrow> 's \<Rightarrow> bool" where
  "wlp m Q s = (case m s of Ret x s' \<Rightarrow> Q x s' | Panic e \<Rightarrow> True | Sleep ch s' \<Rightarrow> True)"

lemma wp_kret [wp_simps]: "wp (kret x) Q s = Q x s"
  by (simp add: wp_def kret_def)

lemma wp_kpanic [wp_simps]: "wp (kpanic e) Q s = False"
  by (simp add: wp_def kpanic_def)

lemma wp_ksleep [wp_simps]: "wp (ksleep ch) Q s = False"
  by (simp add: wp_def ksleep_def)

lemma wp_kbind [wp_simps]: "wp (kbind m f) Q s = wp m (\<lambda>x s'. wp (f x) Q s') s"
  by (simp add: wp_def kbind_def split: outcome.splits)

lemma wp_kget [wp_simps]: "wp (kget f) Q s = Q (f s) s"
  by (simp add: wp_def kget_def)

lemma wp_kmod [wp_simps]: "wp (kmod f) Q s = Q () (f s)"
  by (simp add: wp_def kmod_def)

lemma wp_kthen [wp_simps]: "wp (kthen m f) Q s = wp m (\<lambda>_ s'. wp f Q s') s"
  by (simp add: kthen_def wp_kbind)

lemma wp_kguard [wp_simps]: "wp (kguard c e) Q s \<longleftrightarrow> c \<and> Q () s"
  by (simp add: wp_def kguard_def kret_def kpanic_def)

lemma wp_kwhen [wp_simps]: "wp (kwhen c m) Q s = (if c then wp m Q s else Q () s)"
  by (simp add: kwhen_def wp_kret)

lemma wp_mono: "\<lbrakk>wp m Q s; \<And>x s'. Q x s' \<Longrightarrow> R x s'\<rbrakk> \<Longrightarrow> wp m R s"
  by (simp add: wp_def split: outcome.splits)

lemma wp_conj: "\<lbrakk>wp m Q s; wp m R s\<rbrakk> \<Longrightarrow> wp m (\<lambda>x s'. Q x s' \<and> R x s') s"
  by (simp add: wp_def split: outcome.splits)

lemma wpI: "\<lbrakk>m s = Ret x s'; Q x s'\<rbrakk> \<Longrightarrow> wp m Q s"
  by (simp add: wp_def)

lemma wpE:
  assumes "wp m Q s"
  obtains x s' where "m s = Ret x s'" "Q x s'"
  using assms by (simp add: wp_def split: outcome.splits)

lemma wp_Ret: "wp m Q s \<Longrightarrow> m s = Ret x s' \<Longrightarrow> Q x s'"
  by (simp add: wp_def)

lemma wp_kforeach:
  assumes "I [] s"
    and "\<And>pre x rest s. xs = pre @ x # rest \<Longrightarrow> I pre s \<Longrightarrow> wp (f x) (\<lambda>_ s'. I (pre @ [x]) s') s"
  shows "wp (kforeach f xs) (\<lambda>_ s'. I xs s') s"
proof -
  have "wp (kforeach f rest) (\<lambda>_ s'. I xs s') s" if "xs = pre @ rest" "I pre s" for pre rest s
    using that
  proof (induction rest arbitrary: pre s)
    case Nil
    then show ?case by (simp add: wp_kret)
  next
    case (Cons x rest)
    have "wp (f x) (\<lambda>_ s'. I (pre @ [x]) s') s"
      using assms(2) [OF Cons.prems(1) Cons.prems(2)] .
    then have "wp (f x) (\<lambda>_ s'. wp (kforeach f rest) (\<lambda>_ s'. I xs s') s') s"
      by (rule wp_mono) (rule Cons.IH, simp_all add: Cons.prems(1))
    then show ?case by (simp add: wp_kthen)
  qed
  from this [of "[]" xs s] assms(1) show ?thesis by simp
qed

section \<open>Arrays as lists\<close>

lemma nth_list_update_if: "i < length xs \<Longrightarrow> xs[j := x] ! i = (if i = j then x else xs ! i)"
  by (cases "i = j") simp_all

text \<open>The first index at which a scan \<^verbatim>\<open>for(i = 0; i < n; i++) if(P(a[i])) ...\<close> stops.\<close>

primrec first_index :: "('a \<Rightarrow> bool) \<Rightarrow> 'a list \<Rightarrow> nat option" where
  "first_index P [] = None"
| "first_index P (x # xs) = (if P x then Some 0 else map_option Suc (first_index P xs))"

lemma first_index_None [simp]: "first_index P xs = None \<longleftrightarrow> (\<forall>x\<in>set xs. \<not> P x)"
  by (induction xs) auto

lemma first_index_Some:
  "first_index P xs = Some i \<longleftrightarrow> i < length xs \<and> P (xs ! i) \<and> (\<forall>j<i. \<not> P (xs ! j))"
proof (induction xs arbitrary: i)
  case Nil
  then show ?case by simp
next
  case (Cons x xs)
  show ?case
  proof (cases i)
    case 0
    then show ?thesis by auto
  next
    case (Suc k)
    have "(\<forall>j<Suc k. \<not> P ((x # xs) ! j)) \<longleftrightarrow> \<not> P x \<and> (\<forall>j<k. \<not> P (xs ! j))"
      by (auto simp: less_Suc_eq_0_disj)
    then show ?thesis using Suc Cons.IH by auto
  qed
qed

lemma first_index_SomeD:
  assumes "first_index P xs = Some i"
  shows "i < length xs" "P (xs ! i)" "\<And>j. j < i \<Longrightarrow> \<not> P (xs ! j)"
  using assms by (auto simp: first_index_Some)

lemma first_index_ex: "\<lbrakk>i < length xs; P (xs ! i)\<rbrakk> \<Longrightarrow> \<exists>j. first_index P xs = Some j"
  by (metis first_index_None not_Some_eq nth_mem)

end
