(* ===== verification/Riscv.thy ===== *)
theory Riscv
  imports Prelude
begin

text \<open>
  The address arithmetic of \<^verbatim>\<open>kernel/riscv.h\<close> (pages, Sv39 page-table entries and indices), the
  memory map of \<^verbatim>\<open>kernel/memlayout.h\<close> and the limits of \<^verbatim>\<open>kernel/param.h\<close>. The lemmas say that the
  macros compute what their names promise: rounding, the encoding of a physical address in a
  page-table entry and back, and that the three indices determine a page.
\<close>

section \<open>Pages and page-table entries (riscv.h)\<close>

abbreviation (input) PGSIZE :: u64 where "PGSIZE \<equiv> 4096"

definition PGROUNDUP :: "u64 \<Rightarrow> u64" where
  "PGROUNDUP sz = (sz + PGSIZE - 1) AND NOT (PGSIZE - 1)"

definition PGROUNDDOWN :: "u64 \<Rightarrow> u64" where
  "PGROUNDDOWN a = a AND NOT (PGSIZE - 1)"

abbreviation (input) PTE_V :: u64 where "PTE_V \<equiv> 1"
abbreviation (input) PTE_R :: u64 where "PTE_R \<equiv> 2"
abbreviation (input) PTE_W :: u64 where "PTE_W \<equiv> 4"
abbreviation (input) PTE_X :: u64 where "PTE_X \<equiv> 8"
abbreviation (input) PTE_U :: u64 where "PTE_U \<equiv> 16"

definition PA2PTE :: "u64 \<Rightarrow> u64" where
  "PA2PTE pa = push_bit 10 (drop_bit 12 pa)"

definition PTE2PA :: "u64 \<Rightarrow> u64" where
  "PTE2PA pte = push_bit 12 (drop_bit 10 pte)"

definition PTE_FLAGS :: "u64 \<Rightarrow> u64" where
  "PTE_FLAGS pte = pte AND 0x3FF"

definition PXSHIFT :: "nat \<Rightarrow> nat" where
  "PXSHIFT level = 12 + 9 * level"

definition PX :: "nat \<Rightarrow> u64 \<Rightarrow> u64" where
  "PX level va = drop_bit (PXSHIFT level) va AND 0x1FF"

abbreviation (input) MAXVA :: u64 where "MAXVA \<equiv> 0x4000000000"

definition MAKE_SATP :: "u64 \<Rightarrow> u64" where
  "MAKE_SATP pagetable = push_bit 60 8 OR drop_bit 12 pagetable"

section \<open>The memory map (memlayout.h) and the limits (param.h)\<close>

abbreviation (input) UART0 :: u64 where "UART0 \<equiv> 0x10000000"
abbreviation (input) VIRTIO0 :: u64 where "VIRTIO0 \<equiv> 0x10001000"
abbreviation (input) PLIC :: u64 where "PLIC \<equiv> 0x0c000000"
abbreviation (input) KERNBASE :: u64 where "KERNBASE \<equiv> 0x80000000"
abbreviation (input) PHYSTOP :: u64 where "PHYSTOP \<equiv> 0x88000000"
abbreviation (input) TRAMPOLINE :: u64 where "TRAMPOLINE \<equiv> 0x3FFFFFF000"
abbreviation (input) TRAPFRAME :: u64 where "TRAPFRAME \<equiv> 0x3FFFFFE000"

definition KSTACK :: "nat \<Rightarrow> u64" where
  "KSTACK p = TRAMPOLINE - (of_nat p + 1) * 2 * PGSIZE"

abbreviation (input) NPROC :: nat where "NPROC \<equiv> 64"
abbreviation (input) NOFILE :: nat where "NOFILE \<equiv> 16"
abbreviation (input) NFILE :: nat where "NFILE \<equiv> 100"
abbreviation (input) NINODE :: nat where "NINODE \<equiv> 50"
abbreviation (input) NDEV :: int where "NDEV \<equiv> 10"
abbreviation (input) ROOTDEV :: u32 where "ROOTDEV \<equiv> 1"
abbreviation (input) MAXARG :: nat where "MAXARG \<equiv> 32"
abbreviation (input) MAXOPBLOCKS :: nat where "MAXOPBLOCKS \<equiv> 10"
abbreviation (input) LOGBLOCKS :: nat where "LOGBLOCKS \<equiv> 30"
abbreviation (input) NBUF :: nat where "NBUF \<equiv> 30"
abbreviation (input) MAXPATH :: nat where "MAXPATH \<equiv> 128"
abbreviation (input) MMAPBASE :: u64 where "MMAPBASE \<equiv> 0x40000000"
abbreviation (input) NMMAPAREA :: nat where "NMMAPAREA \<equiv> 64"
abbreviation (input) PROT_READ :: int where "PROT_READ \<equiv> 1"
abbreviation (input) PROT_WRITE :: int where "PROT_WRITE \<equiv> 2"
abbreviation (input) MAP_ANONYMOUS :: int where "MAP_ANONYMOUS \<equiv> 1"
abbreviation (input) MAP_POPULATE :: int where "MAP_POPULATE \<equiv> 2"

section \<open>Lemmas\<close>

definition pg_aligned :: "u64 \<Rightarrow> bool" where
  "pg_aligned a \<longleftrightarrow> a mod PGSIZE = 0"

lemma unat_mod_PGSIZE: "unat (a mod PGSIZE) = unat a mod 4096"
  by (simp add: unat_mod)

lemma pg_aligned_unat: "pg_aligned a \<longleftrightarrow> unat a mod 4096 = 0"
  by (metis pg_aligned_def unat_mod_PGSIZE unat_eq_0)

lemma PGROUNDDOWN_alt: "PGROUNDDOWN a = push_bit 12 (drop_bit 12 a)"
proof -
  have m: "(PGSIZE - 1 :: u64) = mask 12" by (simp add: mask_eq_exp_minus_1)
  show ?thesis unfolding PGROUNDDOWN_def m
    by (rule bit_eqI) (auto simp: bit_simps)
qed

lemma unat_drop_bit_u64: "unat (drop_bit n (a :: u64)) = unat a div 2 ^ n"
  by (subst unat_drop_bit_eq) (rule drop_bit_eq_div)

lemma unat_push_bit_u64: "unat a * 2 ^ n < 2 ^ 64 \<Longrightarrow> unat (push_bit n (a :: u64)) = unat a * 2 ^ n"
  by (subst unsigned_push_bit_eq) (simp add: take_bit_eq_mod push_bit_eq_mult [of n "unat a"])

lemma unat_lt64: "unat (a :: u64) < 18446744073709551616"
  using unsigned_less [of a] by simp

lemma unat_PGROUNDDOWN: "unat (PGROUNDDOWN a) = unat a div 4096 * 4096"
proof -
  have "unat a div 4096 * 4096 \<le> unat a" by simp
  then have "unat (drop_bit 12 a) * 2 ^ 12 < 2 ^ 64"
    using unat_lt64 [of a] by (simp add: unat_drop_bit_u64)
  then show ?thesis
    by (simp add: PGROUNDDOWN_alt unat_push_bit_u64 unat_drop_bit_u64)
qed

lemma PGROUNDDOWN_aligned [simp]: "pg_aligned (PGROUNDDOWN a)"
  by (simp add: pg_aligned_unat unat_PGROUNDDOWN)

lemma PGROUNDDOWN_id: "pg_aligned a \<Longrightarrow> PGROUNDDOWN a = a"
proof -
  assume "pg_aligned a"
  then have "unat a div 4096 * 4096 = unat a"
    using div_mult_mod_eq [of "unat a" 4096] by (simp add: pg_aligned_unat)
  then show ?thesis by (simp add: word_unat_eq_iff unat_PGROUNDDOWN)
qed

lemma PGROUNDDOWN_le: "PGROUNDDOWN a \<le> a"
  by (simp add: word_le_nat_alt unat_PGROUNDDOWN)

lemma PGROUNDUP_alt: "PGROUNDUP a = PGROUNDDOWN (a + 4095)"
proof -
  have "a + PGSIZE - 1 = a + 4095" by simp
  then show ?thesis by (simp only: PGROUNDUP_def PGROUNDDOWN_def)
qed

lemma PGROUNDUP_aligned [simp]: "pg_aligned (PGROUNDUP a)"
  by (simp add: PGROUNDUP_alt)

lemma unat_PGROUNDUP:
  "unat a + 4095 < 2 ^ 64 \<Longrightarrow> unat (PGROUNDUP a) = (unat a + 4095) div 4096 * 4096"
  by (simp add: PGROUNDUP_alt unat_PGROUNDDOWN unat_word_ariths)

lemma PGROUNDUP_id: "pg_aligned a \<Longrightarrow> PGROUNDUP a = a"
proof -
  assume al: "pg_aligned a"
  then obtain k where k: "unat a = 4096 * k"
    by (auto simp: pg_aligned_unat mod_eq_0_iff_dvd elim: dvdE)
  have "unat a < 18446744073709551616" by (rule unat_lt64)
  then have "k < 4503599627370496" using k by linarith
  then have b: "unat a + 4095 < 18446744073709551616" using k by linarith
  have "(unat a + 4095) div 4096 * 4096 = unat a" by (simp add: k)
  with b show ?thesis by (simp add: word_unat_eq_iff unat_PGROUNDUP)
qed

lemma take_bit_u64_self: "unat (a :: u64) < 2 ^ n \<Longrightarrow> take_bit n a = a"
proof -
  assume "unat a < 2 ^ n"
  then have "unat (take_bit n a) = unat a"
    by (subst unsigned_take_bit_eq) (simp add: take_bit_nat_eq_self)
  then show ?thesis by (simp add: word_unat_eq_iff)
qed

text \<open>A physical address below \<open>2\<^sup>5\<^sup>6\<close> survives the trip through a page-table entry.\<close>

lemma PTE_pack:
  assumes "pg_aligned pa" "pa < 2 ^ 56" "flags < 1024"
  shows "PTE2PA (PA2PTE pa OR flags) = pa" and "PTE_FLAGS (PA2PTE pa OR flags) = flags"
proof -
  have f: "\<not> bit flags n" if "10 \<le> n" for n
  proof -
    have "take_bit 10 flags = flags"
      by (rule take_bit_u64_self) (use assms(3) in \<open>simp add: word_less_nat_alt\<close>)
    then show ?thesis using that by (metis bit_take_bit_iff not_le)
  qed
  have lo: "\<not> bit pa n" if "n < 12" for n
  proof -
    have "pa = push_bit 12 (drop_bit 12 pa)"
      using assms(1) PGROUNDDOWN_id PGROUNDDOWN_alt by metis
    then show ?thesis using that by (metis bit_push_bit_iff not_le)
  qed
  have hi: "\<not> bit pa n" if "56 \<le> n" for n
  proof -
    have "take_bit 56 pa = pa"
      by (rule take_bit_u64_self) (use assms(2) in \<open>simp add: word_less_nat_alt\<close>)
    then show ?thesis using that by (metis bit_take_bit_iff not_le)
  qed
  show "PTE2PA (PA2PTE pa OR flags) = pa"
    unfolding PTE2PA_def PA2PTE_def
  proof (rule bit_eqI)
    fix n
    assume "possible_bit TYPE(u64) n"
    then have "n < 64" by simp
    consider "n < 12" | "12 \<le> n" "n < 56" | "56 \<le> n" by linarith
    then show "bit (push_bit 12 (drop_bit 10 (push_bit 10 (drop_bit 12 pa) OR flags))) n = bit pa n"
    proof cases
      case 1
      then show ?thesis using lo by (simp add: bit_simps)
    next
      case 2
      then have "12 + (n - 12) = n" "\<not> bit flags (10 + (n - 12))" "10 \<le> n - 2" "n - 2 < 64"
        using f by simp_all
      then show ?thesis using 2 by (simp add: bit_simps)
    next
      case 3
      then have "12 + (n - 12) = n" "\<not> bit flags (10 + (n - 12))" using f by simp_all
      then show ?thesis using 3 hi by (simp add: bit_simps)
    qed
  qed
  have m: "(0x3FF :: u64) = mask 10" by (simp add: mask_eq_exp_minus_1)
  show "PTE_FLAGS (PA2PTE pa OR flags) = flags"
    unfolding PTE_FLAGS_def PA2PTE_def m
    by (rule bit_eqI) (use f not_le in \<open>auto simp: bit_simps\<close>)
qed

lemma unat_PX: "unat (PX l va) = unat va div 2 ^ (12 + 9 * l) mod 512"
proof -
  have m: "(0x1FF :: u64) = mask 9" by (simp add: mask_eq_exp_minus_1)
  have "PX l va = take_bit 9 (drop_bit (12 + 9 * l) va)"
    by (simp add: PX_def PXSHIFT_def m take_bit_eq_mask)
  then have "unat (PX l va) = take_bit 9 (unat (drop_bit (12 + 9 * l) va))"
    by (simp only: unsigned_take_bit_eq)
  then show ?thesis
    by (simp only: unat_drop_bit_u64 take_bit_eq_mod) simp
qed

lemma PX_less: "PX l va < 512"
  by (simp add: word_less_nat_alt unat_PX)

text \<open>The three 9-bit indices and the page offset determine an address below \<^const>\<open>MAXVA\<close>.\<close>

lemma PX_inj:
  assumes "va < MAXVA" "vb < MAXVA" "pg_aligned va" "pg_aligned vb"
    and "PX 2 va = PX 2 vb" "PX 1 va = PX 1 vb" "PX 0 va = PX 0 vb"
  shows "va = vb"
proof -
  have eq: "unat va div 2 ^ (12 + 9 * l) mod 512 = unat vb div 2 ^ (12 + 9 * l) mod 512"
    if "PX l va = PX l vb" for l
    using that unat_PX by metis
  have 2: "unat va div 1073741824 mod 512 = unat vb div 1073741824 mod 512"
    using eq [of 2] assms(5) by simp
  have 1: "unat va div 2097152 mod 512 = unat vb div 2097152 mod 512"
    using eq [of 1] assms(6) by simp
  have 0: "unat va div 4096 mod 512 = unat vb div 4096 mod 512"
    using eq [of 0] assms(7) by simp
  have a: "unat va mod 4096 = 0" "unat vb mod 4096 = 0"
    using assms(3,4) by (simp_all add: pg_aligned_unat)
  have b: "unat va < 274877906944" "unat vb < 274877906944"
    using assms(1,2) by (simp_all add: word_less_nat_alt)
  have split: "x = 1073741824 * (x div 1073741824 mod 512) + 2097152 * (x div 2097152 mod 512)
      + 4096 * (x div 4096 mod 512)" if "x mod 4096 = 0" "x < 274877906944" for x :: nat
  proof -
    define q where "q = x div 4096"
    have e: "x div 2097152 = q div 512" "x div 1073741824 = q div 512 div 512"
      by (simp_all add: q_def div_mult2_eq [symmetric])
    have x: "x = 4096 * q" using that(1) mult_div_mod_eq [of 4096 x] by (simp add: q_def)
    have "q < 134217728" using that(2) x by simp
    then have small: "q div 512 div 512 < 512" by (simp add: div_mult2_eq [symmetric])
    have "q div 512 = 512 * (q div 512 div 512) + q div 512 mod 512"
      using mult_div_mod_eq [of 512 "q div 512"] by simp
    moreover have "q = 512 * (q div 512) + q mod 512"
      using mult_div_mod_eq [of 512 q] by simp
    moreover have "q div 512 div 512 mod 512 = q div 512 div 512"
      using small by (rule mod_less)
    ultimately show ?thesis unfolding e q_def [symmetric] using x by linarith
  qed
  have "unat va = 1073741824 * (unat va div 1073741824 mod 512)
      + 2097152 * (unat va div 2097152 mod 512) + 4096 * (unat va div 4096 mod 512)"
    by (rule split [OF a(1) b(1)])
  also have "\<dots> = 1073741824 * (unat vb div 1073741824 mod 512)
      + 2097152 * (unat vb div 2097152 mod 512) + 4096 * (unat vb div 4096 mod 512)"
    by (simp only: 0 1 2)
  also have "\<dots> = unat vb"
    by (rule split [OF a(2) b(2), symmetric])
  finally have "unat va = unat vb" .
  then show ?thesis by (simp add: word_unat_eq_iff)
qed

end
