(* ===== verification/Sched.thy ===== *)
theory Sched
  imports Riscv
begin

text \<open>
  The process table and the EEVDF scheduler: \<^verbatim>\<open>struct proc\<close> of \<^verbatim>\<open>kernel/proc.h\<close>, the run-queue
  statistics, eligibility, the scheduler's selection loop, sleeping and waking, killing, nice values
  and the timer accounting of \<^verbatim>\<open>kernel/proc.c\<close> and \<^verbatim>\<open>kernel/trap.c\<close>.

  A pointer to a \<^verbatim>\<open>struct proc\<close> is an index into \<^verbatim>\<open>proc[NPROC]\<close>, the null pointer is \<^const>\<open>None\<close>.
  Each function takes the table under the locks the source takes, so a scan over the table is one
  step; \<^verbatim>\<open>swtch\<close> is the point where a function is split in two (\<open>sleep_enter\<close> and \<open>sleep_resume\<close>).
\<close>

section \<open>Data\<close>

abbreviation (input) NICE_MIN :: int where "NICE_MIN \<equiv> 0"
abbreviation (input) NICE_MAX :: int where "NICE_MAX \<equiv> 39"
abbreviation (input) NICE_DEFAULT :: int where "NICE_DEFAULT \<equiv> 20"
abbreviation (input) BASE_SLICE :: int where "BASE_SLICE \<equiv> 5"
abbreviation (input) MILLI_TICK :: u64 where "MILLI_TICK \<equiv> 1000"
abbreviation (input) NICE_20_WEIGHT :: u64 where "NICE_20_WEIGHT \<equiv> 1024"

datatype procstate = UNUSED | USED | SLEEPING | RUNNABLE | RUNNING | ZOMBIE

record kcontext =
  ctx_ra :: u64
  ctx_sp :: u64
  ctx_s :: "u64 list"

record proc =
  p_state :: procstate
  p_chan :: "channel option"
  p_killed :: int
  p_xstate :: int
  p_pid :: int
  p_nice :: int
  p_weight :: int
  p_runtime :: u64
  p_vruntime :: u64
  p_vdeadline :: u64
  p_remain_slice :: int
  p_eligible :: int
  p_parent :: "nat option"
  p_kstack :: u64
  p_sz :: u64
  p_pagetable :: u64
  p_trapframe :: u64
  p_context :: kcontext
  p_ofile :: "nat option list"
  p_cwd :: "nat option"
  p_name :: "u8 list"

record ptable =
  procs :: "proc list"
  nextpid :: int
  initproc :: "nat option"
  curproc :: "nat option"
  ticks :: u32

record eevdf_rq_stats =
  v0 :: u64
  sum_weight :: u64
  avg_numer :: u64
  nr :: int

definition nice_to_weight :: "int list" where
  "nice_to_weight =
    [88761, 71755, 56483, 46273, 36291,
     29154, 23254, 18705, 14949, 11916,
      9548,  7620,  6100,  4904,  3906,
      3121,  2501,  1991,  1586,  1277,
      1024,   820,   655,   526,   423,
       335,   272,   215,   172,   137,
       110,    87,    70,    56,    45,
        36,    29,    23,    18,    15]"

definition nice_weight :: "int \<Rightarrow> int" where
  "nice_weight n = nice_to_weight ! nat n"

section \<open>EEVDF accounting\<close>

definition eevdf_slice_delta :: "int \<Rightarrow> u64" where
  "eevdf_slice_delta w = udiv64 (u64_of_int BASE_SLICE * MILLI_TICK * NICE_20_WEIGHT) (u64_of_int w)"

definition eevdf_refresh_deadline :: "proc \<Rightarrow> proc" where
  "eevdf_refresh_deadline p = p\<lparr>p_vdeadline := p_vruntime p + eevdf_slice_delta (p_weight p)\<rparr>"

definition eevdf_tick :: "proc \<Rightarrow> proc" where
  "eevdf_tick p =
     p\<lparr>p_runtime := p_runtime p + MILLI_TICK,
       p_vruntime := p_vruntime p + udiv64 (MILLI_TICK * NICE_20_WEIGHT) (u64_of_int (p_weight p)),
       p_remain_slice := (if p_remain_slice p > 0 then p_remain_slice p - 1 else p_remain_slice p)\<rparr>"

definition eevdf_on_rq :: "proc \<Rightarrow> bool" where
  "eevdf_on_rq p \<longleftrightarrow> p_state p = RUNNABLE \<or> p_state p = RUNNING"

definition eevdf_find_min_vruntime :: "proc list \<Rightarrow> eevdf_rq_stats \<Rightarrow> eevdf_rq_stats" where
  "eevdf_find_min_vruntime ps st =
     (let (found, st') = foldl (\<lambda>(found, st) p.
            if eevdf_on_rq p
            then (True, st\<lparr>v0 := (if \<not> found \<or> p_vruntime p < v0 st then p_vruntime p else v0 st),
                           nr := nr st + 1\<rparr>)
            else (found, st)) (False, st\<lparr>v0 := 0, nr := 0\<rparr>) ps
      in st')"

definition eevdf_calc_rq_stats :: "proc list \<Rightarrow> eevdf_rq_stats \<Rightarrow> eevdf_rq_stats" where
  "eevdf_calc_rq_stats ps st =
     (let st = st\<lparr>sum_weight := 0, avg_numer := 0\<rparr>
      in if nr st = 0 then st
         else foldl (\<lambda>st p.
            if eevdf_on_rq p
            then st\<lparr>sum_weight := sum_weight st + u64_of_int (p_weight p),
                    avg_numer := avg_numer st + (p_vruntime p - v0 st) * u64_of_int (p_weight p)\<rparr>
            else st) st ps)"

definition eevdf_collect_rq_stats :: "proc list \<Rightarrow> eevdf_rq_stats \<Rightarrow> eevdf_rq_stats" where
  "eevdf_collect_rq_stats ps st = eevdf_calc_rq_stats ps (eevdf_find_min_vruntime ps st)"

definition eevdf_is_eligible :: "proc \<Rightarrow> eevdf_rq_stats \<Rightarrow> int" where
  "eevdf_is_eligible p st =
     (if nr st = 0 \<or> sum_weight st = 0 then 0
      else if \<not> eevdf_on_rq p then 0
      else if p_vruntime p < v0 st then 0
      else if avg_numer st \<ge> (p_vruntime p - v0 st) * sum_weight st then 1 else 0)"

section \<open>The scheduler\<close>

text \<open>
  One turn of the selection loop (the body of \<^verbatim>\<open>for(p = proc; ...)\<close>): \<open>best\<close> is kept locked, so its
  deadline cannot change while the scan goes on.
\<close>

definition scheduler_visit :: "eevdf_rq_stats \<Rightarrow> proc list \<times> nat option \<Rightarrow> nat \<Rightarrow> proc list \<times> nat option" where
  "scheduler_visit st = (\<lambda>(ps, best) i.
     let p = ps ! i in
     if p_state p = RUNNABLE then
       let p = p\<lparr>p_eligible := eevdf_is_eligible p st\<rparr>; ps = ps[i := p] in
       if p_eligible p \<noteq> 0 \<and>
          (case best of None \<Rightarrow> True | Some b \<Rightarrow> p_vdeadline p < p_vdeadline (ps ! b))
       then (ps, Some i)
       else (ps, best)
     else (ps[i := p\<lparr>p_eligible := 0\<rparr>], best))"

definition scheduler_scan :: "eevdf_rq_stats \<Rightarrow> proc list \<Rightarrow> proc list \<times> nat option" where
  "scheduler_scan st ps = foldl (scheduler_visit st) (ps, None) [0..<length ps]"

text \<open>One pass of \<^verbatim>\<open>scheduler()\<close>'s outer loop, up to the \<^verbatim>\<open>swtch\<close> into the chosen process.\<close>

definition stats_zero :: eevdf_rq_stats where
  "stats_zero = \<lparr>v0 = 0, sum_weight = 0, avg_numer = 0, nr = 0\<rparr>"

definition scheduler :: "'a ptable_scheme \<Rightarrow> 'a ptable_scheme" where
  "scheduler s =
     (let st = eevdf_collect_rq_stats (procs s) stats_zero;
          (ps, best) = scheduler_scan st (procs s)
      in case best of
           None \<Rightarrow> s\<lparr>procs := ps, curproc := None\<rparr>
         | Some b \<Rightarrow> s\<lparr>procs := ps[b := (ps ! b)\<lparr>p_state := RUNNING\<rparr>], curproc := Some b\<rparr>)"

section \<open>Process operations on the table\<close>

definition upd_proc :: "nat \<Rightarrow> (proc \<Rightarrow> proc) \<Rightarrow> 'a ptable_scheme \<Rightarrow> 'a ptable_scheme" where
  "upd_proc i f s = s\<lparr>procs := (procs s)[i := f (procs s ! i)]\<rparr>"

definition allocpid :: "('a ptable_scheme, int) kmon" where
  "allocpid = (\<lambda>s. Ret (nextpid s) (s\<lparr>nextpid := i32 (nextpid s + 1)\<rparr>))"

definition wake_proc :: "proc \<Rightarrow> proc" where
  "wake_proc p = (eevdf_refresh_deadline (p\<lparr>p_remain_slice := BASE_SLICE\<rparr>))\<lparr>p_state := RUNNABLE\<rparr>"

definition wakeup :: "channel \<Rightarrow> 'a ptable_scheme \<Rightarrow> 'a ptable_scheme" where
  "wakeup ch s =
     s\<lparr>procs := map (\<lambda>i. let p = procs s ! i in
         if Some i \<noteq> curproc s \<and> p_state p = SLEEPING \<and> p_chan p = Some ch then wake_proc p else p)
       [0..<length (procs s)]\<rparr>"

text \<open>\<^verbatim>\<open>sleep\<close> up to \<^verbatim>\<open>sched\<close>, and what it does once the process runs again.\<close>

definition sleep_enter :: "channel \<Rightarrow> 'a ptable_scheme \<Rightarrow> 'a ptable_scheme" where
  "sleep_enter ch s = (case curproc s of
     None \<Rightarrow> s
   | Some i \<Rightarrow> (upd_proc i (\<lambda>p. p\<lparr>p_chan := Some ch, p_state := SLEEPING\<rparr>) s)\<lparr>curproc := None\<rparr>)"

definition sleep_resume :: "'a ptable_scheme \<Rightarrow> 'a ptable_scheme" where
  "sleep_resume s = (case curproc s of
     None \<Rightarrow> s | Some i \<Rightarrow> upd_proc i (\<lambda>p. p\<lparr>p_chan := None\<rparr>) s)"

definition yield :: "'a ptable_scheme \<Rightarrow> 'a ptable_scheme" where
  "yield s = (case curproc s of
     None \<Rightarrow> s | Some i \<Rightarrow> (upd_proc i (\<lambda>p. p\<lparr>p_state := RUNNABLE\<rparr>) s)\<lparr>curproc := None\<rparr>)"

definition kkill :: "int \<Rightarrow> ('a ptable_scheme, int) kmon" where
  "kkill pid s = (case first_index (\<lambda>p. p_pid p = pid) (procs s) of
     Some i \<Rightarrow> Ret 0 (upd_proc i (\<lambda>p.
        let p = p\<lparr>p_killed := 1\<rparr> in
        if p_state p = SLEEPING
        then (eevdf_refresh_deadline (p\<lparr>p_remain_slice := BASE_SLICE, p_eligible := 0\<rparr>))\<lparr>p_state := RUNNABLE\<rparr>
        else p) s)
   | None \<Rightarrow> Ret (- 1) s)"

definition setkilled :: "nat \<Rightarrow> 'a ptable_scheme \<Rightarrow> 'a ptable_scheme" where
  "setkilled i = upd_proc i (\<lambda>p. p\<lparr>p_killed := 1\<rparr>)"

definition killed :: "nat \<Rightarrow> 'a ptable_scheme \<Rightarrow> int" where
  "killed i s = p_killed (procs s ! i)"

definition kgetnice :: "int \<Rightarrow> 'a ptable_scheme \<Rightarrow> int" where
  "kgetnice pid s = (case first_index (\<lambda>p. p_state p \<noteq> UNUSED \<and> p_pid p = pid) (procs s) of
     Some i \<Rightarrow> p_nice (procs s ! i) | None \<Rightarrow> - 1)"

definition ksetnice :: "int \<Rightarrow> int \<Rightarrow> ('a ptable_scheme, int) kmon" where
  "ksetnice pid value s =
     (if value < 0 \<or> value > 39 then Ret (- 1) s
      else case first_index (\<lambda>p. p_state p \<noteq> UNUSED \<and> p_pid p = pid) (procs s) of
        Some i \<Rightarrow> Ret 0 (upd_proc i (\<lambda>p.
          eevdf_refresh_deadline (p\<lparr>p_nice := value, p_weight := nice_weight value\<rparr>)) s)
      | None \<Rightarrow> Ret (- 1) s)"

text \<open>\<^verbatim>\<open>reparent\<close> wakes init once for every child it hands over.\<close>

definition reparent :: "nat \<Rightarrow> 'a ptable_scheme \<Rightarrow> 'a ptable_scheme" where
  "reparent p s = foldl (\<lambda>s pp.
     if p_parent (procs s ! pp) = Some p
     then let s = upd_proc pp (\<lambda>q. q\<lparr>p_parent := initproc s\<rparr>) s
          in (case initproc s of Some ip \<Rightarrow> wakeup (ChProc ip) s | None \<Rightarrow> s)
     else s) s [0..<length (procs s)]"

section \<open>The timer (trap.c)\<close>

text \<open>
  The timer branches of \<^verbatim>\<open>usertrap\<close> and \<^verbatim>\<open>kerneltrap\<close> (\<^verbatim>\<open>which_dev == 2\<close>): account one tick to the
  process of this CPU and give the CPU up when its slice is used up.
\<close>

definition timer_account :: "nat \<Rightarrow> 'a ptable_scheme \<Rightarrow> 'a ptable_scheme" where
  "timer_account i s =
     (let s = upd_proc i eevdf_tick s in
      if p_remain_slice (procs s ! i) \<le> 0
      then yield (upd_proc i (\<lambda>p. eevdf_refresh_deadline (p\<lparr>p_remain_slice := BASE_SLICE\<rparr>)) s)
      else s)"

definition usertrap_timer :: "'a ptable_scheme \<Rightarrow> 'a ptable_scheme" where
  "usertrap_timer s = (case curproc s of None \<Rightarrow> s | Some i \<Rightarrow> timer_account i s)"

definition kerneltrap_timer :: "'a ptable_scheme \<Rightarrow> 'a ptable_scheme" where
  "kerneltrap_timer s = (case curproc s of None \<Rightarrow> s
     | Some i \<Rightarrow> if p_state (procs s ! i) = RUNNING then timer_account i s else s)"

definition clockintr :: "nat \<Rightarrow> 'a ptable_scheme \<Rightarrow> 'a ptable_scheme" where
  "clockintr cpuid s = (if cpuid = 0 then wakeup ChTicks (s\<lparr>ticks := ticks s + 1\<rparr>) else s)"

end
