(* ===== verification/Eevdf.thy ===== *)
theory Eevdf
  imports Sched
begin

text \<open>
  The scheduler is correct: the run-queue statistics of \<^verbatim>\<open>eevdf_collect_rq_stats\<close> are exact sums, the
  integer test of \<^verbatim>\<open>eevdf_is_eligible\<close> is the comparison with the weighted average virtual run time,
  the selection loop returns the eligible process with the earliest deadline, a time slice lasts as
  many ticks as it says, and nice values are read back as written.
\<close>

section \<open>Specification\<close>

text \<open>
  The run queue, the condition under which the sums are exact, and the EEVDF rule itself:
  \<open>fair_share\<close> compares a virtual run time with the weighted average over natural numbers.
\<close>

definition rq :: "proc list \<Rightarrow> proc list" where
  "rq ps = filter eevdf_on_rq ps"

definition rq_wf :: "proc list \<Rightarrow> bool" where
  "rq_wf ps \<longleftrightarrow> length ps \<le> NPROC \<and> (\<forall>p\<in>set (rq ps). 0 < p_weight p \<and> p_weight p \<le> 88761)"

definition rq_spread :: "proc list \<Rightarrow> bool" where
  "rq_spread ps \<longleftrightarrow> (\<forall>p\<in>set (rq ps). \<forall>q\<in>set (rq ps). unat (p_vruntime p) < unat (p_vruntime q) + 2 ^ 41)"

definition elig_upd :: "eevdf_rq_stats \<Rightarrow> proc \<Rightarrow> proc" where
  "elig_upd st p = p\<lparr>p_eligible := (if p_state p = RUNNABLE then eevdf_is_eligible p st else 0)\<rparr>"

definition candidate :: "eevdf_rq_stats \<Rightarrow> proc \<Rightarrow> bool" where
  "candidate st p \<longleftrightarrow> p_state p = RUNNABLE \<and> eevdf_is_eligible p st \<noteq> 0"

definition earliest :: "eevdf_rq_stats \<Rightarrow> proc list \<Rightarrow> nat option \<Rightarrow> bool" where
  "earliest st ps best \<longleftrightarrow> (case best of
     None \<Rightarrow> (\<forall>j<length ps. \<not> candidate st (ps ! j))
   | Some b \<Rightarrow> b < length ps \<and> candidate st (ps ! b) \<and>
       (\<forall>j<length ps. candidate st (ps ! j) \<longrightarrow>
          p_vdeadline (ps ! b) \<le> p_vdeadline (ps ! j) \<and>
          (j < b \<longrightarrow> p_vdeadline (ps ! b) < p_vdeadline (ps ! j))))"

definition fair_share :: "proc list \<Rightarrow> proc \<Rightarrow> bool" where
  "fair_share ps p \<longleftrightarrow> unat (p_vruntime p) * (\<Sum>q\<leftarrow>rq ps. nat (p_weight q))
      \<le> (\<Sum>q\<leftarrow>rq ps. unat (p_vruntime q) * nat (p_weight q))"

text \<open>A \<^verbatim>\<open>struct proc\<close> of the zero-initialised table, and a table of four processes for examples.\<close>

definition zero_proc :: proc where
  "zero_proc = \<lparr>p_state = UNUSED, p_chan = None, p_killed = 0, p_xstate = 0, p_pid = 0,
     p_nice = 0, p_weight = 0, p_runtime = 0, p_vruntime = 0, p_vdeadline = 0, p_remain_slice = 0,
     p_eligible = 0, p_parent = None, p_kstack = 0, p_sz = 0, p_pagetable = 0, p_trapframe = 0,
     p_context = \<lparr>ctx_ra = 0, ctx_sp = 0, ctx_s = replicate 12 0\<rparr>,
     p_ofile = replicate NOFILE None, p_cwd = None, p_name = replicate 16 0\<rparr>"

definition demo_proc :: "procstate \<Rightarrow> int \<Rightarrow> int \<Rightarrow> u64 \<Rightarrow> u64 \<Rightarrow> proc" where
  "demo_proc st pid w v d = zero_proc\<lparr>p_state := st, p_pid := pid, p_weight := w,
     p_vruntime := v, p_vdeadline := d, p_remain_slice := BASE_SLICE\<rparr>"

definition demo_table :: ptable where
  "demo_table = \<lparr>procs = [demo_proc RUNNABLE 1 1024 9000 9100, demo_proc SLEEPING 2 1024 0 10,
       demo_proc RUNNABLE 7 820 4000 10244, demo_proc RUNNABLE 8 88761 4100 10300],
     nextpid = 9, initproc = Some 0, curproc = None, ticks = 0\<rparr>"

section \<open>The run-queue statistics are exact\<close>

lemma find_min_fold:
  fixes st :: eevdf_rq_stats
  defines "step \<equiv> (\<lambda>(found, st) p.
            if eevdf_on_rq p
            then (True, st\<lparr>v0 := (if \<not> found \<or> p_vruntime p < v0 st then p_vruntime p else v0 st),
                           nr := nr st + 1\<rparr>)
            else (found, st))"
  shows "foldl step (False, st\<lparr>v0 := 0, nr := 0\<rparr>) ps =
    (rq ps \<noteq> [],
     st\<lparr>v0 := (if rq ps = [] then 0 else Min (p_vruntime ` set (rq ps))), nr := int (length (rq ps))\<rparr>)"
proof (induction ps rule: rev_induct)
  case Nil
  then show ?case by (simp add: rq_def)
next
  case (snoc p ps)
  show ?case
  proof (cases "eevdf_on_rq p")
    case True
    have m: "(if a < b then a else b) = min a b" for a b :: u64 by (auto simp: min_def)
    have i: "Min (insert a (p_vruntime ` set (rq ps))) = min a (Min (p_vruntime ` set (rq ps)))"
      if "rq ps \<noteq> []" for a
      using that by simp
    have r: "rq (ps @ [p]) = rq ps @ [p]" using True by (simp add: rq_def)
    show ?thesis
    proof (cases "rq ps = []")
      case True
      then show ?thesis using \<open>eevdf_on_rq p\<close>
        by (simp only: foldl_append foldl_Cons foldl_Nil snoc) (simp add: step_def r)
    next
      case False
      then show ?thesis using \<open>eevdf_on_rq p\<close>
        by (simp only: foldl_append foldl_Cons foldl_Nil snoc)
          (simp add: step_def r m i del: Min_gr_iff Min_insert)
    qed
  next
    case False
    then show ?thesis
      by (simp only: foldl_append foldl_Cons foldl_Nil snoc) (simp add: step_def rq_def)
  qed
qed

lemma find_min_vruntime_eq:
  "eevdf_find_min_vruntime ps st =
     st\<lparr>v0 := (if rq ps = [] then 0 else Min (p_vruntime ` set (rq ps))), nr := int (length (rq ps))\<rparr>"
  unfolding eevdf_find_min_vruntime_def find_min_fold by simp

lemma calc_fold:
  "foldl (\<lambda>st p. if eevdf_on_rq p
            then st\<lparr>sum_weight := sum_weight st + u64_of_int (p_weight p),
                    avg_numer := avg_numer st + (p_vruntime p - v0 st) * u64_of_int (p_weight p)\<rparr>
            else st) st ps =
   st\<lparr>sum_weight := sum_weight st + (\<Sum>p\<leftarrow>rq ps. u64_of_int (p_weight p)),
      avg_numer := avg_numer st + (\<Sum>p\<leftarrow>rq ps. (p_vruntime p - v0 st) * u64_of_int (p_weight p))\<rparr>"
  by (induction ps arbitrary: st) (simp_all add: rq_def algebra_simps)

lemma collect_stats:
  fixes ps :: "proc list"
  defines "m \<equiv> (if rq ps = [] then 0 else Min (p_vruntime ` set (rq ps)))"
  shows "eevdf_collect_rq_stats ps st =
    \<lparr>v0 = m, sum_weight = (\<Sum>p\<leftarrow>rq ps. u64_of_int (p_weight p)),
     avg_numer = (\<Sum>p\<leftarrow>rq ps. (p_vruntime p - m) * u64_of_int (p_weight p)),
     nr = int (length (rq ps))\<rparr>"
proof (cases "rq ps = []")
  case True
  then show ?thesis
    by (simp add: eevdf_collect_rq_stats_def find_min_vruntime_eq eevdf_calc_rq_stats_def m_def)
next
  case False
  then show ?thesis
    by (simp add: eevdf_collect_rq_stats_def find_min_vruntime_eq eevdf_calc_rq_stats_def
        calc_fold m_def Let_def)
qed

lemma unat_sum_list_exact:
  "(\<Sum>x\<leftarrow>xs. unat (f x)) < 2 ^ 64 \<Longrightarrow> unat (\<Sum>x\<leftarrow>xs. (f x :: u64)) = (\<Sum>x\<leftarrow>xs. unat (f x))"
proof (induction xs)
  case Nil
  then show ?case by simp
next
  case (Cons x xs)
  then have "unat (\<Sum>x\<leftarrow>xs. f x) = (\<Sum>x\<leftarrow>xs. unat (f x))" by simp
  with Cons.prems show ?case by (simp add: unat_word_ariths)
qed

lemma sum_list_bound: "(\<And>x. x \<in> set xs \<Longrightarrow> f x \<le> (b :: nat)) \<Longrightarrow> (\<Sum>x\<leftarrow>xs. f x) \<le> length xs * b"
  by (induction xs) (auto intro: add_mono)

lemma rq_length: "length (rq ps) \<le> length ps"
  by (simp add: rq_def)

lemma rq_weight_unat: "\<lbrakk>rq_wf ps; p \<in> set (rq ps)\<rbrakk> \<Longrightarrow> unat (u64_of_int (p_weight p)) = nat (p_weight p)"
  by (rule unat_u64_of_int) (auto simp: rq_wf_def)

lemma sum_weight_exact:
  assumes "rq_wf ps"
  shows "unat (sum_weight (eevdf_collect_rq_stats ps st)) = (\<Sum>p\<leftarrow>rq ps. nat (p_weight p))"
proof -
  have e: "(\<Sum>p\<leftarrow>rq ps. unat (u64_of_int (p_weight p))) = (\<Sum>p\<leftarrow>rq ps. nat (p_weight p))"
    by (rule arg_cong [where f = sum_list]) (simp add: rq_weight_unat [OF assms])
  have "(\<Sum>p\<leftarrow>rq ps. nat (p_weight p)) \<le> length (rq ps) * 88761"
    by (rule sum_list_bound) (use assms in \<open>auto simp: rq_wf_def\<close>)
  also have "\<dots> \<le> 64 * 88761"
    using rq_length [of ps] assms by (simp add: rq_wf_def)
  finally have "(\<Sum>p\<leftarrow>rq ps. nat (p_weight p)) < 2 ^ 64" by simp
  then show ?thesis
    by (simp add: collect_stats unat_sum_list_exact e)
qed

lemma rq_v0:
  assumes "p \<in> set (rq ps)"
  shows "v0 (eevdf_collect_rq_stats ps st) \<le> p_vruntime p"
    and "\<exists>q\<in>set (rq ps). v0 (eevdf_collect_rq_stats ps st) = p_vruntime q"
proof -
  let ?V = "p_vruntime ` set (rq ps)"
  from assms have ne: "rq ps \<noteq> []" by auto
  then have v: "v0 (eevdf_collect_rq_stats ps st) = Min ?V" by (simp add: collect_stats)
  show "v0 (eevdf_collect_rq_stats ps st) \<le> p_vruntime p"
    unfolding v by (rule Min_le) (use assms in auto)
  have "Min ?V \<in> ?V" by (rule Min_in) (use ne in auto)
  then show "\<exists>q\<in>set (rq ps). v0 (eevdf_collect_rq_stats ps st) = p_vruntime q"
    unfolding v by auto
qed

lemma rq_lag_exact:
  fixes st :: eevdf_rq_stats
  assumes "rq_wf ps" "rq_spread ps" "p \<in> set (rq ps)"
  defines "m \<equiv> v0 (eevdf_collect_rq_stats ps st)"
  shows "unat (p_vruntime p - m) = unat (p_vruntime p) - unat m"
    and "unat (p_vruntime p) - unat m < 2 ^ 41"
    and "unat ((p_vruntime p - m) * u64_of_int (p_weight p))
           = (unat (p_vruntime p) - unat m) * nat (p_weight p)"
proof -
  have le: "m \<le> p_vruntime p" unfolding m_def by (rule rq_v0(1) [OF assms(3)])
  then show d: "unat (p_vruntime p - m) = unat (p_vruntime p) - unat m"
    by (rule unat_sub)
  obtain q where "q \<in> set (rq ps)" "m = p_vruntime q"
    using rq_v0(2) [OF assms(3)] unfolding m_def by blast
  then show s: "unat (p_vruntime p) - unat m < 2 ^ 41"
    using assms(2,3) le unfolding rq_spread_def word_le_nat_alt
    by (metis less_diff_conv2 add.commute)
  have w: "nat (p_weight p) \<le> 88761" using assms(1,3) by (auto simp: rq_wf_def)
  have "(unat (p_vruntime p) - unat m) * nat (p_weight p) \<le> 2 ^ 41 * 88761"
    by (rule mult_le_mono) (use s w in simp_all)
  then have "unat (p_vruntime p - m) * unat (u64_of_int (p_weight p)) < 2 ^ LENGTH(64)"
    by (simp add: d rq_weight_unat [OF assms(1,3)])
  then show "unat ((p_vruntime p - m) * u64_of_int (p_weight p))
           = (unat (p_vruntime p) - unat m) * nat (p_weight p)"
    by (simp only: unat_mult_lem) (simp add: d rq_weight_unat [OF assms(1,3)])
qed

lemma sum_weight_bound:
  assumes "rq_wf ps"
  shows "(\<Sum>p\<leftarrow>rq ps. nat (p_weight p)) \<le> 64 * 88761"
proof -
  have "(\<Sum>p\<leftarrow>rq ps. nat (p_weight p)) \<le> length (rq ps) * 88761"
    by (rule sum_list_bound) (use assms in \<open>auto simp: rq_wf_def\<close>)
  also have "\<dots> \<le> 64 * 88761"
    using rq_length [of ps] assms by (simp add: rq_wf_def)
  finally show ?thesis .
qed

lemma avg_numer_exact:
  fixes st :: eevdf_rq_stats
  assumes "rq_wf ps" "rq_spread ps"
  defines "m \<equiv> v0 (eevdf_collect_rq_stats ps st)"
  shows "unat (avg_numer (eevdf_collect_rq_stats ps st))
    = (\<Sum>p\<leftarrow>rq ps. (unat (p_vruntime p) - unat m) * nat (p_weight p))"
proof (cases "rq ps = []")
  case True
  then show ?thesis by (simp add: collect_stats)
next
  case False
  then have m: "m = Min (p_vruntime ` set (rq ps))" by (simp add: m_def collect_stats)
  let ?f = "\<lambda>p. (p_vruntime p - m) * u64_of_int (p_weight p)"
  let ?g = "\<lambda>p. (unat (p_vruntime p) - unat m) * nat (p_weight p)"
  have e: "(\<Sum>p\<leftarrow>rq ps. unat (?f p)) = (\<Sum>p\<leftarrow>rq ps. ?g p)"
    by (rule arg_cong [where f = sum_list], rule map_cong [OF refl])
      (simp add: rq_lag_exact(3) [OF assms(1,2), of _ st, folded m_def])
  have "(\<Sum>p\<leftarrow>rq ps. ?g p) \<le> length (rq ps) * (2 ^ 41 * 88761)"
  proof (rule sum_list_bound)
    fix p assume p: "p \<in> set (rq ps)"
    show "?g p \<le> 2 ^ 41 * 88761"
      by (rule mult_le_mono)
        (use rq_lag_exact(2) [OF assms(1,2) p, of st, folded m_def] assms(1) p in \<open>auto simp: rq_wf_def\<close>)
  qed
  also have "\<dots> \<le> 64 * (2 ^ 41 * 88761)"
    using rq_length [of ps] assms(1) by (simp add: rq_wf_def)
  finally have "(\<Sum>p\<leftarrow>rq ps. unat (?f p)) < 2 ^ 64" using e by simp
  from unat_sum_list_exact [OF this] e False m show ?thesis by (simp add: collect_stats)
qed

lemma weighted_average_shift:
  fixes v w :: "'a \<Rightarrow> nat"
  assumes "\<And>x. x \<in> set xs \<Longrightarrow> m \<le> v x" "m \<le> a"
  shows "(a - m) * (\<Sum>x\<leftarrow>xs. w x) \<le> (\<Sum>x\<leftarrow>xs. (v x - m) * w x)
     \<longleftrightarrow> a * (\<Sum>x\<leftarrow>xs. w x) \<le> (\<Sum>x\<leftarrow>xs. v x * w x)"
proof -
  have "(\<Sum>x\<leftarrow>xs. v x * w x) = (\<Sum>x\<leftarrow>xs. (v x - m) * w x) + m * (\<Sum>x\<leftarrow>xs. w x)"
    using assms(1)
  proof (induction xs)
    case (Cons x xs)
    have "m \<le> v x" by (rule Cons.prems) simp
    then obtain d where "v x = m + d" using le_Suc_ex by blast
    with Cons show ?case by (simp add: add_mult_distrib add_mult_distrib2)
  qed simp
  moreover have "a * (\<Sum>x\<leftarrow>xs. w x) = (a - m) * (\<Sum>x\<leftarrow>xs. w x) + m * (\<Sum>x\<leftarrow>xs. w x)"
    using assms(2) by (simp add: add_mult_distrib [symmetric])
  ultimately show ?thesis by simp
qed

lemma sum_weight_pos:
  assumes "rq_wf ps" "rq ps \<noteq> []"
  shows "sum_weight (eevdf_collect_rq_stats ps st) \<noteq> 0"
proof -
  obtain p where p: "p \<in> set (rq ps)" using assms(2) by (meson last_in_set)
  then have "0 < nat (p_weight p)" using assms(1) by (auto simp: rq_wf_def)
  also have "\<dots> \<le> (\<Sum>p\<leftarrow>rq ps. nat (p_weight p))"
    by (rule member_le_sum_list) (use p in auto)
  finally have "0 < unat (sum_weight (eevdf_collect_rq_stats ps st))"
    by (simp only: sum_weight_exact [OF assms(1)])
  then show ?thesis by (metis less_irrefl unat_0)
qed

lemma eligible_iff_average:
  assumes "rq_wf ps" "rq_spread ps" "p \<in> set (rq ps)"
  shows "eevdf_is_eligible p (eevdf_collect_rq_stats ps st) = 1 \<longleftrightarrow>
    unat (p_vruntime p) * (\<Sum>q\<leftarrow>rq ps. nat (p_weight q))
      \<le> (\<Sum>q\<leftarrow>rq ps. unat (p_vruntime q) * nat (p_weight q))"
proof -
  let ?st = "eevdf_collect_rq_stats ps st"
  let ?m = "unat (v0 ?st)" and ?W = "\<Sum>q\<leftarrow>rq ps. nat (p_weight q)"
  have ne: "rq ps \<noteq> []" using assms(3) by auto
  have lag: "unat (p_vruntime p - v0 ?st) = unat (p_vruntime p) - ?m"
      "unat (p_vruntime p) - ?m < 2 ^ 41"
    using rq_lag_exact(1,2) [OF assms] by auto
  have "(unat (p_vruntime p) - ?m) * ?W \<le> 2 ^ 41 * (64 * 88761)"
    by (rule mult_le_mono) (use lag(2) sum_weight_bound [OF assms(1)] in simp_all)
  then have "unat (p_vruntime p - v0 ?st) * unat (sum_weight ?st) < 2 ^ LENGTH(64)"
    by (simp add: lag(1) sum_weight_exact [OF assms(1)])
  then have rhs: "unat ((p_vruntime p - v0 ?st) * sum_weight ?st) = (unat (p_vruntime p) - ?m) * ?W"
    by (simp only: unat_mult_lem) (simp add: lag(1) sum_weight_exact [OF assms(1)])
  have "nr ?st \<noteq> 0" using ne by (simp add: collect_stats)
  moreover have "eevdf_on_rq p" using assms(3) by (simp add: rq_def)
  moreover have "\<not> p_vruntime p < v0 ?st" using rq_v0(1) [OF assms(3)] by (simp add: not_less)
  ultimately have "eevdf_is_eligible p ?st = 1 \<longleftrightarrow> (p_vruntime p - v0 ?st) * sum_weight ?st \<le> avg_numer ?st"
    using sum_weight_pos [OF assms(1) ne] by (simp add: eevdf_is_eligible_def)
  also have "\<dots> \<longleftrightarrow> (unat (p_vruntime p) - ?m) * ?W
      \<le> (\<Sum>q\<leftarrow>rq ps. (unat (p_vruntime q) - ?m) * nat (p_weight q))"
    by (simp only: word_le_nat_alt rhs avg_numer_exact [OF assms(1,2)])
  also have "\<dots> \<longleftrightarrow> unat (p_vruntime p) * ?W \<le> (\<Sum>q\<leftarrow>rq ps. unat (p_vruntime q) * nat (p_weight q))"
    by (rule weighted_average_shift) (use rq_v0(1) assms(3) in \<open>auto simp: word_le_nat_alt\<close>)
  finally show ?thesis .
qed

lemma elig_upd_simps [simp]:
  "p_state (elig_upd st p) = p_state p" "p_vdeadline (elig_upd st p) = p_vdeadline p"
  "p_eligible (elig_upd st p) = (if p_state p = RUNNABLE then eevdf_is_eligible p st else 0)"
  by (simp_all add: elig_upd_def)

lemma scheduler_visit_step:
  assumes "k < length ps" "earliest st (take k ps) best"
  defines "qs \<equiv> map (elig_upd st) (take k ps) @ drop k ps"
  shows "\<exists>best'. scheduler_visit st (qs, best) k
           = (map (elig_upd st) (take (Suc k) ps) @ drop (Suc k) ps, best')
       \<and> earliest st (take (Suc k) ps) best'"
proof -
  have len: "length (map (elig_upd st) (take k ps)) = k" using assms(1) by simp
  have qk: "qs ! k = ps ! k"
    unfolding qs_def using assms(1) len by (simp add: nth_append)
  have tk: "take (Suc k) ps = take k ps @ [ps ! k]"
    using assms(1) by (simp add: take_Suc_conv_app_nth)
  have upd: "qs[k := elig_upd st (ps ! k)] = map (elig_upd st) (take (Suc k) ps) @ drop (Suc k) ps"
    unfolding qs_def using assms(1) len
    by (simp add: list_update_append tk) (metis Cons_nth_drop_Suc list_update_code(2))
  have old: "p_vdeadline (qs[k := x] ! b) = p_vdeadline (ps ! b)" if "b < k" for b x
    using that assms(1) by (simp add: qs_def nth_append)
  have nth: "take (Suc k) ps ! j = ps ! j" "take k ps ! j = ps ! j" if "j < k" for j
    using that by simp_all
  show ?thesis
  proof (cases "candidate st (ps ! k)")
    case False
    have "earliest st (take (Suc k) ps) best"
      using assms(1,2) False unfolding earliest_def
      by (auto simp: less_Suc_eq min_absorb2 nth split: option.splits)
    moreover have "scheduler_visit st (qs, best) k = (qs[k := elig_upd st (ps ! k)], best)"
      using False by (auto simp: scheduler_visit_def qk candidate_def elig_upd_def Let_def)
    ultimately show ?thesis using upd by simp
  next
    case True
    then have run: "p_state (ps ! k) = RUNNABLE" "eevdf_is_eligible (ps ! k) st \<noteq> 0"
      by (simp_all add: candidate_def)
    then have vis: "scheduler_visit st (qs, best) k = (qs[k := elig_upd st (ps ! k)],
        if (case best of None \<Rightarrow> True | Some b \<Rightarrow>
              p_vdeadline (ps ! k) < p_vdeadline (qs[k := elig_upd st (ps ! k)] ! b))
        then Some k else best)"
      by (cases best) (simp_all add: scheduler_visit_def qk elig_upd_def Let_def)
    let ?best' = "if (case best of None \<Rightarrow> True | Some b \<Rightarrow>
              p_vdeadline (ps ! k) < p_vdeadline (ps ! b)) then Some k else best"
    have "b < k" if "best = Some b" for b
      using assms(1,2) that by (simp add: earliest_def)
    then have vis': "scheduler_visit st (qs, best) k = (qs[k := elig_upd st (ps ! k)], ?best')"
      unfolding vis by (auto simp: old split: option.splits)
    have "earliest st (take (Suc k) ps) ?best'"
    proof (cases best)
      case None
      then show ?thesis using assms(1,2) True unfolding earliest_def
        by (auto simp: less_Suc_eq min_absorb2 nth)
    next
      case (Some b)
      then show ?thesis using assms(1,2) True unfolding earliest_def
        by (auto simp: less_Suc_eq min_absorb2 nth intro: less_imp_le less_le_trans)
    qed
    with vis' upd show ?thesis by simp
  qed
qed

lemma scheduler_scan_prefix:
  assumes "k \<le> length ps"
  shows "\<exists>best. foldl (scheduler_visit st) (ps, None) [0..<k]
           = (map (elig_upd st) (take k ps) @ drop k ps, best) \<and> earliest st (take k ps) best"
  using assms
proof (induction k)
  case 0
  then show ?case by (simp add: earliest_def)
next
  case (Suc k)
  then obtain best where "foldl (scheduler_visit st) (ps, None) [0..<k]
      = (map (elig_upd st) (take k ps) @ drop k ps, best)" "earliest st (take k ps) best"
    by auto
  with scheduler_visit_step [of k ps st best] Suc.prems show ?case by simp
qed

lemma scheduler_scan_result:
  "\<exists>best. scheduler_scan st ps = (map (elig_upd st) ps, best) \<and> earliest st ps best"
  using scheduler_scan_prefix [of "length ps" ps st] by (simp add: scheduler_scan_def)

lemma scheduler_result:
  fixes s :: "'a ptable_scheme"
  defines "st \<equiv> eevdf_collect_rq_stats (procs s) stats_zero"
  shows "earliest st (procs s) (curproc (scheduler s))"
    and "procs (scheduler s) = (case curproc (scheduler s) of
          None \<Rightarrow> map (elig_upd st) (procs s)
        | Some b \<Rightarrow> (map (elig_upd st) (procs s))[b := (elig_upd st (procs s ! b))\<lparr>p_state := RUNNING\<rparr>])"
proof -
  obtain best where b: "scheduler_scan st (procs s) = (map (elig_upd st) (procs s), best)"
      "earliest st (procs s) best"
    using scheduler_scan_result by blast
  have "b < length (procs s)" if "best = Some b" for b
    using b(2) that by (simp add: earliest_def)
  then show "earliest st (procs s) (curproc (scheduler s))"
    and "procs (scheduler s) = (case curproc (scheduler s) of
          None \<Rightarrow> map (elig_upd st) (procs s)
        | Some b \<Rightarrow> (map (elig_upd st) (procs s))[b := (elig_upd st (procs s ! b))\<lparr>p_state := RUNNING\<rparr>])"
    using b by (cases best; simp add: scheduler_def Let_def st_def [symmetric])+
qed

lemma rq_nth: "\<lbrakk>i < length ps; eevdf_on_rq (ps ! i)\<rbrakk> \<Longrightarrow> ps ! i \<in> set (rq ps)"
  by (simp add: rq_def)

lemma min_vruntime_eligible:
  assumes "rq_wf ps" "p \<in> set (rq ps)" "p_vruntime p = v0 (eevdf_collect_rq_stats ps st)"
  shows "eevdf_is_eligible p (eevdf_collect_rq_stats ps st) = 1"
proof -
  have ne: "rq ps \<noteq> []" using assms(2) by auto
  then have "nr (eevdf_collect_rq_stats ps st) \<noteq> 0" by (simp add: collect_stats)
  moreover have "eevdf_on_rq p" using assms(2) by (simp add: rq_def)
  ultimately show ?thesis
    using sum_weight_pos [OF assms(1) ne] assms(3) by (simp add: eevdf_is_eligible_def)
qed

lemma eligible_01: "eevdf_is_eligible p st = 0 \<or> eevdf_is_eligible p st = 1"
  by (simp add: eevdf_is_eligible_def)

lemma candidate_fair_share:
  assumes "rq_wf ps" "rq_spread ps" "j < length ps"
  shows "candidate (eevdf_collect_rq_stats ps st) (ps ! j)
     \<longleftrightarrow> p_state (ps ! j) = RUNNABLE \<and> fair_share ps (ps ! j)"
proof (cases "p_state (ps ! j) = RUNNABLE")
  case True
  then have "ps ! j \<in> set (rq ps)" using assms(3) by (intro rq_nth) (simp_all add: eevdf_on_rq_def)
  from eligible_iff_average [OF assms(1,2) this, of st] True show ?thesis
    unfolding candidate_def fair_share_def using eligible_01 [of "ps ! j"] by force
next
  case False
  then show ?thesis by (simp add: candidate_def)
qed

lemma length_upd_proc [simp]: "length (procs (upd_proc i f s)) = length (procs s)"
  by (simp add: upd_proc_def)

lemma nth_upd_proc [simp]:
  "j < length (procs s) \<Longrightarrow> procs (upd_proc i f s) ! j = (if i = j then f (procs s ! j) else procs s ! j)"
  by (simp add: upd_proc_def nth_list_update_if)

lemma upd_proc_simps [simp]:
  "curproc (upd_proc i f s) = curproc s" "nextpid (upd_proc i f s) = nextpid s"
  "initproc (upd_proc i f s) = initproc s" "ticks (upd_proc i f s) = ticks s"
  by (simp_all add: upd_proc_def)

lemma upd_proc_upd_proc [simp]: "upd_proc i f (upd_proc i g s) = upd_proc i (f \<circ> g) s"
proof (cases "i < length (procs s)")
  case True
  then show ?thesis by (simp add: upd_proc_def)
next
  case False
  then show ?thesis by (simp add: upd_proc_def list_update_beyond)
qed

lemma timer_account_cases:
  assumes "i < length (procs s)" "curproc s = Some i"
  shows "timer_account i s =
    (if p_remain_slice (eevdf_tick (procs s ! i)) \<le> 0
     then (upd_proc i (\<lambda>p. (eevdf_refresh_deadline ((eevdf_tick p)\<lparr>p_remain_slice := BASE_SLICE\<rparr>))
             \<lparr>p_state := RUNNABLE\<rparr>) s)\<lparr>curproc := None\<rparr>
     else upd_proc i eevdf_tick s)"
  using assms by (simp add: timer_account_def yield_def Let_def comp_def)

lemma eevdf_tick_funpow:
  assumes "int n \<le> p_remain_slice p"
  shows "(eevdf_tick ^^ n) p = p\<lparr>p_runtime := p_runtime p + of_nat n * MILLI_TICK,
     p_vruntime := p_vruntime p + of_nat n * udiv64 (MILLI_TICK * NICE_20_WEIGHT) (u64_of_int (p_weight p)),
     p_remain_slice := p_remain_slice p - int n\<rparr>"
  using assms
proof (induction n)
  case 0
  then show ?case by simp
next
  case (Suc n)
  then show ?case by (simp add: eevdf_tick_def algebra_simps)
qed

lemma upd_proc_funpow:
  "i < length (procs s) \<Longrightarrow> upd_proc i ((f ^^ n)) (upd_proc i f s) = upd_proc i (f ^^ Suc n) s"
  by (simp add: comp_def funpow_swap1)

lemma usertrap_timer_at: "curproc s = Some i \<Longrightarrow> usertrap_timer s = timer_account i s"
  by (simp add: usertrap_timer_def)

lemma usertrap_timer_running:
  assumes "i < length (procs s)" "curproc s = Some i" "int n < p_remain_slice (procs s ! i)"
  shows "(usertrap_timer ^^ n) s = upd_proc i (eevdf_tick ^^ n) s"
  using assms(3)
proof (induction n)
  case 0
  then show ?case by (simp add: upd_proc_def)
next
  case (Suc n)
  then have IH: "(usertrap_timer ^^ n) s = upd_proc i (eevdf_tick ^^ n) s" by simp
  have "\<not> p_remain_slice (eevdf_tick ((eevdf_tick ^^ n) (procs s ! i))) \<le> 0"
    using Suc.prems by (simp add: eevdf_tick_funpow eevdf_tick_def)
  then show ?case
    using assms(1,2) by (simp add: IH usertrap_timer_at timer_account_cases comp_def)
qed

lemma length_wakeup [simp]: "length (procs (wakeup ch s)) = length (procs s)"
  by (simp add: wakeup_def)

lemma nth_wakeup:
  "i < length (procs s) \<Longrightarrow> procs (wakeup ch s) ! i =
     (if Some i \<noteq> curproc s \<and> p_state (procs s ! i) = SLEEPING \<and> p_chan (procs s ! i) = Some ch
      then wake_proc (procs s ! i) else procs s ! i)"
  by (simp add: wakeup_def Let_def)

lemma ksetnice_hit:
  assumes "0 \<le> v" "v \<le> 39"
    and "first_index (\<lambda>p. p_state p \<noteq> UNUSED \<and> p_pid p = pid) (procs s) = Some i"
  shows "ksetnice pid v s = Ret 0 (upd_proc i (\<lambda>p.
          eevdf_refresh_deadline (p\<lparr>p_nice := v, p_weight := nice_weight v\<rparr>)) s)"
  using assms by (simp add: ksetnice_def)

lemma first_index_cong_upd:
  assumes "first_index P xs = Some i" "P x"
  shows "first_index P (xs[i := x]) = Some i"
  using assms by (auto simp: first_index_Some nth_list_update_if)

section \<open>The example table, evaluated\<close>

lemmas sched_eval = scheduler_def scheduler_scan_def scheduler_visit_def eevdf_on_rq_def
  eevdf_collect_rq_stats_def eevdf_calc_rq_stats_def eevdf_find_min_vruntime_def stats_zero_def
  eevdf_is_eligible_def u64_of_int_def upt_rec

lemmas demo_defs = demo_table_def demo_proc_def zero_proc_def

lemma demo_table_rq: "rq_wf (procs demo_table)" "rq_spread (procs demo_table)"
  "length (procs demo_table) = 4"
  by (simp_all add: rq_wf_def rq_spread_def rq_def eevdf_on_rq_def demo_defs)

lemma demo_table_scheduled: "curproc (scheduler demo_table) = Some 2"
  "length (procs (scheduler demo_table)) = 4" "p_remain_slice (procs (scheduler demo_table) ! 2) = 5"
  by (simp_all add: sched_eval demo_defs)

section \<open>Properties\<close>

text \<open>
  C1: One pass of \<^verbatim>\<open>scheduler()\<close> implements EEVDF. On a process table whose weights come from the nice
  table and whose virtual run times lie within \<open>2\<^sup>4\<^sup>1\<close> of each other, no 64-bit sum of the run-queue
  statistics wraps, and the pass picks the RUNNABLE process with the earliest virtual deadline among
  those whose virtual run time is at most the exact weighted average of the run queue, the lowest
  table index on a tie; it picks none only if no RUNNABLE process is at or below that average.
\<close>

theorem scheduler_picks_earliest_deadline:
  fixes s :: "'a ptable_scheme"
  assumes "rq_wf (procs s)" "rq_spread (procs s)"
  shows "case curproc (scheduler s) of
     None \<Rightarrow> \<forall>p\<in>set (procs s). \<not> (p_state p = RUNNABLE \<and> fair_share (procs s) p)
   | Some b \<Rightarrow> b < length (procs s) \<and> p_state (procs s ! b) = RUNNABLE \<and> fair_share (procs s) (procs s ! b) \<and>
       (\<forall>j<length (procs s). p_state (procs s ! j) = RUNNABLE \<and> fair_share (procs s) (procs s ! j) \<longrightarrow>
          p_vdeadline (procs s ! b) \<le> p_vdeadline (procs s ! j) \<and>
          (j < b \<longrightarrow> p_vdeadline (procs s ! b) < p_vdeadline (procs s ! j)))"
  using scheduler_result(1) [of s] candidate_fair_share [OF assms(1,2), of _ stats_zero]
  unfolding earliest_def by (auto simp: in_set_conv_nth split: option.splits)

theorem scheduler_picks_earliest_deadline_witness:
  "rq_wf (procs demo_table) \<and> rq_spread (procs demo_table) \<and> curproc (scheduler demo_table) = Some 2 \<and>
   fair_share (procs demo_table) (procs demo_table ! 2) \<and>
   p_vdeadline (procs demo_table ! 2) \<le> p_vdeadline (procs demo_table ! 3)"
proof -
  have "p_state (procs demo_table ! 3) = RUNNABLE \<and> fair_share (procs demo_table) (procs demo_table ! 3)"
    by (simp add: fair_share_def rq_def eevdf_on_rq_def demo_defs)
  with scheduler_picks_earliest_deadline [OF demo_table_rq(1,2)] demo_table_rq demo_table_scheduled
  show ?thesis by simp
qed

text \<open>
  C2: The scheduler never idles while there is work: with weights from the nice table, when no process
  is RUNNING and some process is RUNNABLE, the pass dispatches a process (whatever the virtual run
  times are, so also after a counter wraps).
\<close>

theorem scheduler_work_conserving:
  fixes s :: "'a ptable_scheme"
  assumes "rq_wf (procs s)" "\<forall>p\<in>set (procs s). p_state p \<noteq> RUNNING"
    and "\<exists>p\<in>set (procs s). p_state p = RUNNABLE"
  shows "\<exists>b<length (procs s). curproc (scheduler s) = Some b \<and> p_state (procs (scheduler s) ! b) = RUNNING"
proof -
  let ?ps = "procs s" and ?st = "eevdf_collect_rq_stats (procs s) stats_zero"
  obtain p where "p \<in> set (rq ?ps)" using assms(3) by (auto simp: rq_def eevdf_on_rq_def)
  then obtain q where q: "q \<in> set (rq ?ps)" "v0 ?st = p_vruntime q"
    using rq_v0(2) by blast
  then have "p_state q = RUNNABLE" using assms(2) by (auto simp: rq_def eevdf_on_rq_def)
  moreover have "eevdf_is_eligible q ?st = 1"
    by (rule min_vruntime_eligible [OF assms(1) q(1) q(2) [symmetric]])
  ultimately have "candidate ?st q" by (simp add: candidate_def)
  moreover have "q \<in> set ?ps" using q(1) by (simp add: rq_def)
  ultimately obtain b where b: "curproc (scheduler s) = Some b" "b < length ?ps"
    using scheduler_result(1) [of s] unfolding earliest_def
    by (auto simp: in_set_conv_nth split: option.splits)
  then show ?thesis using scheduler_result(2) [of s] by simp
qed

theorem scheduler_work_conserving_witness:
  "\<exists>b<length (procs demo_table). curproc (scheduler demo_table) = Some b \<and>
     p_state (procs (scheduler demo_table) ! b) = RUNNING"
  by (rule scheduler_work_conserving) (simp_all add: demo_table_rq, simp_all add: demo_defs)

text \<open>
  C3: The time slice. A process that runs with \<open>n + 1\<close> ticks left in its slice keeps the CPU for the
  next \<open>n\<close> timer interrupts; the last one puts it back on the run queue with a fresh slice, its run
  time advanced by \<open>n + 1\<close> ticks, its virtual run time by \<open>n + 1\<close> ticks scaled by its weight, and its
  deadline one slice after its new virtual run time; nothing else of the state changes.
\<close>

theorem timer_slice_cycle:
  fixes s :: "'a ptable_scheme"
  assumes "i < length (procs s)" "curproc s = Some i"
    and "p_remain_slice (procs s ! i) = int n + 1"
  shows "(\<forall>k\<le>n. curproc ((usertrap_timer ^^ k) s) = Some i) \<and>
    (let p = procs s ! i;
         v = p_vruntime p + of_nat (Suc n) * udiv64 1024000 (u64_of_int (p_weight p))
     in (usertrap_timer ^^ Suc n) s =
      s\<lparr>curproc := None, procs := (procs s)[i := p\<lparr>p_state := RUNNABLE,
           p_runtime := p_runtime p + of_nat (Suc n) * 1000, p_vruntime := v,
           p_vdeadline := v + eevdf_slice_delta (p_weight p), p_remain_slice := BASE_SLICE\<rparr>]\<rparr>)"
proof -
  define p where "p = procs s ! i"
  define v where "v = p_vruntime p + of_nat (Suc n) * udiv64 1024000 (u64_of_int (p_weight p))"
  let ?f = "\<lambda>p. (eevdf_refresh_deadline ((eevdf_tick ((eevdf_tick ^^ n) p))
      \<lparr>p_remain_slice := BASE_SLICE\<rparr>))\<lparr>p_state := RUNNABLE\<rparr>"
  have run: "(usertrap_timer ^^ k) s = upd_proc i (eevdf_tick ^^ k) s" if "k \<le> n" for k
    by (rule usertrap_timer_running) (use assms that in auto)
  have "p_remain_slice (eevdf_tick ((eevdf_tick ^^ n) p)) \<le> 0"
    using assms(3) by (simp add: p_def eevdf_tick_funpow eevdf_tick_def)
  then have t: "(usertrap_timer ^^ Suc n) s = (upd_proc i ?f s)\<lparr>curproc := None\<rparr>"
    using run [of n] assms(1,2)
    by (simp add: usertrap_timer_at timer_account_cases comp_def p_def)
  have "?f p = p\<lparr>p_state := RUNNABLE,
           p_runtime := p_runtime p + of_nat (Suc n) * 1000, p_vruntime := v,
           p_vdeadline := v + eevdf_slice_delta (p_weight p), p_remain_slice := BASE_SLICE\<rparr>"
    using assms(3) by (intro proc.equality)
      (simp_all add: p_def v_def eevdf_tick_funpow eevdf_tick_def eevdf_refresh_deadline_def algebra_simps)
  then show ?thesis using run assms(2) unfolding t by (simp add: upd_proc_def p_def v_def Let_def)
qed

theorem timer_slice_cycle_witness:
  "let s = scheduler demo_table in curproc s = Some 2 \<and> p_remain_slice (procs s ! 2) = int 4 + 1 \<and>
     curproc ((usertrap_timer ^^ 4) s) = Some 2 \<and> curproc ((usertrap_timer ^^ Suc 4) s) = None"
  using timer_slice_cycle [of 2 "scheduler demo_table" 4] demo_table_scheduled
  by (simp add: Let_def del: funpow.simps)

text \<open>
  C4: \<^verbatim>\<open>ksetnice\<close> and \<^verbatim>\<open>kgetnice\<close> agree. \<^verbatim>\<open>ksetnice\<close> returns 0 exactly when the value is in range and a live
  process has the pid; then \<^verbatim>\<open>kgetnice\<close> reads the value back, the weight is the table's and the deadline
  is one slice at the new weight, and no other process changed. Otherwise it returns -1 and changes
  nothing.
\<close>

theorem setnice_getnice:
  assumes "ksetnice pid v s = Ret r t"
  shows "(r = 0 \<and> 0 \<le> v \<and> v \<le> 39 \<and> kgetnice pid t = v \<and>
          (\<exists>i<length (procs s). p_pid (procs s ! i) = pid \<and> p_state (procs s ! i) \<noteq> UNUSED \<and>
             t = upd_proc i (\<lambda>p. p\<lparr>p_nice := v, p_weight := nice_weight v,
                   p_vdeadline := p_vruntime p + eevdf_slice_delta (nice_weight v)\<rparr>) s))
       \<or> (r = - 1 \<and> t = s \<and>
          (v < 0 \<or> 39 < v \<or> (\<forall>p\<in>set (procs s). p_state p \<noteq> UNUSED \<longrightarrow> p_pid p \<noteq> pid)))"
proof (cases "v < 0 \<or> 39 < v")
  case True
  then show ?thesis using assms by (auto simp: ksetnice_def)
next
  case range: False
  let ?P = "\<lambda>p. p_state p \<noteq> UNUSED \<and> p_pid p = pid"
  let ?f = "\<lambda>p. p\<lparr>p_nice := v, p_weight := nice_weight v,
      p_vdeadline := p_vruntime p + eevdf_slice_delta (nice_weight v)\<rparr>"
  show ?thesis
  proof (cases "first_index ?P (procs s)")
    case None
    then have "\<forall>p\<in>set (procs s). \<not> ?P p" by simp
    moreover have "r = - 1" "t = s" using assms range by (simp_all add: ksetnice_def None)
    ultimately show ?thesis by blast
  next
    case (Some i)
    have f: "(\<lambda>p. eevdf_refresh_deadline (p\<lparr>p_nice := v, p_weight := nice_weight v\<rparr>)) = ?f"
      by (simp add: eevdf_refresh_deadline_def fun_eq_iff)
    have t: "t = upd_proc i ?f s" "r = 0"
      using assms range Some by (simp_all add: ksetnice_def f)
    have i: "i < length (procs s)" "?P (procs s ! i)"
      using first_index_SomeD [OF Some] by auto
    have "first_index ?P (procs t) = Some i"
      unfolding t upd_proc_def by (simp add: first_index_cong_upd [OF Some] i(2))
    then have "kgetnice pid t = v" using i(1) by (simp add: kgetnice_def t)
    then show ?thesis using t i range by auto
  qed
qed

theorem setnice_getnice_witness:
  "\<exists>t. ksetnice 7 39 demo_table = Ret 0 t \<and> kgetnice 7 t = 39"
proof -
  obtain r t where r: "ksetnice 7 39 demo_table = Ret r t" "r = 0"
    by (simp add: ksetnice_def demo_table_def demo_proc_def zero_proc_def)
  from setnice_getnice [OF r(1)] r show ?thesis by auto
qed

end
