(* ===== verification/Memory.thy ===== *)
theory Memory
  imports Riscv
begin

text \<open>
  Byte-addressed memory and \<^verbatim>\<open>kernel/string.c\<close>. Memory is a function from 64-bit addresses to
  bytes; \<open>ld64\<close> and \<open>sd64\<close> are the little-endian double-word accesses through which the kernel
  reads and writes pointers and page-table entries. \<^verbatim>\<open>memset\<close> and \<^verbatim>\<open>memmove\<close> work on memory, the string
  functions on arrays of characters: a \<^verbatim>\<open>char *\<close> is the rest of the array it points into, and reading
  past the end of the array gives \<^const>\<open>None\<close>.
\<close>

unbundle bit_operations_syntax

type_synonym memory = "u64 \<Rightarrow> u8"

section \<open>Double words\<close>

definition byte_of :: "u64 \<Rightarrow> nat \<Rightarrow> u8" where
  "byte_of v i = ucast (drop_bit (8 * i) v)"

definition ld64 :: "memory \<Rightarrow> u64 \<Rightarrow> u64" where
  "ld64 m a = ucast (m a) OR push_bit 8 (ucast (m (a + 1))) OR push_bit 16 (ucast (m (a + 2))) OR
     push_bit 24 (ucast (m (a + 3))) OR push_bit 32 (ucast (m (a + 4))) OR
     push_bit 40 (ucast (m (a + 5))) OR push_bit 48 (ucast (m (a + 6))) OR
     push_bit 56 (ucast (m (a + 7)))"

definition sd64 :: "memory \<Rightarrow> u64 \<Rightarrow> u64 \<Rightarrow> memory" where
  "sd64 m a v = (\<lambda>x. if unat (x - a) < 8 then byte_of v (unat (x - a)) else m x)"

section \<open>memset and memmove\<close>

primrec memset_loop :: "memory \<Rightarrow> u64 \<Rightarrow> u8 \<Rightarrow> nat \<Rightarrow> memory" where
  "memset_loop m dst c 0 = m"
| "memset_loop m dst c (Suc n) = (memset_loop m dst c n)(dst + of_nat n := c)"

definition memset :: "u64 \<Rightarrow> int \<Rightarrow> nat \<Rightarrow> memory \<Rightarrow> memory" where
  "memset dst c n m = memset_loop m dst (word_of_int c) n"

text \<open>The two copying loops of \<^verbatim>\<open>memmove\<close>, from the end and from the start.\<close>

primrec copy_down :: "memory \<Rightarrow> u64 \<Rightarrow> u64 \<Rightarrow> nat \<Rightarrow> memory" where
  "copy_down m d s 0 = m"
| "copy_down m d s (Suc n) = (let d = d - 1; s = s - 1 in copy_down (m(d := m s)) d s n)"

primrec copy_up :: "memory \<Rightarrow> u64 \<Rightarrow> u64 \<Rightarrow> nat \<Rightarrow> memory" where
  "copy_up m d s 0 = m"
| "copy_up m d s (Suc n) = copy_up (m(d := m s)) (d + 1) (s + 1) n"

definition memmove :: "u64 \<Rightarrow> u64 \<Rightarrow> nat \<Rightarrow> memory \<Rightarrow> memory" where
  "memmove dst src n m =
     (if n = 0 then m
      else if src < dst \<and> src + of_nat n > dst
      then copy_down m (dst + of_nat n) (src + of_nat n) n
      else copy_up m dst src n)"

text \<open>The bytes at an address, and a block of bytes stored there.\<close>

definition rdbytes :: "memory \<Rightarrow> u64 \<Rightarrow> nat \<Rightarrow> u8 list" where
  "rdbytes m a n = map (\<lambda>i. m (a + of_nat i)) [0..<n]"

definition wrbytes :: "memory \<Rightarrow> u64 \<Rightarrow> u8 list \<Rightarrow> memory" where
  "wrbytes m a bs = (\<lambda>x. if unat (x - a) < length bs then bs ! unat (x - a) else m x)"

section \<open>String functions\<close>

fun memcmp :: "u8 list \<Rightarrow> u8 list \<Rightarrow> nat \<Rightarrow> int option" where
  "memcmp s1 s2 0 = Some 0"
| "memcmp (a # s1) (b # s2) (Suc n) = (if a \<noteq> b then Some (uint a - uint b) else memcmp s1 s2 n)"
| "memcmp _ _ (Suc n) = None"

fun strncmp :: "u8 list \<Rightarrow> u8 list \<Rightarrow> nat \<Rightarrow> int option" where
  "strncmp p q 0 = Some 0"
| "strncmp (a # p) (b # q) (Suc n) =
     (if a \<noteq> 0 \<and> a = b then strncmp p q n else Some (uint a - uint b))"
| "strncmp _ _ (Suc n) = None"

text \<open>
  \<^verbatim>\<open>strncpy\<close> and \<^verbatim>\<open>safestrcpy\<close> give the bytes they write, which replace the front of the destination.
\<close>

fun strncpy_bytes :: "u8 list \<Rightarrow> nat \<Rightarrow> u8 list option" where
  "strncpy_bytes t 0 = Some []"
| "strncpy_bytes (c # t) (Suc n) =
     (if c \<noteq> 0 then map_option ((#) c) (strncpy_bytes t n) else Some (0 # replicate n 0))"
| "strncpy_bytes [] (Suc n) = None"

definition strncpy :: "u8 list \<Rightarrow> u8 list \<Rightarrow> nat \<Rightarrow> u8 list option" where
  "strncpy s t n = (case strncpy_bytes t n of
     None \<Rightarrow> None
   | Some bs \<Rightarrow> if length bs \<le> length s then Some (bs @ drop (length bs) s) else None)"

fun safestrcpy_bytes :: "u8 list \<Rightarrow> nat \<Rightarrow> u8 list option" where
  "safestrcpy_bytes t 0 = Some []"
| "safestrcpy_bytes t (Suc 0) = Some [0]"
| "safestrcpy_bytes (c # t) (Suc (Suc n)) =
     (if c \<noteq> 0 then map_option ((#) c) (safestrcpy_bytes t (Suc n)) else Some [0, 0])"
| "safestrcpy_bytes [] (Suc (Suc n)) = None"

definition safestrcpy :: "u8 list \<Rightarrow> u8 list \<Rightarrow> nat \<Rightarrow> u8 list option" where
  "safestrcpy s t n = (case safestrcpy_bytes t n of
     None \<Rightarrow> None
   | Some bs \<Rightarrow> if length bs \<le> length s then Some (bs @ drop (length bs) s) else None)"

primrec strlen :: "u8 list \<Rightarrow> nat option" where
  "strlen [] = None"
| "strlen (c # s) = (if c \<noteq> 0 then map_option Suc (strlen s) else Some 0)"

text \<open>The string an array holds: the characters before the first NUL.\<close>

definition cstr :: "u8 list \<Rightarrow> u8 list" where
  "cstr s = takeWhile (\<lambda>c. c \<noteq> 0) s"

section \<open>Lemmas on addresses and double words\<close>

lemma unat_offset:
  fixes x d :: u64
  assumes "unat d + n \<le> 2 ^ 64"
  shows "unat (x - d) < n \<longleftrightarrow> unat d \<le> unat x \<and> unat x < unat d + n"
  using assms unat_lt64 [of x] unat_lt64 [of d]
  by (auto simp: unat_sub_if_size word_size)

lemma unat_offset_eq: "unat d \<le> unat x \<Longrightarrow> unat (x - d) = unat x - unat d" for x d :: u64
  by (simp add: unat_sub word_le_nat_alt)

lemma unat_plus_less: "unat a + unat b < 2 ^ 64 \<Longrightarrow> unat (a + b) = unat a + unat b" for a b :: u64
  by (simp add: unat_word_ariths)

lemma unat_plus_nat: "unat a + n < 2 ^ 64 \<Longrightarrow> unat (a + of_nat n) = unat a + n" for a :: u64
  by (simp add: unat_word_ariths unat_of_nat)

lemma unat_less_64 [simp]: "unat x < 18446744073709551616" for x :: u64
  using unat_lt64 [of x] by simp

lemma offset_eq_iff:
  fixes x d :: u64
  assumes "n < 2 ^ 64"
  shows "x = d + of_nat n \<longleftrightarrow> unat (x - d) = n"
proof -
  have "x = d + of_nat n \<longleftrightarrow> x - d = of_nat n" by (auto simp: algebra_simps)
  also have "\<dots> \<longleftrightarrow> unat (x - d) = n" using assms by (simp add: word_unat_eq_iff unat_of_nat)
  finally show ?thesis .
qed

lemma unat_minus_1_64: "unat (- 1 :: u64) = 18446744073709551615"
  by (simp add: unsigned_minus_1_eq_mask mask_eq_exp_minus_1)

lemma byte_join:
  "ucast (byte_of v 0) OR push_bit 8 (ucast (byte_of v 1)) OR push_bit 16 (ucast (byte_of v 2)) OR
     push_bit 24 (ucast (byte_of v 3)) OR push_bit 32 (ucast (byte_of v 4)) OR
     push_bit 40 (ucast (byte_of v 5)) OR push_bit 48 (ucast (byte_of v 6)) OR
     push_bit 56 (ucast (byte_of v 7)) = v" for v :: u64
proof (rule bit_word_eqI)
  fix n assume "n < LENGTH(64)"
  then have n: "n < 64" by simp
  consider "n < 8" | "8 \<le> n \<and> n < 16" | "16 \<le> n \<and> n < 24" | "24 \<le> n \<and> n < 32" | "32 \<le> n \<and> n < 40"
    | "40 \<le> n \<and> n < 48" | "48 \<le> n \<and> n < 56" | "56 \<le> n" by linarith
  then show "bit ((ucast (byte_of v 0) :: u64) OR push_bit 8 (ucast (byte_of v 1)) OR push_bit 16 (ucast (byte_of v 2)) OR
     push_bit 24 (ucast (byte_of v 3)) OR push_bit 32 (ucast (byte_of v 4)) OR
     push_bit 40 (ucast (byte_of v 5)) OR push_bit 48 (ucast (byte_of v 6)) OR
     push_bit 56 (ucast (byte_of v 7))) n = bit v n"
    using n by cases (simp_all add: byte_of_def bit_simps less_diff_conv2)
qed

lemma ld64_sd64_same [simp]: "ld64 (sd64 m a v) a = v"
  using byte_join [of v] by (simp add: ld64_def sd64_def)

lemma ld64_cong:
  assumes "\<And>i. i < 8 \<Longrightarrow> m (a + of_nat i) = m' (a + of_nat i)"
  shows "ld64 m a = ld64 m' a"
  using assms [of 0] assms [of 1] assms [of 2] assms [of 3] assms [of 4] assms [of 5] assms [of 6] assms [of 7]
  by (simp add: ld64_def)

section \<open>Lemmas on memset and memmove\<close>

lemma memset_loop_apply:
  "n \<le> 2 ^ 64 \<Longrightarrow> memset_loop m dst c n x = (if unat (x - dst) < n then c else m x)"
proof (induction n)
  case (Suc n)
  have "x = dst + of_nat n \<longleftrightarrow> unat (x - dst) = n"
    by (rule offset_eq_iff) (use Suc.prems in simp)
  with Suc show ?case by (auto simp: less_Suc_eq)
qed simp

lemma memset_apply:
  "n \<le> 2 ^ 64 \<Longrightarrow> memset dst c n m x = (if unat (x - dst) < n then word_of_int c else m x)"
  by (simp add: memset_def memset_loop_apply)

lemma copy_up_apply:
  assumes "unat d + n \<le> 2 ^ 64" "unat s + n \<le> 2 ^ 64" "unat d \<le> unat s \<or> unat s + n \<le> unat d"
  shows "copy_up m d s n x = (if unat (x - d) < n then m (s + (x - d)) else m x)"
  using assms
proof (induction n arbitrary: m d s)
  case (Suc n)
  show ?case
  proof (cases "n = 0")
    case True
    then show ?thesis by (auto simp: unat_eq_zero)
  next
    case False
    with Suc.prems have d: "unat (d + 1) = unat d + 1" "unat (s + 1) = unat s + 1"
      by (simp_all add: unat_word_ariths)
    have "copy_up (m(d := m s)) (d + 1) (s + 1) n x =
      (if unat (x - (d + 1)) < n then (m(d := m s)) (s + 1 + (x - (d + 1))) else (m(d := m s)) x)"
      by (rule Suc.IH) (use Suc.prems d in auto)
    also have "\<dots> = (if unat (x - d) < Suc n then m (s + (x - d)) else m x)"
    proof (cases "x = d")
      case True
      then show ?thesis using False Suc.prems by (simp add: unat_minus_1_64)
    next
      case ne: False
      have iff: "unat (x - (d + 1)) < n \<longleftrightarrow> unat (x - d) < Suc n"
        using Suc.prems d ne by (auto simp: unat_offset word_unat_eq_iff)
      have "s + (x - d) \<noteq> d" if "unat (x - d) < Suc n"
      proof -
        from that Suc.prems have x: "unat d \<le> unat x" "unat x < unat d + Suc n"
          by (auto simp: unat_offset)
        then have "unat (x - d) = unat x - unat d" by (simp add: unat_offset_eq)
        then have "unat (s + (x - d)) = unat s + (unat x - unat d)"
          using x Suc.prems by (simp add: unat_plus_less)
        then show ?thesis using Suc.prems x ne by (auto simp: word_unat_eq_iff)
      qed
      then show ?thesis using iff ne by (auto simp: algebra_simps)
    qed
    finally show ?thesis by simp
  qed
qed simp

lemma copy_down_apply:
  assumes "unat d + n \<le> 2 ^ 64" "unat s + n \<le> 2 ^ 64" "unat s \<le> unat d"
  shows "copy_down m (d + of_nat n) (s + of_nat n) n x = (if unat (x - d) < n then m (s + (x - d)) else m x)"
  using assms
proof (induction n arbitrary: m)
  case (Suc n)
  let ?d = "d + of_nat n" and ?s = "s + of_nat n"
  have d: "unat ?d = unat d + n" "unat ?s = unat s + n"
    using Suc.prems by (simp_all add: unat_plus_nat)
  have "copy_down m (d + of_nat (Suc n)) (s + of_nat (Suc n)) (Suc n) x =
      copy_down (m(?d := m ?s)) ?d ?s n x"
    by (simp add: algebra_simps Let_def)
  also have "\<dots> = (if unat (x - d) < n then (m(?d := m ?s)) (s + (x - d)) else (m(?d := m ?s)) x)"
    by (rule Suc.IH) (use Suc.prems in auto)
  also have "\<dots> = (if unat (x - d) < Suc n then m (s + (x - d)) else m x)"
  proof -
    have "x = ?d \<longleftrightarrow> unat (x - d) = n"
      by (rule offset_eq_iff) (use Suc.prems in simp)
    moreover have "s + (x - d) \<noteq> ?d" if "unat (x - d) < n"
    proof -
      from that Suc.prems have x: "unat d \<le> unat x" "unat x < unat d + n"
        by (auto simp: unat_offset)
      then have "unat (x - d) = unat x - unat d" by (simp add: unat_offset_eq)
      then have "unat (s + (x - d)) = unat s + (unat x - unat d)"
        using x Suc.prems by (simp add: unat_plus_less)
      then show ?thesis using Suc.prems x d by (auto simp: word_unat_eq_iff)
    qed
    ultimately show ?thesis by (auto simp: less_Suc_eq algebra_simps)
  qed
  finally show ?case .
qed simp

lemma memmove_apply:
  assumes "unat dst + n \<le> 2 ^ 64" "unat src + n \<le> 2 ^ 64"
  shows "memmove dst src n m x = (if unat (x - dst) < n then m (src + (x - dst)) else m x)"
proof (cases "src < dst \<and> src + of_nat n > dst")
  case True
  then show ?thesis using assms copy_down_apply [of dst n src m x]
    by (auto simp: memmove_def word_less_nat_alt)
next
  case False
  have "unat dst \<le> unat src \<or> unat src + n \<le> unat dst" if "n \<noteq> 0"
  proof (cases "unat src + n < 2 ^ 64")
    case True
    then show ?thesis using False by (auto simp: word_less_nat_alt unat_plus_nat)
  next
    case wrap: False
    then have "unat src + n = 2 ^ 64" using assms by simp
    then show ?thesis using assms that by simp
  qed
  then show ?thesis using assms False copy_up_apply [of dst n src m x]
    by (auto simp: memmove_def)
qed

lemma length_rdbytes [simp]: "length (rdbytes m a n) = n"
  by (simp add: rdbytes_def)

lemma nth_rdbytes [simp]: "i < n \<Longrightarrow> rdbytes m a n ! i = m (a + of_nat i)"
  by (simp add: rdbytes_def)

lemma unat_offset_of_nat [simp]: "i < 2 ^ 64 \<Longrightarrow> unat (a + of_nat i - a) = i" for a :: u64
  by (simp add: unat_of_nat)

lemma rdbytes_wrbytes [simp]: "length bs \<le> 2 ^ 64 \<Longrightarrow> rdbytes (wrbytes m a bs) a (length bs) = bs"
  by (rule nth_equalityI) (simp_all add: wrbytes_def unat_of_nat)

lemma rdbytes_memset: "n \<le> 2 ^ 64 \<Longrightarrow> rdbytes (memset a c n m) a n = replicate n (word_of_int c)"
  by (rule nth_equalityI) (simp_all add: memset_apply unat_of_nat)

section \<open>Lemmas on strings\<close>

lemma cstr_simps [simp]: "cstr [] = []" "cstr (c # s) = (if c = 0 then [] else c # cstr s)"
  by (simp_all add: cstr_def)

lemma strncmp_total: "\<lbrakk>n \<le> length p; n \<le> length q\<rbrakk> \<Longrightarrow> \<exists>r. strncmp p q n = Some r"
  by (induction p q n rule: strncmp.induct) auto

lemma strncmp_zero_iff:
  "\<lbrakk>n \<le> length p; n \<le> length q\<rbrakk> \<Longrightarrow> strncmp p q n = Some 0 \<longleftrightarrow> cstr (take n p) = cstr (take n q)"
  by (induction p q n rule: strncmp.induct) (auto simp: word_uint_eq_iff)

lemma strncpy_bytes_eq:
  "n \<le> length t \<Longrightarrow> strncpy_bytes t n = Some (cstr (take n t) @ replicate (n - length (cstr (take n t))) 0)"
  by (induction t n rule: strncpy_bytes.induct) auto

lemma strlen_eq: "0 \<in> set s \<Longrightarrow> strlen s = Some (length (cstr s))"
  by (induction s) auto

lemma safestrcpy_bytes_eq:
  "\<lbrakk>0 < n; 0 \<in> set t\<rbrakk> \<Longrightarrow> \<exists>pad. safestrcpy_bytes t n = Some (take (n - 1) (cstr t) @ 0 # pad)"
proof (induction t n rule: safestrcpy_bytes.induct)
  case (3 c t n)
  then show ?case by (cases "c = 0") auto
qed auto

lemma safestrcpy_bytes_length:
  "safestrcpy_bytes t n = Some bs \<Longrightarrow> length bs \<le> n"
  by (induction t n arbitrary: bs rule: safestrcpy_bytes.induct) (auto split: if_splits)

section \<open>Properties\<close>

text \<open>
  C5: \<^verbatim>\<open>memmove\<close> copies correctly whether or not the two ranges overlap: afterwards the destination
  holds what the source held before, and no other byte changed. (The ranges do not run over the end
  of the address space.)
\<close>

theorem memmove_correct:
  assumes "unat dst + n \<le> 2 ^ 64" "unat src + n \<le> 2 ^ 64"
  shows "rdbytes (memmove dst src n m) dst n = rdbytes m src n \<and>
    (\<forall>x. \<not> (unat dst \<le> unat x \<and> unat x < unat dst + n) \<longrightarrow> memmove dst src n m x = m x)"
proof -
  have "n \<le> 2 ^ 64" using assms by simp
  then have "rdbytes (memmove dst src n m) dst n = rdbytes m src n"
    by (intro nth_equalityI) (simp_all add: memmove_apply [OF assms] unat_of_nat)
  then show ?thesis by (simp add: memmove_apply [OF assms] unat_offset [OF assms(1)])
qed

theorem memmove_correct_witness:
  "rdbytes (memmove 3 1 4 (\<lambda>x. ucast x)) 3 4 = [1, 2, 3, 4]"
  using memmove_correct [of 3 4 1 "\<lambda>x. ucast x"] by (simp add: rdbytes_def upt_rec)

text \<open>
  C6: \<^verbatim>\<open>safestrcpy\<close> always leaves a terminated string: the destination array then holds the source
  string cut to \<open>n - 1\<close> characters, keeps its size, and is unchanged from index \<open>n\<close> on.
\<close>

theorem safestrcpy_terminates_string:
  assumes "0 < n" "n \<le> length s" "0 \<in> set t"
  shows "\<exists>r. safestrcpy s t n = Some r \<and> length r = length s \<and> cstr r = take (n - 1) (cstr t) \<and>
    drop n r = drop n s"
proof -
  obtain pad where b: "safestrcpy_bytes t n = Some (take (n - 1) (cstr t) @ 0 # pad)" (is "_ = Some ?bs")
    using safestrcpy_bytes_eq assms by blast
  have len: "length ?bs \<le> n" using safestrcpy_bytes_length [OF b] .
  have z: "\<forall>x\<in>set (take (n - 1) (cstr t)). x \<noteq> 0"
    unfolding cstr_def by (auto dest!: in_set_takeD set_takeWhileD)
  have c: "cstr (xs @ 0 # ys) = xs" if "\<forall>x\<in>set xs. x \<noteq> 0" for xs ys :: "u8 list"
    using that by (induction xs) auto
  let ?r = "?bs @ drop (length ?bs) s"
  have "safestrcpy s t n = Some ?r" using b len assms(2) by (simp add: safestrcpy_def)
  moreover have "cstr ?r = take (n - 1) (cstr t)" using c [OF z] by simp
  moreover have "drop n ?r = drop n s" using len by (simp del: append_assoc)
  moreover have "length ?r = length s" using len assms(2) by simp
  ultimately show ?thesis by blast
qed

theorem safestrcpy_terminates_string_witness:
  "\<exists>r. safestrcpy [9, 9, 9, 9, 9] [104, 105, 106, 107, 0] 4 = Some r \<and> cstr r = [104, 105, 106]"
  using safestrcpy_terminates_string [of 4 "[9, 9, 9, 9, 9]" "[104, 105, 106, 107, 0]"] by auto

end
