(* ===== verification/Kalloc.thy ===== *)
theory Kalloc
  imports Sched Memory
begin

text \<open>
  The physical page allocator, \<^verbatim>\<open>kernel/kalloc.c\<close>: a free list threaded through the free pages and
  a reference count for every page, which \<^verbatim>\<open>mmapfork\<close> raises to share a page between parent and
  child. The free list lives in memory: the link of a free page is the double word at its start.
  The linker symbol \<^verbatim>\<open>end\<close> is the field \<open>kend\<close> that no operation assigns. Each function holds
  \<^verbatim>\<open>kmem.lock\<close> while it works on the list and the counts.
\<close>

section \<open>State and operations\<close>

record kmem = ptable +
  mem :: memory
  freelist :: u64
  refcnt :: "int \<Rightarrow> int"
  kend :: u64

definition refindex :: "u64 \<Rightarrow> int" where
  "refindex pa = i32_of_u64 ((pa - KERNBASE) div PGSIZE)"

definition upd_mem :: "(memory \<Rightarrow> memory) \<Rightarrow> 'a kmem_scheme \<Rightarrow> 'a kmem_scheme" where
  "upd_mem f s = s\<lparr>mem := f (mem s)\<rparr>"

text \<open>The address test at the head of \<^verbatim>\<open>kfree\<close> and \<^verbatim>\<open>kaddref\<close>.\<close>

definition page_ok :: "u64 \<Rightarrow> u64 \<Rightarrow> bool" where
  "page_ok ke pa \<longleftrightarrow> \<not> (pa mod PGSIZE \<noteq> 0 \<or> pa < ke \<or> pa \<ge> PHYSTOP)"

definition kfree :: "u64 \<Rightarrow> ('a kmem_scheme, unit) kmon" where
  "kfree pa s =
     (if \<not> page_ok (kend s) pa then Panic ''kfree''
      else let idx = refindex pa in
        if refcnt s idx < 1 then Panic ''kfree ref''
        else let s = s\<lparr>refcnt := (refcnt s)(idx := refcnt s idx - 1)\<rparr> in
          if refcnt s idx > 0 then Ret () s
          else let s = upd_mem (memset pa 1 4096) s;
                   s = upd_mem (\<lambda>m. sd64 m pa (freelist s)) s
               in Ret () (s\<lparr>freelist := pa\<rparr>))"

definition kaddref :: "u64 \<Rightarrow> ('a kmem_scheme, unit) kmon" where
  "kaddref pa s =
     (if \<not> page_ok (kend s) pa then Panic ''kaddref''
      else let idx = refindex pa in
        if refcnt s idx < 1 then Panic ''kaddref ref''
        else Ret () (s\<lparr>refcnt := (refcnt s)(idx := i32 (refcnt s idx + 1))\<rparr>))"

definition kalloc :: "('a kmem_scheme, u64) kmon" where
  "kalloc s =
     (let r = freelist s in
      if r \<noteq> 0 then
        let s = s\<lparr>freelist := ld64 (mem s) r, refcnt := (refcnt s)(refindex r := 1)\<rparr>
        in Ret r (upd_mem (memset r 5 4096) s)
      else Ret 0 s)"

text \<open>
  \<^verbatim>\<open>freerange\<close> walks from the first page boundary at or above \<open>pa_start\<close> as long as a whole page fits
  below \<open>pa_end\<close>. The recursion is bounded by the number of pages below \<open>pa_end\<close>, which is at least the
  number of turns of the loop unless the address wraps.
\<close>

primrec freerange_loop :: "nat \<Rightarrow> u64 \<Rightarrow> u64 \<Rightarrow> ('a kmem_scheme, unit) kmon" where
  "freerange_loop 0 p pa_end = kret ()"
| "freerange_loop (Suc n) p pa_end = (\<lambda>s.
     if p + PGSIZE \<le> pa_end
     then kthen (kmod (\<lambda>s. s\<lparr>refcnt := (refcnt s)(refindex p := 1)\<rparr>))
            (kthen (kfree p) (freerange_loop n (p + PGSIZE) pa_end)) s
     else Ret () s)"

definition freerange :: "u64 \<Rightarrow> u64 \<Rightarrow> ('a kmem_scheme, unit) kmon" where
  "freerange pa_start pa_end = freerange_loop (unat pa_end div 4096) (PGROUNDUP pa_start) pa_end"

definition kinit :: "('a kmem_scheme, unit) kmon" where
  "kinit = (\<lambda>s. freerange (kend s) PHYSTOP s)"

text \<open>
  \<^verbatim>\<open>freemem_pages\<close> follows the links until a null pointer: on a cyclic list it would not return,
  which is the value \<^const>\<open>None\<close>.
\<close>

partial_function (option) freelist_count :: "memory \<Rightarrow> u64 \<Rightarrow> int \<Rightarrow> int option" where
  "freelist_count m r count =
     (if r \<noteq> 0 then freelist_count m (ld64 m r) (i32 (count + 1)) else Some count)"

definition freemem_pages :: "'a kmem_scheme \<Rightarrow> int option" where
  "freemem_pages s = freelist_count (mem s) (freelist s) 0"

definition freemem_bytes :: "'a kmem_scheme \<Rightarrow> u64 option" where
  "freemem_bytes s = map_option (\<lambda>n. u64_of_int n * PGSIZE) (freemem_pages s)"

definition page_of :: "u64 \<Rightarrow> nat" where
  "page_of a = unat a div 4096"

primrec flist :: "memory \<Rightarrow> u64 \<Rightarrow> u64 list \<Rightarrow> bool" where
  "flist m r [] \<longleftrightarrow> r = 0"
| "flist m r (x # xs) \<longleftrightarrow> r = x \<and> x \<noteq> 0 \<and> flist m (ld64 m x) xs"

text \<open>
  The allocator's invariant: the free list is the list \<open>xs\<close> of distinct pages, exactly the managed
  pages with reference count 0, and every other managed page has a positive count.
\<close>

definition kmem_ok :: "memory \<Rightarrow> u64 \<Rightarrow> (int \<Rightarrow> int) \<Rightarrow> u64 \<Rightarrow> u64 list \<Rightarrow> bool" where
  "kmem_ok m fl rc ke xs \<longleftrightarrow> KERNBASE \<le> ke \<and> flist m fl xs \<and> distinct xs \<and>
     (\<forall>x. x \<in> set xs \<longleftrightarrow> page_ok ke x \<and> rc (refindex x) = 0) \<and>
     (\<forall>x. page_ok ke x \<longrightarrow> 0 \<le> rc (refindex x) \<and> rc (refindex x) < 2147483648)"

abbreviation kmem_inv :: "'a kmem_scheme \<Rightarrow> u64 list \<Rightarrow> bool" where
  "kmem_inv s xs \<equiv> kmem_ok (mem s) (freelist s) (refcnt s) (kend s) xs"

text \<open>The \<open>n\<close> pages from address \<open>p\<close> on.\<close>

definition page_run :: "u64 \<Rightarrow> nat \<Rightarrow> u64 list" where
  "page_run p n = map (\<lambda>i. p + of_nat (4096 * i)) [0..<n]"

text \<open>Running an operation \<open>n\<close> times, the results in a list.\<close>

primrec krepeat :: "nat \<Rightarrow> ('s, 'a) kmon \<Rightarrow> ('s, 'a list) kmon" where
  "krepeat 0 m = kret []"
| "krepeat (Suc n) m = kbind m (\<lambda>x. kbind (krepeat n m) (\<lambda>xs. kret (x # xs)))"

text \<open>The reference count of a page, 0 outside the managed range.\<close>

definition refs :: "'a kmem_scheme \<Rightarrow> u64 \<Rightarrow> int" where
  "refs s x = (if page_ok (kend s) x then refcnt s (refindex x) else 0)"

text \<open>The calls a client can make, as data.\<close>

datatype kmem_op = KAlloc | KFree u64 | KAddref u64

fun kmem_exec :: "kmem_op \<Rightarrow> ('a kmem_scheme, unit) kmon" where
  "kmem_exec KAlloc = kbind kalloc (\<lambda>_. kret ())"
| "kmem_exec (KFree pa) = kfree pa"
| "kmem_exec (KAddref pa) = kaddref pa"

text \<open>A machine with two free pages, for examples.\<close>

definition boot_demo :: kmem where
  "boot_demo = \<lparr>procs = [], nextpid = 1, initproc = None, curproc = None, ticks = 0,
     mem = (\<lambda>_. 0), freelist = 0, refcnt = (\<lambda>_. 0), kend = 0x87FFE000\<rparr>"

section \<open>Pages\<close>

lemma pg_aligned_mult: "pg_aligned x \<Longrightarrow> unat x = 4096 * page_of x"
  using mult_div_mod_eq [of 4096 "unat x"] by (simp add: page_of_def pg_aligned_unat)

lemma in_page_iff:
  assumes "pg_aligned x"
  shows "unat (a - x) < 4096 \<longleftrightarrow> page_of a = page_of x"
proof -
  have x: "unat x = 4096 * page_of x" using assms by (rule pg_aligned_mult)
  with unat_lt64 [of x] have "page_of x < 4503599627370496" by simp
  then have "unat (a - x) < 4096 \<longleftrightarrow> 4096 * page_of x \<le> unat a \<and> unat a < 4096 * page_of x + 4096"
    by (subst unat_offset) (simp_all add: x)
  also have "\<dots> \<longleftrightarrow> unat a div 4096 = page_of x" by (auto simp: div_nat_eqI)
  finally show ?thesis by (simp add: page_of_def)
qed

lemma page_of_inj: "\<lbrakk>pg_aligned x; pg_aligned y; page_of x = page_of y\<rbrakk> \<Longrightarrow> x = y"
  by (metis pg_aligned_mult word_unat_eq_iff)

lemma page_of_offset: "\<lbrakk>pg_aligned x; i < 4096\<rbrakk> \<Longrightarrow> page_of (x + of_nat i) = page_of x"
  using in_page_iff [of x "x + of_nat i"] by (simp add: unat_of_nat)

lemma memset_page: "pg_aligned x \<Longrightarrow> memset x c 4096 m a = (if page_of a = page_of x then word_of_int c else m a)"
  by (simp add: memset_apply in_page_iff)

lemma ld64_page_cong:
  assumes "pg_aligned x" "i \<le> 4088" "\<And>a. page_of a = page_of x \<Longrightarrow> m a = m' a"
  shows "ld64 m (x + of_nat i) = ld64 m' (x + of_nat i)"
proof (rule ld64_cong)
  fix j :: nat assume "j < 8"
  then have "page_of (x + of_nat (i + j)) = page_of x"
    using assms by (intro page_of_offset) auto
  then show "m (x + of_nat i + of_nat j) = m' (x + of_nat i + of_nat j)"
    using assms(3) by (simp add: add.assoc)
qed

lemmas ld64_page_cong0 = ld64_page_cong [where i = 0, simplified]

lemma sd64_page:
  assumes "pg_aligned x" "i \<le> 4088" "page_of a \<noteq> page_of x"
  shows "sd64 m (x + of_nat i) v a = m a"
proof -
  have "\<not> unat (a - (x + of_nat i)) < 8"
  proof
    assume *: "unat (a - (x + of_nat i)) < 8"
    define j where "j = unat (a - (x + of_nat i))"
    have "a = x + of_nat i + of_nat j" unfolding j_def by simp
    then have "a = x + of_nat (i + j)" by (simp add: add.assoc)
    moreover have "page_of (x + of_nat (i + j)) = page_of x"
      using assms * j_def by (intro page_of_offset) auto
    ultimately show False using assms(3) by simp
  qed
  then show ?thesis by (simp add: sd64_def)
qed

lemmas sd64_page0 = sd64_page [where i = 0, simplified]

section \<open>The free list\<close>

lemma flist_cong: "(\<And>x. x \<in> set xs \<Longrightarrow> ld64 m x = ld64 m' x) \<Longrightarrow> flist m r xs = flist m' r xs"
  by (induction xs arbitrary: r) auto

lemma page_ok_iff: "page_ok ke x \<longleftrightarrow> pg_aligned x \<and> unat ke \<le> unat x \<and> unat x < 2281701376"
  by (auto simp: page_ok_def pg_aligned_def word_less_nat_alt word_le_nat_alt not_le not_less)

lemma page_okD:
  assumes "page_ok ke x" "KERNBASE \<le> ke"
  shows "pg_aligned x" "x \<noteq> 0" "2147483648 \<le> unat x" "unat x < 2281701376"
proof -
  show "pg_aligned x" using assms by (simp add: page_ok_def pg_aligned_def)
  show b: "2147483648 \<le> unat x" "unat x < 2281701376"
    using assms by (simp_all add: page_ok_def word_le_nat_alt word_less_nat_alt not_le not_less)
  then show "x \<noteq> 0" by auto
qed

lemma refindex_eq:
  assumes "page_ok ke x" "KERNBASE \<le> ke"
  shows "refindex x = int (page_of x) - 524288" "0 \<le> refindex x" "refindex x < 32768"
proof -
  note p = page_okD [OF assms]
  obtain k where k: "unat x = 4096 * k" using pg_aligned_mult [OF p(1)] by blast
  have "unat ((x - KERNBASE) div PGSIZE) = (unat x - 2147483648) div 4096"
    using p by (simp add: unat_div unat_offset_eq)
  also have "\<dots> = k - 524288" using k p by simp
  finally have w: "unat ((x - KERNBASE) div PGSIZE) = k - 524288" .
  have "k - 524288 < 32768" using k p by simp
  then have "sint (ucast ((x - KERNBASE) div PGSIZE) :: u32) = int (k - 524288)"
    using w by (simp add: sint_uint signed_take_bit_int_eq_self unsigned_ucast_eq take_bit_nat_eq_self uint_nat)
  moreover have "page_of x = k" using k by (simp add: page_of_def)
  ultimately show "refindex x = int (page_of x) - 524288" "0 \<le> refindex x" "refindex x < 32768"
    using k p by (auto simp: refindex_def i32_of_u64_def)
qed

lemma refindex_inj:
  assumes "page_ok ke x" "page_ok ke y" "KERNBASE \<le> ke"
  shows "refindex x = refindex y \<longleftrightarrow> x = y"
  using refindex_eq(1) [OF assms(1,3)] refindex_eq(1) [OF assms(2,3)]
    page_okD(1) [OF assms(1,3)] page_okD(1) [OF assms(2,3)] page_of_inj by auto

lemma kmem_okD:
  assumes "kmem_ok m fl rc ke xs"
  shows "KERNBASE \<le> ke" "flist m fl xs" "distinct xs"
    "x \<in> set xs \<longleftrightarrow> page_ok ke x \<and> rc (refindex x) = 0"
    "page_ok ke x \<Longrightarrow> 0 \<le> rc (refindex x)" "page_ok ke x \<Longrightarrow> rc (refindex x) < 2147483648"
  using assms by (auto simp: kmem_ok_def)

lemma kmem_okI:
  assumes "KERNBASE \<le> ke" "flist m fl xs" "distinct xs"
    and "\<And>x. x \<in> set xs \<longleftrightarrow> page_ok ke x \<and> rc (refindex x) = 0"
    and "\<And>x. page_ok ke x \<Longrightarrow> 0 \<le> rc (refindex x) \<and> rc (refindex x) < 2147483648"
  shows "kmem_ok m fl rc ke xs"
  unfolding kmem_ok_def using assms by blast

lemma kmem_ok_refcnt:
  assumes "kmem_ok m fl rc ke xs" "page_ok ke pa" "0 < rc (refindex pa)" "0 < v" "v < 2147483648"
  shows "kmem_ok m fl (rc(refindex pa := v)) ke xs"
proof (rule kmem_okI)
  note D = kmem_okD [OF assms(1)]
  show "KERNBASE \<le> ke" "flist m fl xs" "distinct xs" by (rule D)+
  show "x \<in> set xs \<longleftrightarrow> page_ok ke x \<and> (rc(refindex pa := v)) (refindex x) = 0" for x
    using D(4) [of x] refindex_inj [OF assms(2) _ D(1), of x] assms(3,4) by auto
  show "0 \<le> (rc(refindex pa := v)) (refindex x) \<and> (rc(refindex pa := v)) (refindex x) < 2147483648"
    if "page_ok ke x" for x
    using D(5) [OF that] D(6) [OF that] assms(4,5) by simp
qed

lemma kmem_ok_aligned: "\<lbrakk>kmem_ok m fl rc ke xs; x \<in> set xs\<rbrakk> \<Longrightarrow> pg_aligned x"
  using kmem_okD(1,4) page_okD(1) by blast

text \<open>A client that writes only to pages that are not free keeps the invariant.\<close>

lemma kmem_ok_mem:
  assumes "kmem_ok m fl rc ke xs"
    and "\<And>x a. x \<in> set xs \<Longrightarrow> page_of a = page_of x \<Longrightarrow> m' a = m a"
  shows "kmem_ok m' fl rc ke xs"
proof -
  have "ld64 m x = ld64 m' x" if "x \<in> set xs" for x
    by (rule ld64_page_cong0) (use that assms(2) kmem_ok_aligned [OF assms(1) that] in auto)
  then have "flist m' fl xs" using flist_cong kmem_okD(2) [OF assms(1)] by blast
  then show ?thesis using assms(1) by (simp add: kmem_ok_def)
qed

lemma kmem_ok_sd64:
  assumes "kmem_ok m fl rc ke xs" "pg_aligned p" "i \<le> 4088" "p \<notin> set xs"
  shows "kmem_ok (sd64 m (p + of_nat i) v) fl rc ke xs"
proof (rule kmem_ok_mem [OF assms(1)])
  fix x a assume "x \<in> set xs" "page_of a = page_of x"
  moreover from this(1) have "page_of x \<noteq> page_of p"
    using page_of_inj kmem_ok_aligned [OF assms(1)] assms(2,4) by metis
  ultimately show "sd64 m (p + of_nat i) v a = m a" using assms(2,3) by (simp add: sd64_page)
qed

lemma kmem_ok_memset:
  assumes "kmem_ok m fl rc ke xs" "pg_aligned p" "p \<notin> set xs"
  shows "kmem_ok (memset p c 4096 m) fl rc ke xs"
proof (rule kmem_ok_mem [OF assms(1)])
  fix x a assume "x \<in> set xs" "page_of a = page_of x"
  moreover from this(1) have "page_of x \<noteq> page_of p"
    using page_of_inj kmem_ok_aligned [OF assms(1)] assms(2,3) by metis
  ultimately show "memset p c 4096 m a = m a" using assms(2) by (simp add: memset_page)
qed

section \<open>The operations keep the invariant\<close>

lemma kalloc_empty: "kmem_inv s [] \<Longrightarrow> kalloc s = Ret 0 s"
  by (simp add: kmem_ok_def kalloc_def)

lemma kalloc_cons:
  assumes "kmem_inv s (x # xs)"
  shows "kalloc s = Ret x (s\<lparr>mem := memset x 5 4096 (mem s), freelist := ld64 (mem s) x,
                              refcnt := (refcnt s)(refindex x := 1)\<rparr>)"
    and "kmem_ok (memset x 5 4096 (mem s)) (ld64 (mem s) x) ((refcnt s)(refindex x := 1)) (kend s) xs"
    and "page_ok (kend s) x" "x \<notin> set xs" "refcnt s (refindex x) = 0"
proof -
  note D = kmem_okD [OF assms]
  have fl: "freelist s = x" "x \<noteq> 0" "flist (mem s) (ld64 (mem s) x) xs" using D(2) by auto
  from fl(1,2) show "kalloc s = Ret x (s\<lparr>mem := memset x 5 4096 (mem s), freelist := ld64 (mem s) x,
                              refcnt := (refcnt s)(refindex x := 1)\<rparr>)"
    by (simp add: kalloc_def upd_mem_def)
  show x: "page_ok (kend s) x" "x \<notin> set xs" "refcnt s (refindex x) = 0" using D(3) D(4) [of x] by simp_all
  let ?rc = "(refcnt s)(refindex x := 1)"
  have "kmem_ok (mem s) (ld64 (mem s) x) ?rc (kend s) xs"
  proof (rule kmem_okI)
    show "y \<in> set xs \<longleftrightarrow> page_ok (kend s) y \<and> ?rc (refindex y) = 0" for y
      using D(4) [of y] refindex_inj [OF x(1) _ D(1), of y] x(1,2) by (cases "y = x") auto
    show "0 \<le> ?rc (refindex y) \<and> ?rc (refindex y) < 2147483648" if "page_ok (kend s) y" for y
      using D(5) [OF that] D(6) [OF that] by simp
  qed (use D(1,3) fl(3) in auto)
  then show "kmem_ok (memset x 5 4096 (mem s)) (ld64 (mem s) x) ((refcnt s)(refindex x := 1)) (kend s) xs"
    using page_okD(1) [OF x(1) D(1)] x(2) by (rule kmem_ok_memset)
qed

lemma kfree_shared:
  assumes "kmem_inv s xs" "page_ok (kend s) pa" "1 < refcnt s (refindex pa)"
  shows "kfree pa s = Ret () (s\<lparr>refcnt := (refcnt s)(refindex pa := refcnt s (refindex pa) - 1)\<rparr>)"
    and "kmem_ok (mem s) (freelist s) ((refcnt s)(refindex pa := refcnt s (refindex pa) - 1)) (kend s) xs"
  using assms kmem_okD(6) [OF assms(1,2)] by (simp_all add: kfree_def Let_def kmem_ok_refcnt)

lemma kfree_last:
  assumes "kmem_inv s xs" "page_ok (kend s) pa" "refcnt s (refindex pa) = 1"
  defines "m' \<equiv> sd64 (memset pa 1 4096 (mem s)) pa (freelist s)"
  shows "kfree pa s = Ret () (s\<lparr>mem := m', freelist := pa, refcnt := (refcnt s)(refindex pa := 0)\<rparr>)"
    and "kmem_ok m' pa ((refcnt s)(refindex pa := 0)) (kend s) (pa # xs)"
proof -
  note D = kmem_okD [OF assms(1)]
  note p = page_okD [OF assms(2) D(1)]
  show "kfree pa s = Ret () (s\<lparr>mem := m', freelist := pa, refcnt := (refcnt s)(refindex pa := 0)\<rparr>)"
    using assms(2,3) by (simp add: kfree_def upd_mem_def m'_def)
  have n: "pa \<notin> set xs" using D(4) [of pa] assms(3) by auto
  have "kmem_ok (memset pa 1 4096 (mem s)) (freelist s) (refcnt s) (kend s) xs"
    by (rule kmem_ok_memset [OF assms(1) p(1) n])
  then have "kmem_ok m' (freelist s) (refcnt s) (kend s) xs"
    unfolding m'_def using kmem_ok_sd64 [OF _ p(1) _ n, of _ _ _ _ 0] by simp
  from kmem_okD(2) [OF this] have "flist m' pa (pa # xs)" using p(2) by (simp add: m'_def)
  then show "kmem_ok m' pa ((refcnt s)(refindex pa := 0)) (kend s) (pa # xs)" (is "kmem_ok _ _ ?rc _ _")
  proof (rule kmem_okI [OF D(1)])
    show "y \<in> set (pa # xs) \<longleftrightarrow> page_ok (kend s) y \<and> ?rc (refindex y) = 0" for y
      using D(4) [of y] refindex_inj [OF assms(2) _ D(1), of y] assms(2) by (cases "y = pa") auto
    show "0 \<le> ?rc (refindex y) \<and> ?rc (refindex y) < 2147483648" if "page_ok (kend s) y" for y
      using D(5) [OF that] D(6) [OF that] by simp
  qed (use D(3) n in simp)
qed

lemma kaddref_ok:
  assumes "kmem_inv s xs" "page_ok (kend s) pa" "1 \<le> refcnt s (refindex pa)" "refcnt s (refindex pa) < 2147483647"
  shows "kaddref pa s = Ret () (s\<lparr>refcnt := (refcnt s)(refindex pa := refcnt s (refindex pa) + 1)\<rparr>)"
    and "kmem_ok (mem s) (freelist s) ((refcnt s)(refindex pa := refcnt s (refindex pa) + 1)) (kend s) xs"
  using assms by (simp_all add: kaddref_def Let_def kmem_ok_refcnt)

section \<open>Initialisation\<close>

lemma page_run_Suc: "page_run p (Suc n) = p # page_run (p + PGSIZE) n"
proof -
  have "[0..<Suc n] = 0 # map Suc [0..<n]" by (simp add: upt_conv_Cons map_Suc_upt del: upt_Suc)
  then show ?thesis by (simp add: page_run_def algebra_simps del: upt_Suc)
qed

lemma kfree_fresh:
  assumes "KERNBASE \<le> kend s" "page_ok (kend s) p" "refcnt s = (\<lambda>_. 0)" "p \<notin> set xs"
    and "flist (mem s) (freelist s) xs" "\<And>x. x \<in> set xs \<Longrightarrow> pg_aligned x"
  shows "\<exists>s'. kfree p (s\<lparr>refcnt := (refcnt s)(refindex p := 1)\<rparr>) = Ret () s' \<and>
    flist (mem s') (freelist s') (p # xs) \<and> refcnt s' = (\<lambda>_. 0) \<and> kend s' = kend s"
proof -
  note p = page_okD [OF assms(2,1)]
  let ?m = "sd64 (memset p 1 4096 (mem s)) p (freelist s)"
  have "page_of x \<noteq> page_of p" if "x \<in> set xs" for x
    using that assms(4,6) p(1) page_of_inj by metis
  then have "ld64 (mem s) x = ld64 ?m x" if "x \<in> set xs" for x
    by (intro ld64_page_cong0) (use that assms(6) p(1) in \<open>simp_all add: sd64_page0 memset_page\<close>)
  then have "flist ?m (freelist s) xs" using flist_cong assms(5) by blast
  then show ?thesis using assms(1-3) p(2)
    by (auto simp: kfree_def upd_mem_def Let_def)
qed

lemma freerange_loop_ok:
  assumes "KERNBASE \<le> kend s" "refcnt s = (\<lambda>_. 0)" "flist (mem s) (freelist s) xs"
    and "\<And>x. x \<in> set xs \<Longrightarrow> pg_aligned x \<and> unat x < unat p"
    and "pg_aligned p" "kend s \<le> p" "unat p + 4096 * n = 2281701376" "n \<le> k"
  shows "\<exists>s'. freerange_loop k p PHYSTOP s = Ret () s' \<and>
    flist (mem s') (freelist s') (rev (page_run p n) @ xs) \<and> refcnt s' = (\<lambda>_. 0) \<and> kend s' = kend s"
  using assms
proof (induction n arbitrary: k p xs s)
  case 0
  then have "\<not> p + PGSIZE \<le> PHYSTOP" by (simp add: word_le_nat_alt unat_word_ariths)
  then show ?case using 0 by (cases k) (simp_all add: page_run_def kret_def)
next
  case (Suc n)
  then obtain k' where k: "k = Suc k'" by (cases k) auto
  have up: "unat (p + PGSIZE) = unat p + 4096" using Suc.prems by (simp add: unat_word_ariths)
  then have le: "p + PGSIZE \<le> PHYSTOP" using Suc.prems by (simp add: word_le_nat_alt)
  have "unat p < 2281701376" using Suc.prems by simp
  then have ok: "page_ok (kend s) p"
    using Suc.prems by (simp add: page_ok_def pg_aligned_def word_less_nat_alt word_le_nat_alt)
  have "p \<notin> set xs" using Suc.prems(4) by blast
  with kfree_fresh [OF Suc.prems(1) ok Suc.prems(2) _ Suc.prems(3)] Suc.prems(4)
  obtain s1 where s1: "kfree p (s\<lparr>refcnt := (refcnt s)(refindex p := 1)\<rparr>) = Ret () s1"
      "flist (mem s1) (freelist s1) (p # xs)" "refcnt s1 = (\<lambda>_. 0)" "kend s1 = kend s" by blast
  have "\<exists>s'. freerange_loop k' (p + PGSIZE) PHYSTOP s1 = Ret () s' \<and>
      flist (mem s') (freelist s') (rev (page_run (p + PGSIZE) n) @ p # xs) \<and>
      refcnt s' = (\<lambda>_. 0) \<and> kend s' = kend s1"
  proof (rule Suc.IH)
    show "pg_aligned (p + PGSIZE)" using Suc.prems(5) up by (simp add: pg_aligned_unat)
    show "pg_aligned x \<and> unat x < unat (p + PGSIZE)" if "x \<in> set (p # xs)" for x
      using that Suc.prems(4,5) up by force
    show "kend s1 \<le> p + PGSIZE" using Suc.prems(6) up s1(4) by (simp add: word_le_nat_alt)
  qed (use s1 Suc.prems k up in simp_all)
  then show ?case using s1 le
    by (auto simp: k page_run_Suc kthen_def kbind_def kmod_def)
qed

lemma page_run_set:
  assumes "pg_aligned p" "unat p + 4096 * n \<le> 2281701376"
  shows "x \<in> set (page_run p n) \<longleftrightarrow> pg_aligned x \<and> unat p \<le> unat x \<and> unat x < unat p + 4096 * n"
proof -
  have u: "unat (p + of_nat (4096 * i)) = unat p + 4096 * i" if "i < n" for i
    by (rule unat_plus_nat) (use assms that in simp)
  obtain k where k: "unat p = 4096 * k" using pg_aligned_mult [OF assms(1)] by blast
  show ?thesis
  proof
    assume "x \<in> set (page_run p n)"
    then obtain i where "i < n" "x = p + of_nat (4096 * i)" by (auto simp: page_run_def)
    then show "pg_aligned x \<and> unat p \<le> unat x \<and> unat x < unat p + 4096 * n"
      using u [of i] k by (simp add: pg_aligned_unat)
  next
    assume x: "pg_aligned x \<and> unat p \<le> unat x \<and> unat x < unat p + 4096 * n"
    then obtain j where j: "unat x = 4096 * j" using pg_aligned_mult by blast
    then have "k \<le> j" "j - k < n" using x k by auto
    moreover then have "x = p + of_nat (4096 * (j - k))"
      using u [of "j - k"] j k by (simp add: word_unat_eq_iff)
    ultimately show "x \<in> set (page_run p n)"
      unfolding page_run_def set_map by (intro image_eqI [where x = "j - k"]) auto
  qed
qed

lemma page_run_distinct:
  assumes "unat p + 4096 * n \<le> 2281701376"
  shows "distinct (page_run p n)"
proof -
  have "unat (p + of_nat (4096 * i)) = unat p + 4096 * i" if "i < n" for i
    by (rule unat_plus_nat) (use assms that in simp)
  then have "inj_on (\<lambda>i. p + of_nat (4096 * i)) {0..<n}"
    by (intro inj_onI) (metis add_left_cancel atLeastLessThan_iff mult_cancel1 zero_neq_numeral)
  then show ?thesis by (simp add: page_run_def distinct_map)
qed

lemma kinit_ok:
  assumes "KERNBASE \<le> kend s" "kend s \<le> PHYSTOP" "refcnt s = (\<lambda>_. 0)" "freelist s = 0"
  defines "p \<equiv> PGROUNDUP (kend s)"
  shows "\<exists>s'. kinit s = Ret () s' \<and> kend s' = kend s \<and> refcnt s' = (\<lambda>_. 0) \<and>
    kmem_inv s' (rev (page_run p ((2281701376 - unat p) div 4096)))"
proof -
  let ?n = "(2281701376 - unat p) div 4096"
  have ke: "2147483648 \<le> unat (kend s)" "unat (kend s) \<le> 2281701376"
    using assms(1,2) by (simp_all add: word_le_nat_alt)
  have p: "unat p = (unat (kend s) + 4095) div 4096 * 4096"
    unfolding p_def by (rule unat_PGROUNDUP) (use ke in simp)
  define k where "k = (unat (kend s) + 4095) div 4096"
  have "unat (kend s) \<le> 4096 * k" "4096 * k \<le> 2281701376"
    using ke unfolding k_def by simp_all
  then have b: "unat p = 4096 * k" "unat (kend s) \<le> unat p" "k \<le> 557056"
    using p by (simp_all add: k_def)
  then have n: "unat p + 4096 * ?n = 2281701376" "?n \<le> 557056" by auto
  have al: "pg_aligned p" using b by (simp add: pg_aligned_unat)
  have "\<exists>s'. freerange_loop (unat (PHYSTOP::u64) div 4096) p PHYSTOP s = Ret () s' \<and>
    flist (mem s') (freelist s') (rev (page_run p ?n) @ []) \<and> refcnt s' = (\<lambda>_. 0) \<and> kend s' = kend s"
    by (rule freerange_loop_ok)
      (use assms(1,3,4) al b n in \<open>simp_all add: word_le_nat_alt\<close>)
  then obtain s' where s': "kinit s = Ret () s'" "flist (mem s') (freelist s') (rev (page_run p ?n))"
      "refcnt s' = (\<lambda>_. 0)" "kend s' = kend s"
    by (auto simp: kinit_def freerange_def p_def)
  have "x \<in> set (rev (page_run p ?n)) \<longleftrightarrow> page_ok (kend s) x" for x
  proof -
    have "unat (kend s) \<le> unat x \<longleftrightarrow> unat p \<le> unat x" if "pg_aligned x"
    proof -
      from pg_aligned_mult [OF that] obtain j where "unat x = 4096 * j" by blast
      then show ?thesis using b unfolding k_def by auto
    qed
    then show ?thesis using page_run_set [OF al, of ?n x] n(1) by (auto simp: page_ok_iff)
  qed
  then have "kmem_inv s' (rev (page_run p ?n))"
    using s' assms(1) page_run_distinct [of p ?n] n(1) by (intro kmem_okI) auto
  then show ?thesis using s' by blast
qed

section \<open>Counting free pages\<close>

lemma freelist_count_flist:
  "\<lbrakk>flist m r xs; 0 \<le> c; c + int (length xs) < 2147483648\<rbrakk> \<Longrightarrow>
     freelist_count m r c = Some (c + int (length xs))"
proof (induction xs arbitrary: r c)
  case Nil
  then show ?case by (simp add: freelist_count.simps)
next
  case (Cons x xs)
  then have "freelist_count m (ld64 m x) (c + 1) = Some (c + 1 + int (length xs))" by auto
  then show ?case using Cons.prems by (subst freelist_count.simps) simp
qed

lemma kmem_ok_length:
  assumes "kmem_ok m fl rc ke xs"
  shows "length xs \<le> 32768"
proof -
  note D = kmem_okD [OF assms]
  have "inj_on refindex (set xs)"
    using refindex_inj D(1,4) by (auto intro!: inj_onI)
  then have "length xs = card (refindex ` set xs)"
    by (simp add: card_image distinct_card D(3))
  also have "refindex ` set xs \<subseteq> {0..<32768}"
    using refindex_eq(2,3) D(1,4) by auto
  then have "card (refindex ` set xs) \<le> 32768"
    using card_mono [of "{0..<32768::int}"] by simp
  finally show ?thesis .
qed

section \<open>The allocator's interface\<close>

text \<open>
  What the rest of the kernel relies on: \<open>inv s xs\<close> says the allocator is consistent with free list
  \<open>xs\<close>, \<open>refs s x\<close> is the number of owners of a page.
\<close>

locale page_allocator =
  fixes alloc :: "('s, u64) kmon"
    and free :: "u64 \<Rightarrow> ('s, unit) kmon"
    and addref :: "u64 \<Rightarrow> ('s, unit) kmon"
    and inv :: "'s \<Rightarrow> u64 list \<Rightarrow> bool"
    and refs :: "'s \<Rightarrow> u64 \<Rightarrow> int"
  assumes alloc_none: "inv s [] \<Longrightarrow> alloc s = Ret 0 s"
    and alloc_some: "inv s (x # xs) \<Longrightarrow>
      \<exists>s'. alloc s = Ret x s' \<and> inv s' xs \<and> refs s' = (refs s)(x := 1)"
    and free_shared: "\<lbrakk>inv s xs; 1 < refs s x\<rbrakk> \<Longrightarrow>
      \<exists>s'. free x s = Ret () s' \<and> inv s' xs \<and> refs s' = (refs s)(x := refs s x - 1)"
    and free_last: "\<lbrakk>inv s xs; refs s x = 1\<rbrakk> \<Longrightarrow>
      \<exists>s'. free x s = Ret () s' \<and> inv s' (x # xs) \<and> refs s' = (refs s)(x := 0)"
    and addref_ok: "\<lbrakk>inv s xs; 1 \<le> refs s x; refs s x < 2147483647\<rbrakk> \<Longrightarrow>
      \<exists>s'. addref x s = Ret () s' \<and> inv s' xs \<and> refs s' = (refs s)(x := refs s x + 1)"
    and inv_free: "inv s xs \<Longrightarrow> distinct xs \<and> (\<forall>x\<in>set xs. refs s x = 0)"

begin

lemma alloc_many:
  "inv s (xs @ ys) \<Longrightarrow> \<exists>s'. krepeat (length xs) alloc s = Ret xs s' \<and> inv s' ys \<and>
     (\<forall>x. refs s' x = (if x \<in> set xs then 1 else refs s x))"
proof (induction xs arbitrary: s)
  case Nil
  then show ?case by (simp add: kret_def)
next
  case (Cons x xs)
  then have "inv s (x # (xs @ ys))" by simp
  from alloc_some [OF this] obtain s1 where s1: "alloc s = Ret x s1" "inv s1 (xs @ ys)"
      "refs s1 = (refs s)(x := 1)" by blast
  from Cons.IH [OF s1(2)] obtain s2 where s2: "krepeat (length xs) alloc s1 = Ret xs s2" "inv s2 ys"
      "\<forall>z. refs s2 z = (if z \<in> set xs then 1 else refs s1 z)" by blast
  then show ?case using s1 by (simp add: kbind_def kret_def)
qed

lemma free_many_shared:
  "\<lbrakk>inv s xs; int k < refs s x\<rbrakk> \<Longrightarrow> \<exists>s'. kforeach free (replicate k x) s = Ret () s' \<and> inv s' xs \<and>
     refs s' = (refs s)(x := refs s x - int k)"
proof (induction k arbitrary: s)
  case 0
  then show ?case by (auto simp: kret_def)
next
  case (Suc k)
  then have "1 < refs s x" by simp
  from free_shared [OF Suc.prems(1) this] obtain s1 where s1: "free x s = Ret () s1" "inv s1 xs"
      "refs s1 = (refs s)(x := refs s x - 1)" by blast
  then have "int k < refs s1 x" using Suc.prems by simp
  from Suc.IH [OF s1(2) this] s1 show ?case by (auto simp: kthen_def kbind_def algebra_simps fun_eq_iff)
qed

lemma addref_many:
  "\<lbrakk>inv s xs; 1 \<le> refs s x; refs s x + int k \<le> 2147483647\<rbrakk> \<Longrightarrow>
     \<exists>s'. kforeach addref (replicate k x) s = Ret () s' \<and> inv s' xs \<and>
     refs s' = (refs s)(x := refs s x + int k)"
proof (induction k arbitrary: s)
  case 0
  then show ?case by (auto simp: kret_def)
next
  case (Suc k)
  then have "refs s x < 2147483647" by simp
  from addref_ok [OF Suc.prems(1,2) this] obtain s1 where s1: "addref x s = Ret () s1" "inv s1 xs"
      "refs s1 = (refs s)(x := refs s x + 1)" by blast
  then have "1 \<le> refs s1 x" "refs s1 x + int k \<le> 2147483647" using Suc.prems by simp_all
  from Suc.IH [OF s1(2) this] s1 show ?case by (auto simp: kthen_def kbind_def algebra_simps fun_eq_iff)
qed

text \<open>A page with \<open>k\<close> extra owners is released by the last of \<open>k + 1\<close> frees and not before.\<close>

lemma shared_lifetime:
  assumes "inv s (x # xs)" "int k \<le> 2147483646"
  shows "\<exists>s1 s2 s3. kthen (kbind alloc (\<lambda>_. kret ())) (kforeach addref (replicate k x)) s = Ret () s1 \<and>
     kforeach free (replicate k x) s1 = Ret () s2 \<and> inv s2 xs \<and> refs s2 x = 1 \<and>
     free x s2 = Ret () s3 \<and> inv s3 (x # xs) \<and> refs s3 = refs s"
proof -
  from alloc_some [OF assms(1)] obtain s0 where s0: "alloc s = Ret x s0" "inv s0 xs"
      "refs s0 = (refs s)(x := 1)" by blast
  from addref_many [OF s0(2), of x k] assms(2) s0(3) obtain s1 where
    s1: "kforeach addref (replicate k x) s0 = Ret () s1" "inv s1 xs"
      "refs s1 = (refs s0)(x := refs s0 x + int k)" by auto
  from free_many_shared [OF s1(2), of k x] s1(3) s0(3) obtain s2 where
    s2: "kforeach free (replicate k x) s1 = Ret () s2" "inv s2 xs" "refs s2 = (refs s)(x := 1)" by auto
  from free_last [OF s2(2), of x] s2(3) obtain s3 where
    s3: "free x s2 = Ret () s3" "inv s3 (x # xs)" "refs s3 = (refs s2)(x := 0)" by auto
  have "refs s x = 0" using inv_free [OF assms(1)] by simp
  then have "refs s3 = refs s" using s2(3) s3(3) by auto
  then show ?thesis using s0 s1 s2 s3 by (auto simp: kthen_def kbind_def kret_def)
qed

end

lemma refs_update:
  assumes "page_ok (kend s) x" "KERNBASE \<le> kend s" "kend t = kend s" "refcnt t = (refcnt s)(refindex x := v)"
  shows "refs t = (refs s)(x := v)"
  using refindex_inj [OF _ assms(1,2)] assms by (auto simp: refs_def fun_eq_iff)

lemma kalloc_refs:
  assumes "kmem_inv s (x # xs)"
  shows "\<exists>s'. kalloc s = Ret x s' \<and> kmem_inv s' xs \<and> refs s' = (refs s)(x := 1)"
  using kalloc_cons [OF assms] by (auto intro!: refs_update [OF _ kmem_okD(1) [OF assms]])

lemma refs_posD: "0 < refs s x \<Longrightarrow> page_ok (kend s) x \<and> refs s x = refcnt s (refindex x)"
  by (auto simp: refs_def split: if_splits)

lemma kfree_shared_refs:
  assumes "kmem_inv s xs" "1 < refs s x"
  shows "\<exists>s'. kfree x s = Ret () s' \<and> kmem_inv s' xs \<and> refs s' = (refs s)(x := refs s x - 1)"
  using kfree_shared [OF assms(1)] refs_posD [of s x] assms(2)
  by (auto intro!: refs_update [OF _ kmem_okD(1) [OF assms(1)]])

lemma kfree_last_refs:
  assumes "kmem_inv s xs" "refs s x = 1"
  shows "\<exists>s'. kfree x s = Ret () s' \<and> kmem_inv s' (x # xs) \<and> refs s' = (refs s)(x := 0)"
  using kfree_last [OF assms(1)] refs_posD [of s x] assms(2)
  by (auto intro!: refs_update [OF _ kmem_okD(1) [OF assms(1)]])

lemma kaddref_refs:
  assumes "kmem_inv s xs" "1 \<le> refs s x" "refs s x < 2147483647"
  shows "\<exists>s'. kaddref x s = Ret () s' \<and> kmem_inv s' xs \<and> refs s' = (refs s)(x := refs s x + 1)"
  using kaddref_ok [OF assms(1)] refs_posD [of s x] assms(2,3)
  by (auto intro!: refs_update [OF _ kmem_okD(1) [OF assms(1)]])

interpretation ka: page_allocator kalloc kfree kaddref kmem_inv refs
proof
  show "kmem_inv s [] \<Longrightarrow> kalloc s = Ret 0 s" for s :: "'a kmem_scheme" by (rule kalloc_empty)
  show "kmem_inv s xs \<Longrightarrow> distinct xs \<and> (\<forall>x\<in>set xs. refs s x = 0)" for s :: "'a kmem_scheme" and xs
    using kmem_okD(3,4) by (auto simp: refs_def)
qed (fact kalloc_refs kfree_shared_refs kfree_last_refs kaddref_refs)+

section \<open>Any sequence of calls\<close>

lemma kmem_exec_panic_iff:
  assumes "kmem_inv s xs"
  shows "(\<exists>e. kmem_exec op s = Panic e) \<longleftrightarrow>
    (case op of KAlloc \<Rightarrow> False | KFree pa \<Rightarrow> refs s pa = 0 | KAddref pa \<Rightarrow> refs s pa = 0)"
proof (cases op)
  case KAlloc
  then show ?thesis by (simp add: kalloc_def kbind_def kret_def Let_def)
next
  case (KFree pa)
  then show ?thesis using kmem_okD(5) [OF assms, of pa]
    by (auto simp: kfree_def refs_def Let_def)
next
  case (KAddref pa)
  then show ?thesis using kmem_okD(5) [OF assms, of pa]
    by (auto simp: kaddref_def refs_def Let_def)
qed

lemma refs_nonneg: "kmem_inv s xs \<Longrightarrow> 0 \<le> refs s x"
  using kmem_okD(5) by (auto simp: refs_def)

lemma kmem_exec_step:
  assumes "kmem_inv s xs" "kmem_exec op s = Ret u t" "\<And>x. refs s x < b" "b < 2147483648"
  shows "\<exists>ys. kmem_inv t ys \<and> (\<forall>x. refs t x < b + 1)"
proof -
  have up: "((refs s)(x := v)) y < b + 1" if "v \<le> b" for x v y
    using assms(3) [of y] that by auto
  have pos: "0 \<le> refs s x" "refs s x < b" for x
    using refs_nonneg [OF assms(1)] assms(3) by auto
  show ?thesis
  proof (cases op)
    case KAlloc
    show ?thesis
    proof (cases xs)
      case Nil
      then have "t = s" using KAlloc assms(1,2) by (simp add: kalloc_empty kbind_def kret_def)
      moreover have "refs s x < b + 1" for x using pos(2) [of x] by linarith
      ultimately show ?thesis using assms(1) by blast
    next
      case (Cons x ys)
      with assms(1) kalloc_refs obtain s' where s': "kalloc s = Ret x s'" "kmem_inv s' ys" "refs s' = (refs s)(x := 1)"
        by blast
      then have "t = s'" using KAlloc assms(2) by (simp add: kbind_def kret_def)
      moreover have "1 \<le> b" using pos [of x] by linarith
      ultimately show ?thesis using s' up by metis
    qed
  next
    case (KFree x)
    then have "refs s x \<noteq> 0" using kmem_exec_panic_iff [OF assms(1), of op] assms(2) by auto
    then consider "refs s x = 1" | "1 < refs s x" using pos(1) [of x] by linarith
    then show ?thesis
    proof cases
      case 1
      from kfree_last_refs [OF assms(1) this] assms(2) KFree
      have "kmem_inv t (x # xs)" "refs t = (refs s)(x := 0)" by auto
      moreover have "0 \<le> b" using pos [of x] by linarith
      ultimately show ?thesis using up by metis
    next
      case 2
      from kfree_shared_refs [OF assms(1) this] assms(2) KFree
      have "kmem_inv t xs" "refs t = (refs s)(x := refs s x - 1)" by auto
      moreover have "refs s x - 1 \<le> b" using pos(2) [of x] by linarith
      ultimately show ?thesis using up by metis
    qed
  next
    case (KAddref x)
    then have "refs s x \<noteq> 0" using kmem_exec_panic_iff [OF assms(1), of op] assms(2) by auto
    then have "1 \<le> refs s x" "refs s x < 2147483647" "refs s x + 1 \<le> b"
      using pos [of x] assms(4) by linarith+
    from kaddref_refs [OF assms(1) this(1,2)] assms(2) KAddref this(3) show ?thesis using up by fastforce
  qed
qed

lemma kmem_run_step:
  assumes "kmem_inv s xs" "kforeach kmem_exec ops s = Ret u t" "\<And>x. refs s x < b"
    "b + int (length ops) < 2147483648"
  shows "\<exists>ys. kmem_inv t ys"
  using assms
proof (induction ops arbitrary: s xs b)
  case Nil
  then show ?case by auto
next
  case (Cons op ops)
  then obtain v s1 where s1: "kmem_exec op s = Ret v s1" "kforeach kmem_exec ops s1 = Ret u t"
    by (auto simp: kthen_Ret_iff)
  from kmem_exec_step [OF Cons.prems(1) s1(1) Cons.prems(3)] Cons.prems(4)
  obtain ys where "kmem_inv s1 ys" "\<forall>x. refs s1 x < b + 1" by auto
  with Cons.IH [of s1 ys "b + 1"] s1(2) Cons.prems(4) show ?case by auto
qed

lemma demo_pages:
  "\<exists>s. kinit boot_demo = Ret () s \<and> kmem_inv s [0x87FFF000, 0x87FFE000] \<and> kend s = 0x87FFE000 \<and> refs s = (\<lambda>_. 0)"
proof -
  have "PGROUNDUP (kend boot_demo) = 0x87FFE000" by (simp add: boot_demo_def PGROUNDUP_def)
  then show ?thesis using kinit_ok [of boot_demo]
    by (auto simp: boot_demo_def page_run_def upt_rec refs_def fun_eq_iff)
qed

section \<open>Properties\<close>

text \<open>
  C7: \<^verbatim>\<open>kinit\<close> builds a correct free list: it returns without a panic, and then the free list consists
  of exactly the whole pages between \<^verbatim>\<open>PGROUNDUP(end)\<close> and \<^verbatim>\<open>PHYSTOP\<close>, without repetition, highest
  address first, all with reference count 0.
\<close>

theorem kinit_frees_all:
  assumes "KERNBASE \<le> kend s" "kend s \<le> PHYSTOP" "refcnt s = (\<lambda>_. 0)" "freelist s = 0"
  shows "\<exists>s'. kinit s = Ret () s' \<and> kmem_inv s' (rev (page_run (PGROUNDUP (kend s))
           ((2281701376 - unat (PGROUNDUP (kend s))) div 4096)))"
  using kinit_ok [OF assms] by blast

theorem kinit_frees_all_witness:
  "\<exists>s'. kinit boot_demo = Ret () s' \<and> kmem_inv s' (rev (page_run (PGROUNDUP 0x87FFE000)
           ((2281701376 - unat (PGROUNDUP 0x87FFE000)) div 4096)))"
  using kinit_frees_all [of boot_demo] by (simp add: boot_demo_def)

text \<open>
  C8: The allocator's invariant (the free list has no repetition, and a managed page is on it exactly
  when its reference count is 0) survives every sequence of \<^verbatim>\<open>kalloc\<close>, \<^verbatim>\<open>kfree\<close> and \<^verbatim>\<open>kaddref\<close> calls that
  does not panic and cannot overflow a reference count; and a call panics exactly when it frees
  or shares a page that is not allocated.
\<close>

theorem kmem_run_invariant:
  assumes "kmem_inv s xs" "\<And>x. refs s x < b" "b + int (length ops) < 2147483648"
  shows "(kforeach kmem_exec ops s = Ret u t \<longrightarrow> (\<exists>ys. kmem_inv t ys)) \<and>
    ((\<exists>e. kmem_exec op s = Panic e) \<longleftrightarrow>
      (case op of KAlloc \<Rightarrow> False | KFree pa \<Rightarrow> refs s pa = 0 | KAddref pa \<Rightarrow> refs s pa = 0))"
  using kmem_run_step [OF assms(1) _ assms(2,3)] kmem_exec_panic_iff [OF assms(1)] by blast

theorem kmem_run_invariant_witness:
  "\<exists>(s :: kmem) t ys. kmem_inv s [0x87FFF000, 0x87FFE000] \<and>
     kforeach kmem_exec [KAlloc, KFree 0x87FFF000] s = Ret () t \<and> kmem_inv t ys"
proof -
  obtain s :: kmem where s: "kmem_inv s [0x87FFF000, 0x87FFE000]" and z: "refs s = (\<lambda>_. 0)"
    using demo_pages by blast
  from ka.alloc_some [OF s] obtain s1 where s1: "kalloc s = Ret 0x87FFF000 s1"
    "kmem_inv s1 [0x87FFE000]" "refs s1 = (refs s)(0x87FFF000 := 1)" by blast
  then have "refs s1 0x87FFF000 = 1" by simp
  from ka.free_last [OF s1(2) this] obtain s2 where s2: "kfree 0x87FFF000 s1 = Ret () s2" by blast
  let ?ops = "[KAlloc, KFree 0x87FFF000]"
  have run: "kforeach kmem_exec ?ops s = Ret () s2"
    using s1 s2 by (simp add: kthen_def kbind_def kret_def)
  have "refs s x < 1" for x :: u64 by (simp add: z)
  from kmem_run_invariant [OF s this, of ?ops "()" s2] run s show ?thesis by auto
qed

text \<open>
  C9: Allocations are exclusive: from a consistent allocator with free list \<open>xs @ ys\<close>, the first
  \<open>length xs\<close> calls of \<^verbatim>\<open>kalloc\<close> return \<open>xs\<close>: pairwise distinct pages, none of which had an owner; each then
  has exactly one owner, no other count changes, and the remaining free pages are \<open>ys\<close>.
\<close>

theorem kalloc_exclusive:
  fixes s :: "'a kmem_scheme"
  assumes "kmem_inv s (xs @ ys)"
  shows "\<exists>s'. krepeat (length xs) kalloc s = Ret xs s' \<and> distinct xs \<and> kmem_inv s' ys \<and>
     (\<forall>x. refs s' x = (if x \<in> set xs then 1 else refs s x)) \<and> (\<forall>x\<in>set xs. refs s x = 0)"
  using ka.alloc_many [OF assms] ka.inv_free [OF assms] by auto

theorem kalloc_exclusive_witness:
  "\<exists>s s'. kinit boot_demo = Ret () s \<and> krepeat 1 kalloc s = Ret [0x87FFF000] s' \<and> refs s' 0x87FFF000 = 1"
proof -
  obtain s where s: "kinit boot_demo = Ret () s" "kmem_inv s ([0x87FFF000] @ [0x87FFE000])"
    using demo_pages by auto
  from kalloc_exclusive [OF s(2)] s(1) show ?thesis by auto
qed

text \<open>
  C10: A shared page lives until its last owner lets go: after a \<^verbatim>\<open>kalloc\<close> and \<open>k\<close> calls of \<^verbatim>\<open>kaddref\<close>, \<open>k\<close>
  calls of \<^verbatim>\<open>kfree\<close> leave it off the free list with one owner, and the next \<^verbatim>\<open>kfree\<close> puts it back in
  front of the list, with all counts as before the allocation.
\<close>

theorem kfree_last_owner:
  fixes s :: "'a kmem_scheme"
  assumes "kmem_inv s (x # xs)" "int k \<le> 2147483646"
  shows "\<exists>s1 s2 s3. kthen (kbind kalloc (\<lambda>_. kret ())) (kforeach kaddref (replicate k x)) s = Ret () s1 \<and>
     kforeach kfree (replicate k x) s1 = Ret () s2 \<and> kmem_inv s2 xs \<and> refs s2 x = 1 \<and>
     kfree x s2 = Ret () s3 \<and> kmem_inv s3 (x # xs) \<and> refs s3 = refs s"
  using assms by (rule ka.shared_lifetime)

theorem kfree_last_owner_witness:
  "\<exists>(s :: kmem) s1 s2 s3. kthen (kbind kalloc (\<lambda>_. kret ())) (kforeach kaddref (replicate 2 0x87FFF000)) s = Ret () s1 \<and>
     kforeach kfree (replicate 2 0x87FFF000) s1 = Ret () s2 \<and> refs s2 0x87FFF000 = 1 \<and> kfree 0x87FFF000 s2 = Ret () s3"
proof -
  obtain s :: kmem where s: "kmem_inv s [0x87FFF000, 0x87FFE000]" using demo_pages by blast
  from kfree_last_owner [OF s, of 2] show ?thesis by auto
qed

text \<open>
  C11: \<^verbatim>\<open>freemem_pages\<close> returns, and returns the number of managed pages without an owner; \<^verbatim>\<open>freemem_bytes\<close>
  is 4096 times that number.
\<close>

theorem freemem_counts:
  fixes s :: "'a kmem_scheme"
  assumes "kmem_inv s xs"
  shows "freemem_pages s = Some (int (card {x. page_ok (kend s) x \<and> refs s x = 0})) \<and>
    freemem_bytes s = Some (of_nat (4096 * card {x. page_ok (kend s) x \<and> refs s x = 0}))"
proof -
  note D = kmem_okD [OF assms]
  have "{x. page_ok (kend s) x \<and> refs s x = 0} = set xs" using D(4) by (auto simp: refs_def)
  then have c: "card {x. page_ok (kend s) x \<and> refs s x = 0} = length xs" using D(3) by (simp add: distinct_card)
  have "freemem_pages s = Some (int (length xs))"
    using freelist_count_flist [OF D(2), of 0] kmem_ok_length [OF assms] by (simp add: freemem_pages_def)
  then show ?thesis by (simp add: c freemem_bytes_def u64_of_int_def mult.commute)
qed

theorem freemem_counts_witness:
  "\<exists>s. kinit boot_demo = Ret () s \<and> freemem_pages s = Some (int (card {x. page_ok (kend s) x \<and> refs s x = 0}))"
  using demo_pages freemem_counts by blast

end
