(* ===== verification/Pagetable.thy ===== *)
theory Pagetable
  imports Kalloc
begin

text \<open>
  Page tables: the part of \<^verbatim>\<open>kernel/vm.c\<close> that reads and writes Sv39 page tables in memory, from
  \<^verbatim>\<open>walk\<close> to \<^verbatim>\<open>uvmclear\<close>, and \<^verbatim>\<open>proc_mapstacks\<close> of \<^verbatim>\<open>kernel/proc.c\<close>. A \<^verbatim>\<open>pagetable_t\<close> is the
  physical address of a page of 512 entries, entry \<open>i\<close> the double word at offset \<open>8 * i\<close>; a null
  pointer is 0. The linker symbols \<^verbatim>\<open>etext\<close> and \<^verbatim>\<open>trampoline\<close> are fields that no operation assigns.

  A loop over pages carries the number of pages it can visit as a bound; the address test of the
  source decides when it stops.
\<close>

unbundle bit_operations_syntax

section \<open>State\<close>

record vm = kmem +
  kernel_pagetable :: u64
  etext :: u64
  trampoline :: u64

section \<open>walk\<close>

definition pte_addr :: "u64 \<Rightarrow> nat \<Rightarrow> u64 \<Rightarrow> u64" where
  "pte_addr pagetable level va = pagetable + 8 * PX level va"

text \<open>The loop of \<^verbatim>\<open>walk\<close> from \<open>level\<close> down; it returns the address of the last-level entry, or 0.\<close>

primrec walk_from :: "nat \<Rightarrow> u64 \<Rightarrow> u64 \<Rightarrow> bool \<Rightarrow> ('a kmem_scheme, u64) kmon" where
  "walk_from 0 pagetable va alloc = kret (pte_addr pagetable 0 va)"
| "walk_from (Suc l) pagetable va alloc = (\<lambda>s.
     let pte = pte_addr pagetable (Suc l) va; e = ld64 (mem s) pte in
     if e AND PTE_V \<noteq> 0 then walk_from l (PTE2PA e) va alloc s
     else if \<not> alloc then Ret 0 s
     else kbind kalloc (\<lambda>pt.
       if pt = 0 then kret 0
       else kthen (kmod (upd_mem (memset pt 0 4096)))
              (kthen (kmod (upd_mem (\<lambda>m. sd64 m pte (PA2PTE pt OR PTE_V))))
                 (walk_from l pt va alloc))) s)"

definition walk :: "u64 \<Rightarrow> u64 \<Rightarrow> bool \<Rightarrow> ('a kmem_scheme, u64) kmon" where
  "walk pagetable va alloc = kthen (kguard (\<not> va \<ge> MAXVA) ''walk'') (walk_from 2 pagetable va alloc)"

definition walkaddr :: "u64 \<Rightarrow> u64 \<Rightarrow> ('a kmem_scheme, u64) kmon" where
  "walkaddr pagetable va =
     (if va \<ge> MAXVA then kret 0
      else kbind (walk pagetable va False) (\<lambda>pte. \<lambda>s.
        if pte = 0 then Ret 0 s
        else let e = ld64 (mem s) pte in
          if e AND PTE_V = 0 then Ret 0 s
          else if e AND PTE_U = 0 then Ret 0 s
          else Ret (PTE2PA e) s))"

definition ismapped :: "u64 \<Rightarrow> u64 \<Rightarrow> ('a kmem_scheme, bool) kmon" where
  "ismapped pagetable va = kbind (walk pagetable va False) (\<lambda>pte. \<lambda>s.
     if pte = 0 then Ret False s else Ret (ld64 (mem s) pte AND PTE_V \<noteq> 0) s)"

section \<open>Mapping and unmapping\<close>

primrec mappages_loop :: "nat \<Rightarrow> u64 \<Rightarrow> u64 \<Rightarrow> u64 \<Rightarrow> u64 \<Rightarrow> u64 \<Rightarrow> ('a kmem_scheme, int) kmon" where
  "mappages_loop 0 pagetable a lastva pa perm = kret 0"
| "mappages_loop (Suc n) pagetable a lastva pa perm =
     kbind (walk pagetable a True) (\<lambda>pte.
       if pte = 0 then kret (- 1)
       else kbind (kget (\<lambda>s. ld64 (mem s) pte)) (\<lambda>e.
         kthen (kguard (e AND PTE_V = 0) ''mappages: remap'')
           (kthen (kmod (upd_mem (\<lambda>m. sd64 m pte (PA2PTE pa OR perm OR PTE_V))))
             (if a = lastva then kret 0
              else mappages_loop n pagetable (a + PGSIZE) lastva (pa + PGSIZE) perm))))"

definition mappages :: "u64 \<Rightarrow> u64 \<Rightarrow> u64 \<Rightarrow> u64 \<Rightarrow> u64 \<Rightarrow> ('a kmem_scheme, int) kmon" where
  "mappages pagetable va sz pa perm =
     kthen (kguard (va mod PGSIZE = 0) ''mappages: va not aligned'')
      (kthen (kguard (sz mod PGSIZE = 0) ''mappages: size not aligned'')
       (kthen (kguard (sz \<noteq> 0) ''mappages: size'')
         (mappages_loop (unat sz div 4096) pagetable va (va + sz - PGSIZE) pa perm)))"

definition kvmmap :: "u64 \<Rightarrow> u64 \<Rightarrow> u64 \<Rightarrow> u64 \<Rightarrow> u64 \<Rightarrow> ('a kmem_scheme, unit) kmon" where
  "kvmmap kpgtbl va pa sz perm =
     kbind (mappages kpgtbl va sz pa perm) (\<lambda>r. kguard (r = 0) ''kvmmap'')"

definition uvmcreate :: "('a kmem_scheme, u64) kmon" where
  "uvmcreate = kbind kalloc (\<lambda>pagetable.
     if pagetable = 0 then kret 0
     else kthen (kmod (upd_mem (memset pagetable 0 4096))) (kret pagetable))"

primrec uvmunmap_loop :: "nat \<Rightarrow> u64 \<Rightarrow> u64 \<Rightarrow> u64 \<Rightarrow> bool \<Rightarrow> ('a kmem_scheme, unit) kmon" where
  "uvmunmap_loop 0 pagetable a lastva do_free = kret ()"
| "uvmunmap_loop (Suc n) pagetable a lastva do_free =
     (if \<not> a < lastva then kret ()
      else kbind (walk pagetable a False) (\<lambda>pte.
        if pte = 0 then uvmunmap_loop n pagetable (a + PGSIZE) lastva do_free
        else kbind (kget (\<lambda>s. ld64 (mem s) pte)) (\<lambda>e.
          if e AND PTE_V = 0 then uvmunmap_loop n pagetable (a + PGSIZE) lastva do_free
          else kthen (kwhen do_free (kfree (PTE2PA e)))
                 (kthen (kmod (upd_mem (\<lambda>m. sd64 m pte 0)))
                   (uvmunmap_loop n pagetable (a + PGSIZE) lastva do_free)))))"

definition uvmunmap :: "u64 \<Rightarrow> u64 \<Rightarrow> u64 \<Rightarrow> bool \<Rightarrow> ('a kmem_scheme, unit) kmon" where
  "uvmunmap pagetable va npages do_free =
     kthen (kguard (va mod PGSIZE = 0) ''uvmunmap: not aligned'')
       (uvmunmap_loop (unat npages) pagetable va (va + npages * PGSIZE) do_free)"

section \<open>Releasing the page tables of a removed mapping\<close>

definition pagetable_empty :: "memory \<Rightarrow> u64 \<Rightarrow> bool" where
  "pagetable_empty m pagetable \<longleftrightarrow>
     list_all (\<lambda>i. ld64 m (pagetable + 8 * of_nat i) AND PTE_V = 0) [0..<512]"

definition pte_points_to_pagetable :: "u64 \<Rightarrow> bool" where
  "pte_points_to_pagetable pte \<longleftrightarrow> pte AND PTE_V \<noteq> 0 \<and> pte AND (PTE_R OR PTE_W OR PTE_X) = 0"

definition next_pt_boundary :: "u64 \<Rightarrow> nat \<Rightarrow> u64" where
  "next_pt_boundary va level =
     (let sz = push_bit (PXSHIFT level) 1 in (va + sz) AND NOT (sz - 1))"

definition free_empty_mmap_l0 :: "u64 \<Rightarrow> u64 \<Rightarrow> ('a kmem_scheme, unit) kmon" where
  "free_empty_mmap_l0 pagetable va s =
     (let pte2 = pte_addr pagetable 2 va; e2 = ld64 (mem s) pte2 in
      if \<not> pte_points_to_pagetable e2 then Ret () s
      else let l1 = PTE2PA e2; pte1 = pte_addr l1 1 va; e1 = ld64 (mem s) pte1 in
        if \<not> pte_points_to_pagetable e1 then Ret () s
        else let l0 = PTE2PA e1 in
          if pagetable_empty (mem s) l0
          then kthen (kfree l0) (kmod (upd_mem (\<lambda>m. sd64 m pte1 0))) s
          else Ret () s)"

definition free_empty_mmap_l1 :: "u64 \<Rightarrow> u64 \<Rightarrow> ('a kmem_scheme, unit) kmon" where
  "free_empty_mmap_l1 pagetable va s =
     (let pte2 = pte_addr pagetable 2 va; e2 = ld64 (mem s) pte2 in
      if \<not> pte_points_to_pagetable e2 then Ret () s
      else let l1 = PTE2PA e2 in
        if pagetable_empty (mem s) l1
        then kthen (kfree l1) (kmod (upd_mem (\<lambda>m. sd64 m pte2 0))) s
        else Ret () s)"

text \<open>Both loops of \<^verbatim>\<open>free_empty_mmap_pagetables\<close> step from table boundary to table boundary.\<close>

primrec each_pt_boundary ::
    "nat \<Rightarrow> (u64 \<Rightarrow> ('a kmem_scheme, unit) kmon) \<Rightarrow> nat \<Rightarrow> u64 \<Rightarrow> u64 \<Rightarrow> ('a kmem_scheme, unit) kmon" where
  "each_pt_boundary 0 f level va lastva = kret ()"
| "each_pt_boundary (Suc n) f level va lastva =
     (if \<not> va < lastva then kret ()
      else let nxt = next_pt_boundary va level in
        kthen (f va)
          (each_pt_boundary n f level (if nxt > va \<and> nxt < lastva then nxt else lastva) lastva))"

definition free_empty_mmap_pagetables :: "u64 \<Rightarrow> u64 \<Rightarrow> u64 \<Rightarrow> ('a kmem_scheme, unit) kmon" where
  "free_empty_mmap_pagetables pagetable start len =
     (let lastva = start + len; n = unat len div 2097152 + 2 in
      kthen (each_pt_boundary n (free_empty_mmap_l0 pagetable) 1 start lastva)
            (each_pt_boundary n (free_empty_mmap_l1 pagetable) 2 start lastva))"

section \<open>Growing, shrinking, freeing and copying an address space\<close>

definition uvmdealloc :: "u64 \<Rightarrow> u64 \<Rightarrow> u64 \<Rightarrow> ('a kmem_scheme, u64) kmon" where
  "uvmdealloc pagetable oldsz newsz =
     (if newsz \<ge> oldsz then kret oldsz
      else kthen
        (kwhen (PGROUNDUP newsz < PGROUNDUP oldsz)
           (let npages = i32_of_u64 ((PGROUNDUP oldsz - PGROUNDUP newsz) div PGSIZE)
            in uvmunmap pagetable (PGROUNDUP newsz) (u64_of_int npages) True))
        (kret newsz))"

primrec uvmalloc_loop :: "nat \<Rightarrow> u64 \<Rightarrow> u64 \<Rightarrow> u64 \<Rightarrow> u64 \<Rightarrow> u64 \<Rightarrow> ('a kmem_scheme, u64) kmon" where
  "uvmalloc_loop 0 pagetable oldsz a newsz xperm = kret newsz"
| "uvmalloc_loop (Suc n) pagetable oldsz a newsz xperm =
     (if \<not> a < newsz then kret newsz
      else kbind kalloc (\<lambda>mm.
        if mm = 0 then kbind (uvmdealloc pagetable a oldsz) (\<lambda>_. kret 0)
        else kthen (kmod (upd_mem (memset mm 0 4096)))
          (kbind (mappages pagetable a PGSIZE mm (PTE_R OR PTE_U OR xperm)) (\<lambda>r.
             if r \<noteq> 0 then kthen (kfree mm) (kbind (uvmdealloc pagetable a oldsz) (\<lambda>_. kret 0))
             else uvmalloc_loop n pagetable oldsz (a + PGSIZE) newsz xperm))))"

definition uvmalloc :: "u64 \<Rightarrow> u64 \<Rightarrow> u64 \<Rightarrow> u64 \<Rightarrow> ('a kmem_scheme, u64) kmon" where
  "uvmalloc pagetable oldsz newsz xperm =
     (if newsz < oldsz then kret oldsz
      else let old = PGROUNDUP oldsz in
        uvmalloc_loop ((unat newsz - unat old + 4095) div 4096) pagetable old old newsz xperm)"

text \<open>
  \<^verbatim>\<open>freewalk\<close> recurses once per level of the tree; the bound \<open>d\<close> is the number of levels, and running
  out of it is reported as a panic of its own.
\<close>

primrec freewalk :: "nat \<Rightarrow> u64 \<Rightarrow> ('a kmem_scheme, unit) kmon" where
  "freewalk 0 pagetable = kpanic ''freewalk: depth''"
| "freewalk (Suc d) pagetable =
     kthen (kforeach (\<lambda>i.
         kbind (kget (\<lambda>s. ld64 (mem s) (pagetable + 8 * of_nat i))) (\<lambda>pte.
           if pte AND PTE_V \<noteq> 0 \<and> pte AND (PTE_R OR PTE_W OR PTE_X) = 0
           then kthen (freewalk d (PTE2PA pte))
                  (kmod (upd_mem (\<lambda>m. sd64 m (pagetable + 8 * of_nat i) 0)))
           else kguard (pte AND PTE_V = 0) ''freewalk: leaf'')) [0..<512])
       (kfree pagetable)"

definition uvmfree :: "u64 \<Rightarrow> u64 \<Rightarrow> ('a kmem_scheme, unit) kmon" where
  "uvmfree pagetable sz =
     kthen (kwhen (sz > 0) (uvmunmap pagetable 0 (PGROUNDUP sz div PGSIZE) True))
       (freewalk 3 pagetable)"

primrec uvmcopy_loop :: "nat \<Rightarrow> u64 \<Rightarrow> u64 \<Rightarrow> u64 \<Rightarrow> u64 \<Rightarrow> ('a kmem_scheme, int) kmon" where
  "uvmcopy_loop 0 old new i sz = kret 0"
| "uvmcopy_loop (Suc n) old new i sz =
     (if \<not> i < sz then kret 0
      else kbind (walk old i False) (\<lambda>pte.
        if pte = 0 then uvmcopy_loop n old new (i + PGSIZE) sz
        else kbind (kget (\<lambda>s. ld64 (mem s) pte)) (\<lambda>e.
          if e AND PTE_V = 0 then uvmcopy_loop n old new (i + PGSIZE) sz
          else kbind kalloc (\<lambda>mm.
            if mm = 0 then kthen (uvmunmap new 0 (i div PGSIZE) True) (kret (- 1))
            else kthen (kmod (upd_mem (memmove mm (PTE2PA e) 4096)))
              (kbind (mappages new i PGSIZE mm (PTE_FLAGS e)) (\<lambda>r.
                 if r \<noteq> 0
                 then kthen (kfree mm) (kthen (uvmunmap new 0 (i div PGSIZE) True) (kret (- 1)))
                 else uvmcopy_loop n old new (i + PGSIZE) sz))))))"

definition uvmcopy :: "u64 \<Rightarrow> u64 \<Rightarrow> u64 \<Rightarrow> ('a kmem_scheme, int) kmon" where
  "uvmcopy old new sz = uvmcopy_loop ((unat sz + 4095) div 4096) old new 0 sz"

definition uvmclear :: "u64 \<Rightarrow> u64 \<Rightarrow> ('a kmem_scheme, unit) kmon" where
  "uvmclear pagetable va = kbind (walk pagetable va False) (\<lambda>pte.
     kthen (kguard (pte \<noteq> 0) ''uvmclear'')
       (kmod (upd_mem (\<lambda>m. sd64 m pte (ld64 m pte AND NOT PTE_U)))))"

section \<open>The kernel's address space\<close>

definition proc_mapstacks :: "u64 \<Rightarrow> ('a kmem_scheme, unit) kmon" where
  "proc_mapstacks kpgtbl = (\<lambda>s. kforeach (\<lambda>i.
     kbind kalloc (\<lambda>pa.
       kthen (kguard (pa \<noteq> 0) ''kalloc'')
         (kvmmap kpgtbl (KSTACK i) pa PGSIZE (PTE_R OR PTE_W)))) [0..<length (procs s)] s)"

text \<open>\<^verbatim>\<open>kvmmake\<close> does not test the result of its \<^verbatim>\<open>kalloc\<close>.\<close>

definition kvmmake :: "('a vm_scheme, u64) kmon" where
  "kvmmake = kbind kalloc (\<lambda>kpgtbl.
     kthen (kmod (upd_mem (memset kpgtbl 0 4096)))
      (kthen (kvmmap kpgtbl UART0 UART0 PGSIZE (PTE_R OR PTE_W))
      (kthen (kvmmap kpgtbl VIRTIO0 VIRTIO0 PGSIZE (PTE_R OR PTE_W))
      (kthen (kvmmap kpgtbl PLIC PLIC 0x4000000 (PTE_R OR PTE_W))
      (kthen (\<lambda>s. kvmmap kpgtbl KERNBASE KERNBASE (etext s - KERNBASE) (PTE_R OR PTE_X) s)
      (kthen (\<lambda>s. kvmmap kpgtbl (etext s) (etext s) (PHYSTOP - etext s) (PTE_R OR PTE_W) s)
      (kthen (\<lambda>s. kvmmap kpgtbl TRAMPOLINE (trampoline s) PGSIZE (PTE_R OR PTE_X) s)
      (kthen (proc_mapstacks kpgtbl)
        (kret kpgtbl)))))))))"

definition kvminit :: "('a vm_scheme, unit) kmon" where
  "kvminit = kbind kvmmake (\<lambda>k. kmod (\<lambda>s. s\<lparr>kernel_pagetable := k\<rparr>))"

end
