(* ===== verification/PtTree.thy ===== *)
theory PtTree
  imports Pagetable
begin

text \<open>
  Page tables are correct: the tree that the entries spell out in memory, the invariant that ties it to
  the allocator, and the effect of \<^verbatim>\<open>walk\<close>, \<^verbatim>\<open>mappages\<close>, \<^verbatim>\<open>walkaddr\<close> and \<^verbatim>\<open>uvmunmap\<close> on the map from virtual
  addresses to last-level entries. Every lemma on an operation says which look-ups change, which pages
  move between the free list and the tree, and that no other memory is written.
\<close>

unbundle bit_operations_syntax

section \<open>Specification\<close>

text \<open>
  The tree a page table spells out in memory: \<open>ptnode m p is\<close> is the page-table page reached from
  \<open>p\<close> through the entries \<open>is\<close>, if they are all valid.
\<close>

definition pte :: "memory \<Rightarrow> u64 \<Rightarrow> nat \<Rightarrow> u64" where
  "pte m p i = ld64 m (p + 8 * of_nat i)"

primrec ptnode :: "memory \<Rightarrow> u64 \<Rightarrow> nat list \<Rightarrow> u64 option" where
  "ptnode m p [] = Some p"
| "ptnode m p (i # is) = (if pte m p i AND PTE_V \<noteq> 0 then ptnode m (PTE2PA (pte m p i)) is else None)"

definition pt_path :: "nat list \<Rightarrow> bool" where
  "pt_path is \<longleftrightarrow> length is \<le> 2 \<and> (\<forall>i\<in>set is. i < 512)"

definition pt_pages :: "memory \<Rightarrow> u64 \<Rightarrow> u64 set" where
  "pt_pages m root = {p. \<exists>is. pt_path is \<and> ptnode m root is = Some p}"

text \<open>A well-formed tree: every page is a managed page, and no page is reached along two paths.\<close>

definition pt_tree :: "memory \<Rightarrow> u64 \<Rightarrow> u64 \<Rightarrow> bool" where
  "pt_tree m ke root \<longleftrightarrow> KERNBASE \<le> ke \<and> (\<forall>p\<in>pt_pages m root. page_ok ke p) \<and>
     (\<forall>is js p. pt_path is \<longrightarrow> pt_path js \<longrightarrow> ptnode m root is = Some p \<longrightarrow> ptnode m root js = Some p \<longrightarrow> is = js)"

definition pidx :: "nat \<Rightarrow> u64 \<Rightarrow> nat" where
  "pidx l va = unat (PX l va)"

text \<open>The last-level entry of a virtual address, 0 if there is no last-level table for it.\<close>

definition pt_lookup :: "memory \<Rightarrow> u64 \<Rightarrow> u64 \<Rightarrow> u64" where
  "pt_lookup m root va = (case ptnode m root [pidx 2 va, pidx 1 va] of
     None \<Rightarrow> 0 | Some l0 \<Rightarrow> pte m l0 (pidx 0 va))"

text \<open>The tree together with the allocator: no table page is free.\<close>

definition pt_inv :: "'a kmem_scheme \<Rightarrow> u64 \<Rightarrow> u64 list \<Rightarrow> bool" where
  "pt_inv s root xs \<longleftrightarrow> kmem_inv s xs \<and> pt_tree (mem s) (kend s) root \<and> pt_pages (mem s) root \<inter> set xs = {}"

text \<open>
  What creating table pages may do to the state: it takes pages \<open>ys\<close> from the front of the free list
  for the tree, changes no look-up, and writes only to pages of the tree.
\<close>

definition pt_ext :: "u64 \<Rightarrow> 'a kmem_scheme \<Rightarrow> u64 list \<Rightarrow> 'a kmem_scheme \<Rightarrow> u64 list \<Rightarrow> bool" where
  "pt_ext root s xs s' xs' \<longleftrightarrow> pt_inv s' root xs' \<and>
     (\<exists>ys. xs = ys @ xs' \<and> pt_pages (mem s') root = set ys \<union> pt_pages (mem s) root \<and>
        refs s' = (\<lambda>x. if x \<in> set ys then 1 else refs s x)) \<and>
     (\<forall>va. pt_lookup (mem s') root va = pt_lookup (mem s) root va) \<and>
     (\<forall>a. (\<forall>p\<in>pt_pages (mem s') root. page_of a \<noteq> page_of p) \<longrightarrow> mem s' a = mem s a) \<and>
     (\<exists>m fl rc. s' = s\<lparr>freelist := fl, refcnt := rc, mem := m\<rparr>)"

text \<open>The address of the last-level entry of \<open>va\<close>, 0 if the tables for it are missing.\<close>

definition leaf_addr :: "memory \<Rightarrow> u64 \<Rightarrow> u64 \<Rightarrow> u64" where
  "leaf_addr m root va = (case ptnode m root [pidx 2 va, pidx 1 va] of
     None \<Rightarrow> 0 | Some l0 \<Rightarrow> l0 + 8 * of_nat (pidx 0 va))"

text \<open>
  As \<open>pt_ext\<close>, but the look-ups of the page-aligned addresses afterwards are given by \<open>f\<close>.
\<close>

definition pt_chg :: "u64 \<Rightarrow> 'a kmem_scheme \<Rightarrow> u64 list \<Rightarrow> 'a kmem_scheme \<Rightarrow> u64 list \<Rightarrow> (u64 \<Rightarrow> u64) \<Rightarrow> bool" where
  "pt_chg root s xs s' xs' f \<longleftrightarrow> pt_inv s' root xs' \<and>
     (\<exists>ys. xs = ys @ xs' \<and> pt_pages (mem s') root = set ys \<union> pt_pages (mem s) root \<and>
        refs s' = (\<lambda>x. if x \<in> set ys then 1 else refs s x)) \<and>
     (\<forall>va. va < MAXVA \<longrightarrow> pg_aligned va \<longrightarrow> pt_lookup (mem s') root va = f va) \<and>
     (\<forall>a. (\<forall>p\<in>pt_pages (mem s') root. page_of a \<noteq> page_of p) \<longrightarrow> mem s' a = mem s a) \<and>
     (\<exists>m fl rc. s' = s\<lparr>freelist := fl, refcnt := rc, mem := m\<rparr>)"

text \<open>The look-ups after \<open>j\<close> pages from \<open>a\<close> on have been mapped to the pages from \<open>pa\<close> on.\<close>

definition map_run :: "u64 \<Rightarrow> u64 \<Rightarrow> u64 \<Rightarrow> nat \<Rightarrow> (u64 \<Rightarrow> u64) \<Rightarrow> u64 \<Rightarrow> u64" where
  "map_run a pa perm j f va =
     (if unat a \<le> unat va \<and> unat va < unat a + 4096 * j then PA2PTE (pa + (va - a)) OR perm OR PTE_V else f va)"

text \<open>
  What removing mappings does: the tree keeps its pages, the look-ups become \<open>f\<close>, every frame in \<open>D\<close>
  loses one reference, and those that had only one go to the free list.
\<close>

definition pt_rel :: "u64 \<Rightarrow> 'a kmem_scheme \<Rightarrow> u64 list \<Rightarrow> 'a kmem_scheme \<Rightarrow> u64 list \<Rightarrow> (u64 \<Rightarrow> u64) \<Rightarrow> u64 set \<Rightarrow> bool" where
  "pt_rel root s xs s' xs' f D \<longleftrightarrow> pt_inv s' root xs' \<and> pt_pages (mem s') root = pt_pages (mem s) root \<and>
     (\<forall>va. va < MAXVA \<longrightarrow> pg_aligned va \<longrightarrow> pt_lookup (mem s') root va = f va) \<and>
     (\<forall>x. refs s' x = refs s x - (if x \<in> D then 1 else 0)) \<and>
     set xs' = set xs \<union> {x \<in> D. refs s x = 1} \<and>
     (\<forall>a. (\<forall>p\<in>pt_pages (mem s) root \<union> {x \<in> D. refs s x = 1}. page_of a \<noteq> page_of p) \<longrightarrow> mem s' a = mem s a) \<and>
     (\<exists>m fl rc. s' = s\<lparr>freelist := fl, refcnt := rc, mem := m\<rparr>)"

text \<open>The \<open>i\<close>-th page from \<open>a\<close> on, the frames mapped in \<open>n\<close> pages, and the look-ups once they are unmapped.\<close>

definition nth_page :: "u64 \<Rightarrow> nat \<Rightarrow> u64" where
  "nth_page a i = a + of_nat (4096 * i)"

definition frames :: "(u64 \<Rightarrow> u64) \<Rightarrow> u64 \<Rightarrow> nat \<Rightarrow> u64 set" where
  "frames f a n = {PTE2PA (f (nth_page a i)) |i. i < n \<and> f (nth_page a i) AND PTE_V \<noteq> 0}"

definition frames_distinct :: "(u64 \<Rightarrow> u64) \<Rightarrow> u64 \<Rightarrow> nat \<Rightarrow> bool" where
  "frames_distinct f a n \<longleftrightarrow> (\<forall>i<n. \<forall>j<n. f (nth_page a i) AND PTE_V \<noteq> 0 \<longrightarrow> f (nth_page a j) AND PTE_V \<noteq> 0 \<longrightarrow>
     PTE2PA (f (nth_page a i)) = PTE2PA (f (nth_page a j)) \<longrightarrow> i = j)"

definition unmap_run :: "u64 \<Rightarrow> nat \<Rightarrow> (u64 \<Rightarrow> u64) \<Rightarrow> u64 \<Rightarrow> u64" where
  "unmap_run a n f va = (if unat a \<le> unat va \<and> unat va < unat a + 4096 * n \<and> f va AND PTE_V \<noteq> 0 then 0 else f va)"

text \<open>
  The conditions under which \<^verbatim>\<open>uvmunmap\<close> may free the frames of \<open>n\<close> pages: each has an owner and none
  is a page of the tree.
\<close>

definition unmap_safe :: "'a kmem_scheme \<Rightarrow> u64 \<Rightarrow> u64 \<Rightarrow> nat \<Rightarrow> bool" where
  "unmap_safe s root a n \<longleftrightarrow> frames_distinct (pt_lookup (mem s) root) a n \<and>
     (\<forall>x\<in>frames (pt_lookup (mem s) root) a n. 1 \<le> refs s x \<and> x \<notin> pt_pages (mem s) root)"

section \<open>Entries in memory\<close>

lemma pidx_less [simp]: "pidx l va < 512"
  using PX_less [of l va] by (simp add: pidx_def word_less_nat_alt)

lemma pte_addr_pidx: "pte_addr p l va = p + 8 * of_nat (pidx l va)"
  by (simp add: pte_addr_def pidx_def)

lemma pte_off: "p + 8 * of_nat i = p + of_nat (8 * i)" for p :: u64
  by simp

lemma pte_at_page:
  "\<lbrakk>pg_aligned p; i < 512; page_of a \<noteq> page_of p\<rbrakk> \<Longrightarrow> sd64 m (p + 8 * of_nat i) v a = m a"
  unfolding pte_off by (rule sd64_page) auto

lemma pte_cong:
  "\<lbrakk>pg_aligned p; i < 512; \<And>a. page_of a = page_of p \<Longrightarrow> m a = m' a\<rbrakk> \<Longrightarrow> pte m p i = pte m' p i"
  unfolding pte_def pte_off by (rule ld64_page_cong) auto

lemma pte_sd64_same [simp]: "pte (sd64 m (p + 8 * of_nat i) v) p i = v"
  by (simp add: pte_def)

lemma pte_sd64_other:
  assumes "pg_aligned p" "pg_aligned q" "i < 512" "j < 512" "p \<noteq> q \<or> i \<noteq> j"
  shows "pte (sd64 m (p + 8 * of_nat i) v) q j = pte m q j"
proof (cases "p = q")
  case False
  then have "page_of q \<noteq> page_of p" using assms(1,2) page_of_inj by metis
  then show ?thesis using assms by (intro pte_cong) (simp_all add: pte_at_page)
next
  case True
  then have ij: "i \<noteq> j" using assms(5) by simp
  have b: "unat p + 4096 \<le> 2 ^ 64"
  proof -
    obtain k where k: "unat p = 4096 * k" using pg_aligned_mult [OF assms(1)] by blast
    then show ?thesis using unat_lt64 [of p] by simp
  qed
  show ?thesis unfolding pte_def pte_off True
  proof (rule ld64_cong)
    fix t :: nat assume t: "t < 8"
    define A where "A = q + of_nat (8 * i)"
    define B where "B = q + of_nat (8 * j) + of_nat t"
    have u1: "unat B = unat q + (8 * j + t)"
      using b t assms(4) True unat_plus_nat [of q "8 * j + t"] by (simp add: add.assoc B_def)
    have u2: "unat A = unat q + 8 * i"
      unfolding A_def using b assms(3) True by (intro unat_plus_nat) simp
    then have "unat A + 8 \<le> 2 ^ 64" using b assms(3) True by simp
    then have "\<not> unat (B - A) < 8" using t ij by (simp add: unat_offset u1 u2)
    then have "\<not> unat (q + of_nat (8 * j) + of_nat t - (q + of_nat (8 * i))) < 8"
      unfolding A_def B_def .
    then show "sd64 m (q + of_nat (8 * i)) v (q + of_nat (8 * j) + of_nat t) = m (q + of_nat (8 * j) + of_nat t)"
      by (simp add: sd64_def)
  qed
qed

lemma pte_memset0:
  assumes "pg_aligned p" "i < 512"
  shows "pte (memset p 0 4096 m) p i = 0"
proof -
  have "pte (memset p 0 4096 m) p i = pte (\<lambda>_. 0) p i"
    by (rule pte_cong) (use assms in \<open>simp_all add: memset_page\<close>)
  then show ?thesis by (simp add: pte_def ld64_def)
qed

section \<open>The tree\<close>

lemma ptnode_append: "ptnode m p (is @ js) = (case ptnode m p is of None \<Rightarrow> None | Some q \<Rightarrow> ptnode m q js)"
  by (induction "is" arbitrary: p) simp_all

lemma ptnode_snoc: "ptnode m p (is @ [i]) = (case ptnode m p is of None \<Rightarrow> None
    | Some q \<Rightarrow> if pte m q i AND PTE_V \<noteq> 0 then Some (PTE2PA (pte m q i)) else None)"
  by (simp add: ptnode_append split: option.split)

lemma pt_path_snoc: "pt_path (is @ [i]) \<Longrightarrow> pt_path is \<and> i < 512"
  by (auto simp: pt_path_def)

lemma pt_pagesI: "\<lbrakk>pt_path is; ptnode m root is = Some p\<rbrakk> \<Longrightarrow> p \<in> pt_pages m root"
  by (auto simp: pt_pages_def)

lemma pt_path_Nil [simp]: "pt_path []"
  by (simp add: pt_path_def)

lemma pt_path_pidx [simp]: "pt_path [pidx a va, pidx b va]" "pt_path [pidx a va]"
  by (simp_all add: pt_path_def)

lemma pt_treeD:
  assumes "pt_tree m ke root"
  shows "KERNBASE \<le> ke" "p \<in> pt_pages m root \<Longrightarrow> page_ok ke p"
    "\<lbrakk>pt_path is; pt_path js; ptnode m root is = Some p; ptnode m root js = Some p\<rbrakk> \<Longrightarrow> is = js"
  using assms unfolding pt_tree_def by blast+

lemma pt_page_aligned: "\<lbrakk>pt_tree m ke root; p \<in> pt_pages m root\<rbrakk> \<Longrightarrow> pg_aligned p"
  using pt_treeD(1,2) page_okD(1) by blast

text \<open>Memory outside the tree does not matter.\<close>

lemma ptnode_frame:
  assumes "pt_tree m ke root" "\<And>p a. p \<in> pt_pages m root \<Longrightarrow> page_of a = page_of p \<Longrightarrow> m' a = m a"
  shows "pt_path is \<Longrightarrow> ptnode m' root is = ptnode m root is"
proof (induction "is" rule: rev_induct)
  case (snoc i "is")
  then have P: "pt_path is" "i < 512" using pt_path_snoc by auto
  have "pte m' q i = pte m q i" if "ptnode m root is = Some q" for q
  proof -
    have "q \<in> pt_pages m root" using that P(1) by (rule pt_pagesI [rotated])
    then show ?thesis using P(2) assms pt_page_aligned by (intro pte_cong) auto
  qed
  then show ?case using snoc.IH [OF P(1)] by (simp add: ptnode_snoc split: option.split)
qed simp

lemma pt_frame:
  assumes "pt_tree m ke root" "\<And>p a. p \<in> pt_pages m root \<Longrightarrow> page_of a = page_of p \<Longrightarrow> m' a = m a"
  shows "pt_pages m' root = pt_pages m root" "pt_tree m' ke root" "pt_lookup m' root va = pt_lookup m root va"
proof -
  have n: "ptnode m' root is = ptnode m root is" if "pt_path is" for "is"
    using assms that by (rule ptnode_frame)
  show p: "pt_pages m' root = pt_pages m root" using n by (auto simp: pt_pages_def)
  show "pt_tree m' ke root" using assms(1) n unfolding pt_tree_def p by auto
  have "pte m' l0 (pidx 0 va) = pte m l0 (pidx 0 va)"
    if "ptnode m root [pidx 2 va, pidx 1 va] = Some l0" for l0
  proof -
    have "l0 \<in> pt_pages m root" using that by (rule pt_pagesI [rotated]) simp
    then show ?thesis using assms pt_page_aligned by (intro pte_cong) auto
  qed
  then show "pt_lookup m' root va = pt_lookup m root va"
    using n [of "[pidx 2 va, pidx 1 va]"] by (simp add: pt_lookup_def del: ptnode.simps split: option.split)
qed

section \<open>Writing an entry\<close>

lemma ptnode_write:
  assumes "pt_tree m ke root" "pt_path path" "ptnode m root path = Some p0" "k < 512"
  shows "\<lbrakk>pt_path js; take (Suc (length path)) js \<noteq> path @ [k]\<rbrakk> \<Longrightarrow>
    ptnode (sd64 m (p0 + 8 * of_nat k) v) root js = ptnode m root js"
proof (induction js rule: rev_induct)
  case (snoc i "is")
  then have P: "pt_path is" "i < 512" using pt_path_snoc by auto
  have "take (Suc (length path)) is \<noteq> path @ [k]"
  proof
    assume *: "take (Suc (length path)) is = path @ [k]"
    then have "Suc (length path) \<le> length is" by (metis length_append_singleton length_take min.cobounded1 min_def)
    then show False using * snoc.prems by simp
  qed
  note IH = snoc.IH [OF P(1) this]
  have "pte (sd64 m (p0 + 8 * of_nat k) v) q i = pte m q i" if q: "ptnode m root is = Some q" for q
  proof (rule pte_sd64_other)
    show "pg_aligned p0" "pg_aligned q"
      using pt_page_aligned [OF assms(1)] pt_pagesI assms(2,3) P(1) q by blast+
    show "p0 \<noteq> q \<or> k \<noteq> i"
    proof (rule ccontr)
      assume "\<not> (p0 \<noteq> q \<or> k \<noteq> i)"
      then have "path = is" "k = i" using pt_treeD(3) [OF assms(1)] assms(2,3) P(1) q by auto
      then show False using snoc.prems(2) by simp
    qed
  qed (use assms P in auto)
  then show ?case using IH by (simp add: ptnode_snoc split: option.split)
qed simp

text \<open>Writing a last-level entry changes the look-up of that address only.\<close>

lemma leaf_write:
  fixes v :: u64
  assumes "pt_tree m ke root" "ptnode m root [pidx 2 va, pidx 1 va] = Some l0"
  defines "m' \<equiv> sd64 m (l0 + 8 * of_nat (pidx 0 va)) v"
  shows "pt_path is \<Longrightarrow> ptnode m' root is = ptnode m root is"
    and "pt_pages m' root = pt_pages m root" "pt_tree m' ke root"
    and "pt_lookup m' root vb = (if pidx 2 vb = pidx 2 va \<and> pidx 1 vb = pidx 1 va \<and> pidx 0 vb = pidx 0 va
           then v else pt_lookup m root vb)"
proof -
  have n: "ptnode m' root is = ptnode m root is" if "pt_path is" for "is"
    unfolding m'_def
    by (rule ptnode_write [OF assms(1) _ assms(2)])
      (use that in \<open>auto simp: pt_path_def dest: arg_cong [where f = length]\<close>)
  then show "pt_path is \<Longrightarrow> ptnode m' root is = ptnode m root is" .
  show p: "pt_pages m' root = pt_pages m root" using n by (auto simp: pt_pages_def)
  show "pt_tree m' ke root" using assms(1) n unfolding pt_tree_def p by auto
  have al: "pg_aligned q" if "ptnode m root [pidx 2 vc, pidx 1 vc] = Some q" for q vc
    using that pt_page_aligned [OF assms(1)] pt_pagesI pt_path_pidx(1) by blast
  show "pt_lookup m' root vb = (if pidx 2 vb = pidx 2 va \<and> pidx 1 vb = pidx 1 va \<and> pidx 0 vb = pidx 0 va
           then v else pt_lookup m root vb)"
  proof (cases "ptnode m root [pidx 2 vb, pidx 1 vb]")
    case None
    then show ?thesis using n [of "[pidx 2 vb, pidx 1 vb]"] assms(2)
      by (auto simp: pt_lookup_def simp del: ptnode.simps)
  next
    case (Some q)
    show ?thesis
    proof (cases "q = l0 \<and> pidx 0 vb = pidx 0 va")
      case True
      then have "[pidx 2 vb, pidx 1 vb] = [pidx 2 va, pidx 1 va]"
        using pt_treeD(3) [OF assms(1) _ _ Some, of "[pidx 2 va, pidx 1 va]"] assms(2) by simp
      then show ?thesis using True Some n [of "[pidx 2 vb, pidx 1 vb]"]
        by (simp add: pt_lookup_def m'_def del: ptnode.simps)
    next
      case False
      then have "pte m' q (pidx 0 vb) = pte m q (pidx 0 vb)"
        unfolding m'_def using al [OF Some] al [OF assms(2)] by (intro pte_sd64_other) auto
      moreover have "\<not> (pidx 2 vb = pidx 2 va \<and> pidx 1 vb = pidx 1 va \<and> pidx 0 vb = pidx 0 va)"
        using False Some assms(2) by (auto simp del: ptnode.simps)
      ultimately show ?thesis using Some n [of "[pidx 2 vb, pidx 1 vb]"]
        by (auto simp: pt_lookup_def simp del: ptnode.simps)
    qed
  qed
qed

lemma PTE_V_set: "(x OR PTE_V) AND PTE_V \<noteq> 0" for x :: u64
proof -
  have "bit ((x OR 1) AND 1) 0" by (simp add: bit_simps)
  then show ?thesis by (metis bit_0_eq bot_apply bot_bool_def)
qed

lemma PTE2PA_link: "page_ok ke q \<Longrightarrow> KERNBASE \<le> ke \<Longrightarrow> PTE2PA (PA2PTE q OR PTE_V) = q"
  by (rule PTE_pack) (auto dest: page_okD simp: word_less_nat_alt)

text \<open>Hanging a fresh, zeroed table page under an invalid entry changes no look-up.\<close>

lemma ptnode_link:
  assumes "pt_tree m ke root" "pt_path path" "length path \<le> 1" "ptnode m root path = Some p0" "k < 512"
    and "pte m p0 k AND PTE_V = 0" "page_ok ke q" "q \<notin> pt_pages m root"
    and "\<forall>i<512. pte m q i = 0" "pt_path js"
  defines "m' \<equiv> sd64 m (p0 + 8 * of_nat k) (PA2PTE q OR PTE_V)"
  shows "ptnode m' root js = (if take (Suc (length path)) js = path @ [k]
     then (if length js = Suc (length path) then Some q else None) else ptnode m root js)"
proof (cases "take (Suc (length path)) js = path @ [k]")
  case False
  then show ?thesis using ptnode_write [OF assms(1,2,4,5) assms(10)] by (simp add: m'_def)
next
  case True
  then obtain rest where js: "js = path @ [k] @ rest"
    by (metis append_assoc append_take_drop_id)
  have "pt_path path" "take (Suc (length path)) path \<noteq> path @ [k]" using assms(2) by auto
  then have "ptnode m' root path = Some p0"
    using ptnode_write [OF assms(1,2,4,5)] assms(4) by (simp add: m'_def)
  then have pk: "ptnode m' root (path @ [k]) = Some q"
    using PTE_V_set PTE2PA_link [OF assms(7) pt_treeD(1) [OF assms(1)]]
    by (simp add: ptnode_snoc m'_def)
  have al: "pg_aligned p0" "pg_aligned q" "p0 \<noteq> q"
    using pt_page_aligned [OF assms(1)] pt_pagesI [OF assms(2,4)] assms(7,8)
      page_okD(1) [OF assms(7) pt_treeD(1) [OF assms(1)]] by auto
  show ?thesis
  proof (cases rest)
    case Nil
    then show ?thesis using pk js by simp
  next
    case (Cons i r)
    then have "i < 512" using assms(10) js by (simp add: pt_path_def)
    then have "pte m' q i = 0" unfolding m'_def using assms(5,9) al by (simp add: pte_sd64_other)
    then have "ptnode m' q rest = None" using Cons by simp
    then show ?thesis using pk js Cons ptnode_append [of m' root "path @ [k]" rest] by simp
  qed
qed

lemma link_old_None:
  assumes "ptnode m root path = Some p0" "pte m p0 k AND PTE_V = 0"
    "take (Suc (length path)) js = path @ [k]"
  shows "ptnode m root js = None"
proof -
  obtain rest where "js = (path @ [k]) @ rest" using assms(3) by (metis append_take_drop_id)
  then show ?thesis using assms(1,2) by (simp add: ptnode_append)
qed

lemma link_write:
  assumes T: "pt_tree m ke root" "pt_path path" "length path \<le> 1" "ptnode m root path = Some p0" "k < 512"
    "pte m p0 k AND PTE_V = 0" "page_ok ke q" "q \<notin> pt_pages m root" "\<forall>i<512. pte m q i = 0"
  defines "m' \<equiv> sd64 m (p0 + 8 * of_nat k) (PA2PTE q OR PTE_V)"
  shows "ptnode m' root (path @ [k]) = Some q"
    and "pt_pages m' root = insert q (pt_pages m root)" "pt_tree m' ke root"
    and "pt_lookup m' root va = pt_lookup m root va"
proof -
  note N = ptnode_link [OF T, folded m'_def]
  have pk: "pt_path (path @ [k])" using assms(2,3,5) by (auto simp: pt_path_def)
  show q: "ptnode m' root (path @ [k]) = Some q" using N [OF pk] by simp
  have old: "ptnode m root js = None" if "take (Suc (length path)) js = path @ [k]" for js
    using link_old_None [OF assms(4,6) that] .
  have iff: "ptnode m' root js = Some p \<longleftrightarrow> js = path @ [k] \<and> p = q \<or> ptnode m root js = Some p"
    if "pt_path js" for js p
  proof (cases "take (Suc (length path)) js = path @ [k]")
    case True
    then have "length js = Suc (length path) \<longleftrightarrow> js = path @ [k]" by (metis length_append_singleton order_refl take_all)
    then show ?thesis using N [OF that] old [OF True] True by (simp split: if_splits) blast
  next
    case False
    then have "js \<noteq> path @ [k]" by auto
    then show ?thesis using N [OF that] False by simp
  qed
  show P: "pt_pages m' root = insert q (pt_pages m root)"
  proof (rule set_eqI)
    fix x
    have "x \<in> pt_pages m' root \<longleftrightarrow> (\<exists>js. pt_path js \<and> (js = path @ [k] \<and> x = q \<or> ptnode m root js = Some x))"
      by (simp add: pt_pages_def iff cong: conj_cong)
    also have "\<dots> \<longleftrightarrow> x = q \<or> (\<exists>js. pt_path js \<and> ptnode m root js = Some x)"
      using pk by metis
    finally show "x \<in> pt_pages m' root \<longleftrightarrow> x \<in> insert q (pt_pages m root)"
      by (simp add: pt_pages_def)
  qed
  show "pt_tree m' ke root" unfolding pt_tree_def P
  proof (intro conjI allI impI)
    show "KERNBASE \<le> ke" using pt_treeD(1) [OF assms(1)] .
    show "\<forall>p\<in>insert q (pt_pages m root). page_ok ke p" using assms(7) pt_treeD(2) [OF assms(1)] by blast
    fix "is" js p
    assume "pt_path is" "pt_path js" "ptnode m' root is = Some p" "ptnode m' root js = Some p"
    then have "is = path @ [k] \<and> p = q \<or> ptnode m root is = Some p"
      "js = path @ [k] \<and> p = q \<or> ptnode m root js = Some p" "pt_path is" "pt_path js"
      using iff by simp_all
    moreover have "ptnode m root ks \<noteq> Some q" if "pt_path ks" for ks
      using that assms(8) pt_pagesI by metis
    ultimately show "is = js" using pt_treeD(3) [OF assms(1), of "is" js p] by metis
  qed
  show "pt_lookup m' root va = pt_lookup m root va"
  proof -
    let ?js = "[pidx 2 va, pidx 1 va]"
    note I = iff [OF pt_path_pidx(1) [of 2 va 1]]
    have al: "pg_aligned p0" "pg_aligned q" "p0 \<noteq> q"
      using pt_page_aligned [OF assms(1)] pt_pagesI [OF assms(2,4)] assms(7,8)
        page_okD(1) [OF assms(7) pt_treeD(1) [OF assms(1)]] by auto
    show ?thesis
    proof (cases "ptnode m root ?js")
      case None
      show ?thesis
      proof (cases "ptnode m' root ?js")
        case None
        then show ?thesis using \<open>ptnode m root ?js = None\<close> by (simp add: pt_lookup_def del: ptnode.simps)
      next
        case (Some l0)
        then have "l0 = q" using I None by auto
        then have "pte m' l0 (pidx 0 va) = 0"
          unfolding m'_def using assms(5,9) al by (simp add: pte_sd64_other)
        then show ?thesis using Some None by (simp add: pt_lookup_def del: ptnode.simps)
      qed
    next
      case (Some l0)
      then have "ptnode m' root ?js = Some l0" using I by auto
      moreover have "l0 \<noteq> p0"
      proof
        assume "l0 = p0"
        then have "?js = path" using pt_treeD(3) [OF assms(1) pt_path_pidx(1) assms(2) Some] assms(4) by simp
        then show False using assms(3) by auto
      qed
      moreover have "pg_aligned l0" using pt_page_aligned [OF assms(1)] pt_pagesI [OF pt_path_pidx(1) Some] by blast
      ultimately have "pte m' l0 (pidx 0 va) = pte m l0 (pidx 0 va)"
        unfolding m'_def using al(1) assms(5) by (intro pte_sd64_other) auto
      then show ?thesis using Some \<open>ptnode m' root ?js = Some l0\<close> by (simp add: pt_lookup_def del: ptnode.simps)
    qed
  qed
qed

lemma pt_ext_refl: "pt_inv s root xs \<Longrightarrow> pt_ext root s xs s xs"
  unfolding pt_ext_def
  by (auto intro!: exI [of _ "mem s"] exI [of _ "freelist s"] exI [of _ "refcnt s"])

lemma pt_extD:
  assumes "pt_ext root s xs s' xs'"
  shows "pt_inv s' root xs'"
    "\<exists>ys. xs = ys @ xs' \<and> pt_pages (mem s') root = set ys \<union> pt_pages (mem s) root \<and>
        refs s' = (\<lambda>x. if x \<in> set ys then 1 else refs s x)"
    "pt_lookup (mem s') root va = pt_lookup (mem s) root va"
    "(\<And>p. p \<in> pt_pages (mem s') root \<Longrightarrow> page_of a \<noteq> page_of p) \<Longrightarrow> mem s' a = mem s a"
    "\<exists>m fl rc. s' = s\<lparr>freelist := fl, refcnt := rc, mem := m\<rparr>"
  using assms unfolding pt_ext_def by blast+

lemma pt_ext_trans:
  assumes "pt_ext root s xs s1 xs1" "pt_ext root s1 xs1 s2 xs2"
  shows "pt_ext root s xs s2 xs2"
proof -
  note D1 = pt_extD [OF assms(1)] and D2 = pt_extD [OF assms(2)]
  obtain ys where 1: "xs = ys @ xs1" "pt_pages (mem s1) root = set ys \<union> pt_pages (mem s) root"
      "refs s1 = (\<lambda>x. if x \<in> set ys then 1 else refs s x)" using D1(2) by blast
  obtain zs where 2: "xs1 = zs @ xs2" "pt_pages (mem s2) root = set zs \<union> pt_pages (mem s1) root"
      "refs s2 = (\<lambda>x. if x \<in> set zs then 1 else refs s1 x)" using D2(2) by blast
  obtain m fl rc m' fl' rc' where "s1 = s\<lparr>freelist := fl, refcnt := rc, mem := m\<rparr>"
      "s2 = s1\<lparr>freelist := fl', refcnt := rc', mem := m'\<rparr>" using D1(5) D2(5) by blast
  then have 3: "s2 = s\<lparr>freelist := fl', refcnt := rc', mem := m'\<rparr>" by simp
  show ?thesis unfolding pt_ext_def
  proof (intro conjI allI impI)
    show "pt_inv s2 root xs2" by (rule D2(1))
    show "\<exists>ws. xs = ws @ xs2 \<and> pt_pages (mem s2) root = set ws \<union> pt_pages (mem s) root \<and>
        refs s2 = (\<lambda>x. if x \<in> set ws then 1 else refs s x)"
      by (rule exI [of _ "ys @ zs"]) (simp add: 1 2 fun_eq_iff Un_ac)
    show "pt_lookup (mem s2) root va = pt_lookup (mem s) root va" for va
      by (simp only: D1(3) D2(3))
    show "mem s2 a = mem s a" if "\<forall>p\<in>pt_pages (mem s2) root. page_of a \<noteq> page_of p" for a
      using D1(4) [of a] D2(4) [of a] that 2(2) by simp
    show "\<exists>m fl rc. s2 = s\<lparr>freelist := fl, refcnt := rc, mem := m\<rparr>" using 3 by blast
  qed
qed

section \<open>walk\<close>

lemma walk_no_alloc: "va < MAXVA \<Longrightarrow> walk root va False s = Ret (leaf_addr (mem s) root va) s"
  by (simp add: walk_def kthen_def kbind_def kguard_def kret_def not_le numeral_2_eq_2 pte_addr_pidx
      leaf_addr_def pte_def Let_def)

lemma walk_high: "\<not> va < MAXVA \<Longrightarrow> walk root va alloc s = Panic ''walk''"
  by (simp add: walk_def kthen_def kbind_def kguard_def kpanic_def not_less)

lemma page_ok_offset_nonzero:
  assumes "page_ok ke p" "KERNBASE \<le> ke" "i < 512"
  shows "p + 8 * of_nat i \<noteq> 0"
proof -
  have "unat (p + of_nat (8 * i)) = unat p + 8 * i"
    by (rule unat_plus_nat) (use page_okD(4) [OF assms(1,2)] assms(3) in simp)
  then show ?thesis using page_okD(3) [OF assms(1,2)] by auto
qed

lemma leaf_addr_0_iff:
  assumes "pt_tree m ke root"
  shows "leaf_addr m root va = 0 \<longleftrightarrow> ptnode m root [pidx 2 va, pidx 1 va] = None"
proof (cases "ptnode m root [pidx 2 va, pidx 1 va]")
  case (Some l0)
  then have "l0 \<in> pt_pages m root" by (rule pt_pagesI [rotated]) simp
  then have "l0 + 8 * of_nat (pidx 0 va) \<noteq> 0"
    by (rule page_ok_offset_nonzero [OF pt_treeD(2) [OF assms] pt_treeD(1) [OF assms] pidx_less])
  then show ?thesis using Some by (simp add: leaf_addr_def del: ptnode.simps)
qed (simp add: leaf_addr_def del: ptnode.simps)

lemma leaf_addr_lookup:
  assumes "leaf_addr m root va \<noteq> 0"
  shows "ld64 m (leaf_addr m root va) = pt_lookup m root va"
  using assms by (auto simp: leaf_addr_def pt_lookup_def pte_def simp del: ptnode.simps split: option.splits)

lemma pt_lookup_no_table: "leaf_addr m root va = 0 \<Longrightarrow> pt_tree m ke root \<Longrightarrow> pt_lookup m root va = 0"
  by (simp add: leaf_addr_0_iff pt_lookup_def del: ptnode.simps)

lemma pt_invD:
  assumes "pt_inv s root xs"
  shows "kmem_inv s xs" "pt_tree (mem s) (kend s) root" "p \<in> pt_pages (mem s) root \<Longrightarrow> p \<notin> set xs"
  using assms unfolding pt_inv_def by blast+

lemma walk_alloc_link:
  assumes I: "pt_inv s root (q # ys)" and P: "pt_path path" "length path \<le> 1" "ptnode (mem s) root path = Some p" "k < 512"
    and E: "pte (mem s) p k AND PTE_V = 0"
  defines "m1 \<equiv> memset q 0 4096 (memset q 5 4096 (mem s))"
  defines "s' \<equiv> s\<lparr>freelist := ld64 (mem s) q, refcnt := (refcnt s)(refindex q := 1),
     mem := sd64 m1 (p + 8 * of_nat k) (PA2PTE q OR PTE_V)\<rparr>"
  shows "pt_ext root s (q # ys) s' ys" and "ptnode (mem s') root (path @ [k]) = Some q"
proof -
  note K = kalloc_cons [OF pt_invD(1) [OF I]] and T = pt_invD(2) [OF I]
  note ke = kmem_okD(1) [OF pt_invD(1) [OF I]]
  have q: "pg_aligned q" "q \<notin> pt_pages (mem s) root"
    using K(3) ke page_okD(1) pt_invD(3) [OF I, of q] by auto
  have ne: "page_of x \<noteq> page_of q" if "x \<in> pt_pages (mem s) root" for x
    using that q pt_page_aligned [OF T] page_of_inj by metis
  have m1: "m1 a = mem s a" if "page_of a \<noteq> page_of q" for a
    using that q(1) by (simp add: m1_def memset_page)
  have eqm: "m1 a = mem s a" if "x \<in> pt_pages (mem s) root" "page_of a = page_of x" for x a
    using m1 that ne by simp
  note F = pt_frame [OF T eqm]
  have p: "p \<in> pt_pages (mem s) root" using pt_pagesI P(1,3) by blast
  have "pte m1 p k = pte (mem s) p k"
    by (rule pte_cong) (use p eqm P(4) pt_page_aligned [OF T] in auto)
  then have E1: "pte m1 p k AND PTE_V = 0" using E by simp
  have N1: "ptnode m1 root path = Some p" using ptnode_frame [OF T eqm P(1)] P(3) by simp
  have z: "\<forall>i<512. pte m1 q i = 0" using q(1) by (simp add: m1_def pte_memset0)
  have q1: "q \<notin> pt_pages m1 root" using F(1) q(2) by simp
  note L = link_write [OF F(2) P(1,2) N1 P(4) E1 K(3) q1 z]
  show "ptnode (mem s') root (path @ [k]) = Some q" using L(1) by (simp add: s'_def)
  have pg: "pt_pages (mem s') root = insert q (pt_pages (mem s) root)" using L(2) F(1) by (simp add: s'_def)
  have km: "kmem_inv s' ys"
  proof -
    have "kmem_ok m1 (ld64 (mem s) q) ((refcnt s)(refindex q := 1)) (kend s) ys"
      unfolding m1_def using K(2) q(1) K(4) by (rule kmem_ok_memset)
    moreover have "p \<notin> set ys" using pt_invD(3) [OF I p] by simp
    ultimately show ?thesis
      using kmem_ok_sd64 [of m1 _ _ _ ys p "8 * k"] pt_page_aligned [OF T p] P(4) by (simp add: s'_def)
  qed
  have inv: "pt_inv s' root ys"
    unfolding pt_inv_def pg using km L(3) K(4) pt_invD(3) [OF I] by (auto simp: s'_def)
  show "pt_ext root s (q # ys) s' ys" unfolding pt_ext_def
  proof (intro conjI allI impI)
    show "pt_inv s' root ys" by (rule inv)
    have "refs s' = (refs s)(q := 1)" by (rule refs_update [OF K(3) ke]) (simp_all add: s'_def)
    then show "\<exists>zs. q # ys = zs @ ys \<and> pt_pages (mem s') root = set zs \<union> pt_pages (mem s) root \<and>
      refs s' = (\<lambda>x. if x \<in> set zs then 1 else refs s x)"
      by (intro exI [of _ "[q]"]) (simp add: pg fun_eq_iff)
    show "pt_lookup (mem s') root va = pt_lookup (mem s) root va" for va
      using L(4) F(3) by (simp add: s'_def)
    show "mem s' a = mem s a" if "\<forall>x\<in>pt_pages (mem s') root. page_of a \<noteq> page_of x" for a
    proof -
      have "page_of a \<noteq> page_of q" "page_of a \<noteq> page_of p" using that p unfolding pg by auto
      then show ?thesis using pt_page_aligned [OF T p] P(4) m1 by (simp add: s'_def pte_at_page)
    qed
    show "\<exists>m fl rc. s' = s\<lparr>freelist := fl, refcnt := rc, mem := m\<rparr>" unfolding s'_def by blast
  qed
qed

lemma walk_level_alloc:
  assumes I: "pt_inv s root xs" and P: "pt_path path" "length path \<le> 1" "ptnode (mem s) root path = Some p"
  shows "(\<exists>s' xs' q. walk_from (Suc l) p va True s = walk_from l q va True s' \<and> pt_ext root s xs s' xs' \<and>
            ptnode (mem s') root (path @ [pidx (Suc l) va]) = Some q \<and> length xs \<le> Suc (length xs')) \<or>
         (xs = [] \<and> walk_from (Suc l) p va True s = Ret 0 s)"
proof (cases "pte (mem s) p (pidx (Suc l) va) AND PTE_V = 0")
  case False
  then have "walk_from (Suc l) p va True s = walk_from l (PTE2PA (pte (mem s) p (pidx (Suc l) va))) va True s"
    by (simp add: pte_def pte_addr_pidx Let_def)
  moreover have "ptnode (mem s) root (path @ [pidx (Suc l) va]) = Some (PTE2PA (pte (mem s) p (pidx (Suc l) va)))"
    using False P(3) by (simp add: ptnode_snoc)
  ultimately show ?thesis using pt_ext_refl [OF I] by (metis le_SucI order_refl)
next
  case True
  show ?thesis
  proof (cases xs)
    case Nil
    then have "kalloc s = Ret 0 s" using kalloc_empty pt_invD(1) [OF I] by blast
    then show ?thesis using True Nil by (simp add: pte_def pte_addr_pidx kbind_def kret_def Let_def)
  next
    case (Cons q ys)
    note K = kalloc_cons [OF pt_invD(1) [OF I [unfolded Cons]]]
    have "q \<noteq> 0" using page_okD(2) [OF K(3) kmem_okD(1) [OF pt_invD(1) [OF I]]] .
    then have "walk_from (Suc l) p va True s = walk_from l q va True
        (s\<lparr>freelist := ld64 (mem s) q, refcnt := (refcnt s)(refindex q := 1),
           mem := sd64 (memset q 0 4096 (memset q 5 4096 (mem s))) (p + 8 * of_nat (pidx (Suc l) va)) (PA2PTE q OR PTE_V)\<rparr>)"
      using True K(1) by (simp add: pte_def pte_addr_pidx kbind_def kthen_def kmod_def upd_mem_def Let_def)
    then show ?thesis
      using walk_alloc_link [OF I [unfolded Cons] P(1,2,3) pidx_less True] Cons by (metis length_Cons order_refl)
  qed
qed

lemma walk_alloc:
  assumes "pt_inv s root xs" "va < MAXVA"
  shows "\<exists>a s' xs'. walk root va True s = Ret a s' \<and> pt_ext root s xs s' xs' \<and>
    (a = leaf_addr (mem s') root va \<and> a \<noteq> 0 \<or> a = 0 \<and> xs' = []) \<and> length xs \<le> length xs' + 2"
proof -
  have w: "walk root va True s = walk_from (Suc (Suc 0)) root va True s"
    using assms(2) by (simp add: walk_def kthen_def kbind_def kguard_def kret_def not_le numeral_2_eq_2)
  from walk_level_alloc [OF assms(1) pt_path_Nil, of root "Suc 0" va]
  consider "xs = []" "walk root va True s = Ret 0 s"
    | s1 xs1 q1 where "walk root va True s = walk_from (Suc 0) q1 va True s1" "pt_ext root s xs s1 xs1"
        "ptnode (mem s1) root [pidx 2 va] = Some q1" "length xs \<le> Suc (length xs1)"
    unfolding w by (fastforce simp: numeral_2_eq_2)
  then show ?thesis
  proof cases
    case 1
    then show ?thesis using pt_ext_refl [OF assms(1)] by fastforce
  next
    case 2
    from walk_level_alloc [OF pt_extD(1) [OF 2(2)] pt_path_pidx(2) _ 2(3), of 0 va]
    consider "xs1 = []" "walk root va True s = Ret 0 s1"
      | s2 xs2 q2 where "walk root va True s = Ret (q2 + 8 * of_nat (pidx 0 va)) s2" "pt_ext root s1 xs1 s2 xs2"
          "ptnode (mem s2) root [pidx 2 va, pidx 1 va] = Some q2" "length xs1 \<le> Suc (length xs2)"
      unfolding 2(1) by (fastforce simp: kret_def pte_addr_pidx)
    then show ?thesis
    proof cases
      case 1
      then show ?thesis using 2(2,4) by fastforce
    next
      case 3: 2
      then have "q2 + 8 * of_nat (pidx 0 va) = leaf_addr (mem s2) root va"
        by (simp add: leaf_addr_def del: ptnode.simps)
      moreover have "leaf_addr (mem s2) root va \<noteq> 0"
        using leaf_addr_0_iff [OF pt_invD(2) [OF pt_extD(1) [OF 3(2)]]] 3(3) by simp
      moreover have "length xs \<le> length xs2 + 2" using 2(4) 3(4) by simp
      ultimately show ?thesis using 3(1,2) pt_ext_trans [OF 2(2)] by metis
    qed
  qed
qed

section \<open>Changing mappings\<close>

lemma pt_chgD:
  assumes "pt_chg root s xs s' xs' f"
  shows "pt_inv s' root xs'"
    "\<exists>ys. xs = ys @ xs' \<and> pt_pages (mem s') root = set ys \<union> pt_pages (mem s) root \<and>
        refs s' = (\<lambda>x. if x \<in> set ys then 1 else refs s x)"
    "\<lbrakk>va < MAXVA; pg_aligned va\<rbrakk> \<Longrightarrow> pt_lookup (mem s') root va = f va"
    "(\<And>p. p \<in> pt_pages (mem s') root \<Longrightarrow> page_of a \<noteq> page_of p) \<Longrightarrow> mem s' a = mem s a"
    "\<exists>m fl rc. s' = s\<lparr>freelist := fl, refcnt := rc, mem := m\<rparr>"
  using assms unfolding pt_chg_def by blast+

lemma pt_ext_chg: "pt_ext root s xs s' xs' \<Longrightarrow> pt_chg root s xs s' xs' (pt_lookup (mem s) root)"
  unfolding pt_ext_def pt_chg_def by blast

lemma pt_chg_cong:
  "\<lbrakk>pt_chg root s xs s' xs' f; \<And>va. va < MAXVA \<Longrightarrow> pg_aligned va \<Longrightarrow> f va = g va\<rbrakk> \<Longrightarrow> pt_chg root s xs s' xs' g"
  unfolding pt_chg_def by simp

lemma pt_chg_trans:
  assumes "pt_chg root s xs s1 xs1 f" "pt_chg root s1 xs1 s2 xs2 g"
  shows "pt_chg root s xs s2 xs2 g"
proof -
  note D1 = pt_chgD [OF assms(1)] and D2 = pt_chgD [OF assms(2)]
  obtain ys where 1: "xs = ys @ xs1" "pt_pages (mem s1) root = set ys \<union> pt_pages (mem s) root"
      "refs s1 = (\<lambda>x. if x \<in> set ys then 1 else refs s x)" using D1(2) by blast
  obtain zs where 2: "xs1 = zs @ xs2" "pt_pages (mem s2) root = set zs \<union> pt_pages (mem s1) root"
      "refs s2 = (\<lambda>x. if x \<in> set zs then 1 else refs s1 x)" using D2(2) by blast
  obtain m fl rc m' fl' rc' where "s1 = s\<lparr>freelist := fl, refcnt := rc, mem := m\<rparr>"
      "s2 = s1\<lparr>freelist := fl', refcnt := rc', mem := m'\<rparr>" using D1(5) D2(5) by blast
  then have 3: "s2 = s\<lparr>freelist := fl', refcnt := rc', mem := m'\<rparr>" by simp
  show ?thesis unfolding pt_chg_def
  proof (intro conjI allI impI)
    show "pt_inv s2 root xs2" by (rule D2(1))
    show "\<exists>ws. xs = ws @ xs2 \<and> pt_pages (mem s2) root = set ws \<union> pt_pages (mem s) root \<and>
        refs s2 = (\<lambda>x. if x \<in> set ws then 1 else refs s x)"
      by (rule exI [of _ "ys @ zs"]) (simp add: 1 2 fun_eq_iff Un_ac)
    show "pt_lookup (mem s2) root va = g va" if "va < MAXVA" "pg_aligned va" for va
      using that by (rule D2(3))
    show "mem s2 a = mem s a" if "\<forall>p\<in>pt_pages (mem s2) root. page_of a \<noteq> page_of p" for a
      using D1(4) [of a] D2(4) [of a] that 2(2) by simp
    show "\<exists>m fl rc. s2 = s\<lparr>freelist := fl, refcnt := rc, mem := m\<rparr>" using 3 by blast
  qed
qed

lemma pidx_inj:
  "\<lbrakk>va < MAXVA; vb < MAXVA; pg_aligned va; pg_aligned vb; pidx 2 vb = pidx 2 va; pidx 1 vb = pidx 1 va;
    pidx 0 vb = pidx 0 va\<rbrakk> \<Longrightarrow> vb = va"
  by (rule PX_inj) (simp_all add: pidx_def word_unat_eq_iff)

lemma leaf_write_chg:
  assumes "pt_inv s root xs" "leaf_addr (mem s) root va \<noteq> 0" "va < MAXVA" "pg_aligned va"
  shows "pt_chg root s xs (s\<lparr>mem := sd64 (mem s) (leaf_addr (mem s) root va) v\<rparr>) xs ((pt_lookup (mem s) root)(va := v))"
proof -
  note T = pt_invD(2) [OF assms(1)]
  obtain l0 where l0: "ptnode (mem s) root [pidx 2 va, pidx 1 va] = Some l0"
    using assms(2) leaf_addr_0_iff [OF T] by auto
  then have la: "leaf_addr (mem s) root va = l0 + 8 * of_nat (pidx 0 va)"
    by (simp add: leaf_addr_def del: ptnode.simps)
  have p: "l0 \<in> pt_pages (mem s) root" using l0 by (rule pt_pagesI [rotated]) simp
  note al = pt_page_aligned [OF T p]
  note W = leaf_write [OF T l0, where v = v]
  have km: "kmem_ok (sd64 (mem s) (l0 + 8 * of_nat (pidx 0 va)) v) (freelist s) (refcnt s) (kend s) xs"
    using kmem_ok_sd64 [OF pt_invD(1) [OF assms(1)] al, of "8 * pidx 0 va"] pt_invD(3) [OF assms(1) p]
      pidx_less [of 0 va] by (simp add: less_imp_le del: pidx_less)
  show ?thesis unfolding pt_chg_def la
  proof (intro conjI allI impI)
    show "pt_inv (s\<lparr>mem := sd64 (mem s) (l0 + 8 * of_nat (pidx 0 va)) v\<rparr>) root xs"
      unfolding pt_inv_def using km W(2,3) pt_invD(3) [OF assms(1)] by auto
    have "refs (s\<lparr>mem := sd64 (mem s) (l0 + 8 * of_nat (pidx 0 va)) v\<rparr>) = refs s"
      by (simp add: refs_def fun_eq_iff)
    then show "\<exists>ys. xs = ys @ xs \<and>
       pt_pages (mem (s\<lparr>mem := sd64 (mem s) (l0 + 8 * of_nat (pidx 0 va)) v\<rparr>)) root = set ys \<union> pt_pages (mem s) root \<and>
       refs (s\<lparr>mem := sd64 (mem s) (l0 + 8 * of_nat (pidx 0 va)) v\<rparr>) = (\<lambda>x. if x \<in> set ys then 1 else refs s x)"
      using W(2) by (intro exI [of _ "[]"]) simp
    show "pt_lookup (mem (s\<lparr>mem := sd64 (mem s) (l0 + 8 * of_nat (pidx 0 va)) v\<rparr>)) root vb =
        ((pt_lookup (mem s) root)(va := v)) vb" if "vb < MAXVA" "pg_aligned vb" for vb
      using W(4) [of vb] pidx_inj [OF assms(3) that(1) assms(4) that(2)] by auto
    show "mem (s\<lparr>mem := sd64 (mem s) (l0 + 8 * of_nat (pidx 0 va)) v\<rparr>) a = mem s a"
      if "\<forall>q\<in>pt_pages (mem (s\<lparr>mem := sd64 (mem s) (l0 + 8 * of_nat (pidx 0 va)) v\<rparr>)) root. page_of a \<noteq> page_of q" for a
      using that p W(2) al by (simp add: pte_at_page)
    show "\<exists>m fl rc. s\<lparr>mem := sd64 (mem s) (l0 + 8 * of_nat (pidx 0 va)) v\<rparr> = s\<lparr>freelist := fl, refcnt := rc, mem := m\<rparr>"
      by (intro exI [of _ "sd64 (mem s) (l0 + 8 * of_nat (pidx 0 va)) v"] exI [of _ "freelist s"] exI [of _ "refcnt s"]) simp
  qed
qed

lemma map_page:
  assumes "pt_inv s root xs" "va < MAXVA" "pg_aligned va"
  shows "\<exists>a s' xs'. walk root va True s = Ret a s' \<and> pt_chg root s xs s' xs' (pt_lookup (mem s) root) \<and>
    (a = 0 \<and> xs' = [] \<or>
     a \<noteq> 0 \<and> ld64 (mem s') a = pt_lookup (mem s) root va \<and>
     (\<forall>v. pt_chg root s xs (s'\<lparr>mem := sd64 (mem s') a v\<rparr>) xs' ((pt_lookup (mem s) root)(va := v)))) \<and>
    length xs \<le> length xs' + 2"
proof -
  obtain a s' xs' where w: "walk root va True s = Ret a s'" "pt_ext root s xs s' xs'"
      "a = leaf_addr (mem s') root va \<and> a \<noteq> 0 \<or> a = 0 \<and> xs' = []" "length xs \<le> length xs' + 2"
    using walk_alloc [OF assms(1,2)] by blast
  note c = pt_ext_chg [OF w(2)]
  show ?thesis
  proof (cases "a = 0")
    case True
    then show ?thesis using w c by blast
  next
    case False
    then have la: "leaf_addr (mem s') root va \<noteq> 0" "a = leaf_addr (mem s') root va" using w(3) by auto
    have "ld64 (mem s') a = pt_lookup (mem s) root va"
      using leaf_addr_lookup [OF la(1)] la(2) pt_extD(3) [OF w(2)] by simp
    moreover have "pt_chg root s xs (s'\<lparr>mem := sd64 (mem s') a v\<rparr>) xs' ((pt_lookup (mem s) root)(va := v))" for v
    proof (rule pt_chg_cong [OF pt_chg_trans [OF c]])
      show "pt_chg root s' xs' (s'\<lparr>mem := sd64 (mem s') a v\<rparr>) xs' ((pt_lookup (mem s') root)(va := v))"
        using leaf_write_chg [OF pt_extD(1) [OF w(2)] la(1) assms(2,3)] la(2) by simp
    qed (simp add: pt_extD(3) [OF w(2)])
    ultimately show ?thesis using w(1,4) c False by blast
  qed
qed

lemma map_run_Suc:
  assumes "pg_aligned a" "pg_aligned va" "unat a + 4096 < 2 ^ 64"
  shows "map_run (a + PGSIZE) (pa + PGSIZE) perm j (f(a := PA2PTE pa OR perm OR PTE_V)) va = map_run a pa perm (Suc j) f va"
proof -
  have u: "unat (a + PGSIZE) = unat a + 4096" using assms(3) by (simp add: unat_word_ariths)
  obtain k l where k: "unat a = 4096 * k" and l: "unat va = 4096 * l"
    using pg_aligned_mult assms(1,2) by blast
  have "va = a \<longleftrightarrow> k = l" by (auto simp: word_unat_eq_iff k l)
  moreover have "pa + PGSIZE + (va - (a + PGSIZE)) = pa + (va - a)" by simp
  ultimately show ?thesis unfolding map_run_def u unfolding k l by (auto simp: fun_upd_def)
qed

lemma map_run_0: "map_run a pa perm 0 f = f"
  by (auto simp: map_run_def fun_eq_iff)

lemma map_run_cong: "f va = g va \<Longrightarrow> map_run a pa perm j f va = map_run a pa perm j g va"
  by (simp add: map_run_def)

lemma mappages_loop_ok:
  assumes "pt_inv s root xs" "pg_aligned a" "unat a + 4096 * Suc n \<le> 2 ^ 38"
    and "lastva = a + of_nat (4096 * n)"
    and "\<And>i. i \<le> n \<Longrightarrow> pt_lookup (mem s) root (a + of_nat (4096 * i)) AND PTE_V = 0"
  shows "\<exists>r s' xs' j. mappages_loop (Suc n) root a lastva pa perm s = Ret r s' \<and>
    pt_chg root s xs s' xs' (map_run a pa perm j (pt_lookup (mem s) root)) \<and>
    (r = 0 \<and> j = Suc n \<or> r = - 1 \<and> j \<le> n \<and> xs' = [])"
  using assms
proof (induction n arbitrary: s xs a pa)
  case 0
  then have va: "a < MAXVA" by (simp add: word_less_nat_alt)
  let ?f = "pt_lookup (mem s) root"
  obtain p s1 xs1 where w: "walk root a True s = Ret p s1" "pt_chg root s xs s1 xs1 ?f"
    "p = 0 \<and> xs1 = [] \<or> p \<noteq> 0 \<and> ld64 (mem s1) p = ?f a \<and>
     (\<forall>v. pt_chg root s xs (s1\<lparr>mem := sd64 (mem s1) p v\<rparr>) xs1 (?f(a := v)))"
    using map_page [OF 0(1) va 0(2)] by blast
  have m: "(f(a := PA2PTE pa OR perm OR PTE_V)) va = map_run a pa perm (Suc 0) f va" if "pg_aligned va" for f va
    using map_run_Suc [OF 0(2) that, of pa perm 0 f] 0(3) by (simp add: map_run_0)
  have V: "?f a AND PTE_V = 0" "lastva = a" using 0(4) 0(5) [of 0] by simp_all
  show ?case
  proof (cases "p = 0")
    case True
    then show ?thesis using w map_run_0 [of a pa perm ?f]
      by (intro exI [of _ "- 1"] exI [of _ s1] exI [of _ xs1] exI [of _ 0]) (simp add: kbind_def kret_def)
  next
    case False
    let ?s2 = "s1\<lparr>mem := sd64 (mem s1) p (PA2PTE pa OR perm OR PTE_V)\<rparr>"
    have "mappages_loop (Suc 0) root a lastva pa perm s = Ret 0 ?s2"
      using w(1,3) False V by (simp add: kbind_def kthen_def kget_def kguard_def kret_def kmod_def upd_mem_def)
    moreover have "pt_chg root s xs ?s2 xs1 (?f(a := PA2PTE pa OR perm OR PTE_V))"
      using w(3) False by simp
    then have "pt_chg root s xs ?s2 xs1 (map_run a pa perm (Suc 0) ?f)"
      by (rule pt_chg_cong) (rule m)
    ultimately show ?thesis by blast
  qed
next
  case (Suc n)
  then have va: "a < MAXVA" and up: "unat (a + PGSIZE) = unat a + 4096"
    by (simp_all add: word_less_nat_alt unat_word_ariths)
  let ?f = "pt_lookup (mem s) root" and ?v = "PA2PTE pa OR perm OR PTE_V"
  obtain p s1 xs1 where w: "walk root a True s = Ret p s1" "pt_chg root s xs s1 xs1 ?f"
    "p = 0 \<and> xs1 = [] \<or> p \<noteq> 0 \<and> ld64 (mem s1) p = ?f a \<and>
     (\<forall>v. pt_chg root s xs (s1\<lparr>mem := sd64 (mem s1) p v\<rparr>) xs1 (?f(a := v)))"
    using map_page [OF Suc.prems(1) va Suc.prems(2)] by blast
  have V: "?f a AND PTE_V = 0" using Suc.prems(5) [of 0] by simp
  have ne: "lastva \<noteq> a"
  proof -
    have "unat lastva = unat a + 4096 * Suc n"
      unfolding Suc.prems(4) by (rule unat_plus_nat) (use Suc.prems(3) in simp)
    then show ?thesis by auto
  qed
  show ?case
  proof (cases "p = 0")
    case True
    then show ?thesis using w map_run_0 [of a pa perm ?f]
      by (intro exI [of _ "- 1"] exI [of _ s1] exI [of _ xs1] exI [of _ 0]) (simp add: kbind_def kret_def)
  next
    case False
    define s2 where "s2 = s1\<lparr>mem := sd64 (mem s1) p ?v\<rparr>"
    have c2: "pt_chg root s xs s2 xs1 (?f(a := ?v))" using w(3) False by (simp add: s2_def)
    have run: "mappages_loop (Suc (Suc n)) root a lastva pa perm s
        = mappages_loop (Suc n) root (a + PGSIZE) lastva (pa + PGSIZE) perm s2"
      using w(1,3) False V ne
      by (simp add: kbind_def kthen_def kget_def kguard_def kret_def kmod_def upd_mem_def s2_def del: mappages_loop.simps(2))
        (simp add: mappages_loop.simps(2) kbind_def kthen_def kget_def kguard_def kret_def kmod_def upd_mem_def)
    have al: "pg_aligned (a + PGSIZE)" using Suc.prems(2) up by (simp add: pg_aligned_unat)
    have look: "pt_lookup (mem s2) root (a + PGSIZE + of_nat (4096 * i)) AND PTE_V = 0" if "i \<le> n" for i
    proof -
      let ?b = "a + PGSIZE + of_nat (4096 * i)"
      have b: "?b = a + of_nat (4096 * Suc i)" by (simp add: algebra_simps)
      have u: "unat ?b = unat a + 4096 * Suc i"
        unfolding b by (rule unat_plus_nat) (use Suc.prems(3) that in simp)
      then have "?b < MAXVA" "pg_aligned ?b"
        using Suc.prems(2,3) that by (auto simp: word_less_nat_alt pg_aligned_unat)
      moreover have "?b \<noteq> a"
      proof
        assume eq: "?b = a"
        from u [unfolded eq] show False by simp
      qed
      ultimately have "pt_lookup (mem s2) root ?b = ?f ?b" using pt_chgD(3) [OF c2] by simp
      then show ?thesis using Suc.prems(5) [of "Suc i", folded b] that by simp
    qed
    obtain r s' xs' j where IH: "mappages_loop (Suc n) root (a + PGSIZE) lastva (pa + PGSIZE) perm s2 = Ret r s'"
      "pt_chg root s2 xs1 s' xs' (map_run (a + PGSIZE) (pa + PGSIZE) perm j (pt_lookup (mem s2) root))"
      "r = 0 \<and> j = Suc n \<or> r = - 1 \<and> j \<le> n \<and> xs' = []"
      using Suc.IH [OF pt_chgD(1) [OF c2] al _ _ look, of "pa + PGSIZE"] Suc.prems(3,4) up
      by (auto simp: algebra_simps)
    have "pt_chg root s xs s' xs' (map_run a pa perm (Suc j) ?f)"
    proof (rule pt_chg_cong [OF pt_chg_trans [OF c2 IH(2)]])
      fix va assume v: "va < MAXVA" "pg_aligned va"
      have "map_run (a + PGSIZE) (pa + PGSIZE) perm j (pt_lookup (mem s2) root) va =
        map_run (a + PGSIZE) (pa + PGSIZE) perm j (?f(a := ?v)) va"
        by (rule map_run_cong) (rule pt_chgD(3) [OF c2 v])
      also have "\<dots> = map_run a pa perm (Suc j) ?f va"
        by (rule map_run_Suc) (use Suc.prems(2,3) v in simp_all)
      finally show "map_run (a + PGSIZE) (pa + PGSIZE) perm j (pt_lookup (mem s2) root) va = map_run a pa perm (Suc j) ?f va" .
    qed
    then show ?thesis using IH(1,3) run by (metis Suc_le_mono)
  qed
qed

lemma mappages_ok:
  assumes "pt_inv s root xs" "pg_aligned va" "pg_aligned sz" "sz \<noteq> 0" "unat va + unat sz \<le> 2 ^ 38"
    and "\<And>i. 4096 * i < unat sz \<Longrightarrow> pt_lookup (mem s) root (va + of_nat (4096 * i)) AND PTE_V = 0"
  shows "\<exists>r s' xs' j. mappages root va sz pa perm s = Ret r s' \<and>
    pt_chg root s xs s' xs' (map_run va pa perm j (pt_lookup (mem s) root)) \<and>
    (r = 0 \<and> 4096 * j = unat sz \<or> r = - 1 \<and> 4096 * j < unat sz \<and> xs' = [])"
proof -
  obtain k where k: "unat sz = 4096 * k" using pg_aligned_mult [OF assms(3)] by blast
  have "k \<noteq> 0"
  proof
    assume "k = 0"
    then have "unat sz = 0" using k by simp
    then show False using assms(4) by (simp only: unat_eq_0)
  qed
  then obtain n where n: "k = Suc n" by (cases k) auto
  have last: "va + sz - PGSIZE = va + of_nat (4096 * n)"
  proof -
    have "sz = of_nat (unat sz)" by simp
    also have "\<dots> = of_nat (4096 * n) + 4096" by (simp only: k n) (simp add: algebra_simps)
    finally show ?thesis by (simp add: algebra_simps)
  qed
  have "mappages root va sz pa perm s = mappages_loop (Suc n) root va (va + sz - PGSIZE) pa perm s"
    using assms(2,3,4) k n by (simp add: mappages_def kthen_def kbind_def kguard_def kret_def pg_aligned_def)
  then show ?thesis
    using mappages_loop_ok [OF assms(1,2) _ last, of pa perm] assms(5,6) k n by fastforce
qed

text \<open>Mapping one page takes at most two pages for the tree.\<close>

lemma mappages_one:
  assumes "pt_inv s root xs" "pg_aligned va" "va < MAXVA" "2 < length xs"
    and "pt_lookup (mem s) root va AND PTE_V = 0"
  shows "\<exists>s' xs'. mappages root va PGSIZE pa perm s = Ret 0 s' \<and> length xs \<le> length xs' + 2 \<and>
    pt_chg root s xs s' xs' ((pt_lookup (mem s) root)(va := PA2PTE pa OR perm OR PTE_V))"
proof -
  let ?f = "pt_lookup (mem s) root"
  obtain p s1 xs1 where w: "walk root va True s = Ret p s1"
    "p = 0 \<and> xs1 = [] \<or> p \<noteq> 0 \<and> ld64 (mem s1) p = ?f va \<and>
     (\<forall>v. pt_chg root s xs (s1\<lparr>mem := sd64 (mem s1) p v\<rparr>) xs1 (?f(va := v)))" "length xs \<le> length xs1 + 2"
    using map_page [OF assms(1,3,2)] by blast
  then have "p \<noteq> 0" using assms(4) by auto
  then have c: "ld64 (mem s1) p = ?f va" "\<And>v. pt_chg root s xs (s1\<lparr>mem := sd64 (mem s1) p v\<rparr>) xs1 (?f(va := v))"
    using w(2) by auto
  have "mappages root va PGSIZE pa perm s = Ret 0 (s1\<lparr>mem := sd64 (mem s1) p (PA2PTE pa OR perm OR PTE_V)\<rparr>)"
    using w(1) c(1) \<open>p \<noteq> 0\<close> assms(2,5)
    by (simp add: mappages_def kthen_def kbind_def kguard_def kret_def kget_def kmod_def upd_mem_def pg_aligned_def)
  then show ?thesis using c(2) w(3) by blast
qed

lemma walkaddr_eq:
  assumes "pt_tree (mem s) ke root"
  shows "walkaddr root va s = Ret (if va < MAXVA \<and> pt_lookup (mem s) root va AND PTE_V \<noteq> 0 \<and>
     pt_lookup (mem s) root va AND PTE_U \<noteq> 0 then PTE2PA (pt_lookup (mem s) root va) else 0) s"
proof (cases "va < MAXVA")
  case False
  then show ?thesis by (auto simp: walkaddr_def kret_def not_less)
next
  case True
  then have "walkaddr root va s = (let a = leaf_addr (mem s) root va in
      if a = 0 then Ret 0 s else let e = ld64 (mem s) a in
        if e AND PTE_V = 0 then Ret 0 s else if e AND PTE_U = 0 then Ret 0 s else Ret (PTE2PA e) s)"
    by (simp add: walkaddr_def walk_no_alloc kbind_def linorder_not_le [symmetric] Let_def)
  then show ?thesis
    using True leaf_addr_lookup [of "mem s" root va] pt_lookup_no_table [OF _ assms, of va]
    by (cases "leaf_addr (mem s) root va = 0") (simp_all add: Let_def)
qed

lemma AND_16: "(w :: u64) AND PTE_U = 0 \<longleftrightarrow> \<not> bit w 4"
  using and_exp_eq_0_iff_not_bit [of w 4] by simp

lemma AND_1: "(w :: u64) AND PTE_V = 0 \<longleftrightarrow> \<not> bit w 0"
  using and_exp_eq_0_iff_not_bit [of w 0] by simp

lemma OR_1_less: "perm < 1024 \<Longrightarrow> perm OR PTE_V < 1024" for perm :: u64
proof -
  assume "perm < 1024"
  then have "take_bit 10 perm = perm" by (intro take_bit_u64_self) (simp add: word_less_nat_alt)
  then have "take_bit 10 (perm OR 1) = perm OR 1" by simp
  then have "unat (perm OR 1) < 2 ^ 10"
    by (metis (no_types) take_bit_nat_less_exp unsigned_take_bit_eq)
  then show "perm OR PTE_V < 1024" by (simp add: word_less_nat_alt)
qed

lemma walkaddr_leaf:
  assumes "pg_aligned pa" "pa < 2 ^ 56" "perm < 1024" "perm AND PTE_U \<noteq> 0"
  shows "(PA2PTE pa OR perm OR PTE_V) AND PTE_V \<noteq> 0" "(PA2PTE pa OR perm OR PTE_V) AND PTE_U \<noteq> 0"
    "PTE2PA (PA2PTE pa OR perm OR PTE_V) = pa" "PTE_FLAGS (PA2PTE pa OR perm OR PTE_V) = perm OR PTE_V"
  using assms PTE_pack [OF assms(1,2) OR_1_less [OF assms(3)]] unfolding AND_1 AND_16
  by (simp_all add: bit_simps)

section \<open>Unmapping\<close>

lemma pt_relD:
  assumes "pt_rel root s xs s' xs' f D"
  shows "pt_inv s' root xs'" "pt_pages (mem s') root = pt_pages (mem s) root"
    "\<lbrakk>va < MAXVA; pg_aligned va\<rbrakk> \<Longrightarrow> pt_lookup (mem s') root va = f va"
    "refs s' x = refs s x - (if x \<in> D then 1 else 0)"
    "set xs' = set xs \<union> {x \<in> D. refs s x = 1}"
    "(\<And>p. p \<in> pt_pages (mem s) root \<union> {x \<in> D. refs s x = 1} \<Longrightarrow> page_of a \<noteq> page_of p) \<Longrightarrow> mem s' a = mem s a"
    "\<exists>m fl rc. s' = s\<lparr>freelist := fl, refcnt := rc, mem := m\<rparr>"
  using assms unfolding pt_rel_def by blast+

lemma pt_rel_refl:
  "pt_inv s root xs \<Longrightarrow> pt_rel root s xs s xs (pt_lookup (mem s) root) {}"
  unfolding pt_rel_def
  by (auto intro!: exI [of _ "mem s"] exI [of _ "freelist s"] exI [of _ "refcnt s"])

lemma pt_rel_trans:
  assumes "pt_rel root s xs s1 xs1 f D" "pt_rel root s1 xs1 s2 xs2 g E" "D \<inter> E = {}"
  shows "pt_rel root s xs s2 xs2 g (D \<union> E)"
proof -
  note D1 = pt_relD [OF assms(1)] and D2 = pt_relD [OF assms(2)]
  have one: "{x \<in> D \<union> E. refs s x = 1} = {x \<in> D. refs s x = 1} \<union> {x \<in> E. refs s1 x = 1}"
    using D1(4) assms(3) by auto
  show ?thesis unfolding pt_rel_def
  proof (intro conjI allI impI)
    show "pt_inv s2 root xs2" by (rule D2(1))
    show "pt_pages (mem s2) root = pt_pages (mem s) root" using D1(2) D2(2) by simp
    show "pt_lookup (mem s2) root va = g va" if "va < MAXVA" "pg_aligned va" for va using that by (rule D2(3))
    show "refs s2 x = refs s x - (if x \<in> D \<union> E then 1 else 0)" for x
      using D1(4) [of x] D2(4) [of x] assms(3) by auto
    show "set xs2 = set xs \<union> {x \<in> D \<union> E. refs s x = 1}" unfolding one D2(5) D1(5) by auto
    show "mem s2 a = mem s a"
      if "\<forall>p\<in>pt_pages (mem s) root \<union> {x \<in> D \<union> E. refs s x = 1}. page_of a \<noteq> page_of p" for a
    proof -
      have "mem s2 a = mem s1 a" by (rule D2(6)) (use that [unfolded one] D1(2) in auto)
      also have "\<dots> = mem s a" by (rule D1(6)) (use that in auto)
      finally show ?thesis .
    qed
    obtain m fl rc m' fl' rc' where "s1 = s\<lparr>freelist := fl, refcnt := rc, mem := m\<rparr>"
        "s2 = s1\<lparr>freelist := fl', refcnt := rc', mem := m'\<rparr>" using D1(7) D2(7) by blast
    then have "s2 = s\<lparr>freelist := fl', refcnt := rc', mem := m'\<rparr>" by simp
    then show "\<exists>m fl rc. s2 = s\<lparr>freelist := fl, refcnt := rc, mem := m\<rparr>" by blast
  qed
qed

lemma pt_rel_cong:
  "\<lbrakk>pt_rel root s xs s' xs' f D; \<And>va. va < MAXVA \<Longrightarrow> pg_aligned va \<Longrightarrow> f va = g va\<rbrakk> \<Longrightarrow> pt_rel root s xs s' xs' g D"
  unfolding pt_rel_def by simp

lemma pt_rel_leaf_write:
  assumes "pt_inv s root xs" "leaf_addr (mem s) root va \<noteq> 0" "va < MAXVA" "pg_aligned va"
  shows "pt_rel root s xs (s\<lparr>mem := sd64 (mem s) (leaf_addr (mem s) root va) v\<rparr>) xs ((pt_lookup (mem s) root)(va := v)) {}"
    (is "pt_rel _ _ _ ?s' _ _ _")
proof -
  note D = pt_chgD [OF leaf_write_chg [OF assms, of v]]
  have pg: "pt_pages (mem ?s') root = pt_pages (mem s) root" using D(2) by simp
  show ?thesis unfolding pt_rel_def
  proof (intro conjI allI impI)
    show "pt_inv ?s' root xs" by (rule D(1))
    show "pt_pages (mem ?s') root = pt_pages (mem s) root" by (rule pg)
    show "pt_lookup (mem ?s') root vb = ((pt_lookup (mem s) root)(va := v)) vb" if "vb < MAXVA" "pg_aligned vb" for vb
      using that by (rule D(3))
    show "refs ?s' x = refs s x - (if x \<in> {} then 1 else 0)" for x by (simp add: refs_def)
    show "mem ?s' a = mem s a" if "\<forall>p\<in>pt_pages (mem s) root \<union> {x \<in> {}. refs s x = 1}. page_of a \<noteq> page_of p" for a
      using D(4) [of a] that unfolding pg by simp
    show "\<exists>m fl rc. ?s' = s\<lparr>freelist := fl, refcnt := rc, mem := m\<rparr>" by (rule D(5))
  qed simp
qed

lemma nth_page_0 [simp]: "nth_page a 0 = a"
  by (simp add: nth_page_def)

lemma nth_page_Suc: "nth_page (a + PGSIZE) i = nth_page a (Suc i)"
  by (simp add: nth_page_def algebra_simps)

lemma nth_page_props:
  assumes "pg_aligned a" "unat a + 4096 * n \<le> 2 ^ 38" "i < n"
  shows "unat (nth_page a i) = unat a + 4096 * i" "nth_page a i < MAXVA" "pg_aligned (nth_page a i)"
proof -
  show u: "unat (nth_page a i) = unat a + 4096 * i"
    unfolding nth_page_def by (rule unat_plus_nat) (use assms in simp)
  show "nth_page a i < MAXVA" "pg_aligned (nth_page a i)"
    using assms by (simp_all add: word_less_nat_alt pg_aligned_unat u)
qed

lemma kfree_tree:
  assumes I: "pt_inv s root xs" and r: "1 \<le> refs s pa" and n: "pa \<notin> pt_pages (mem s) root"
  shows "\<exists>s' xs'. kfree pa s = Ret () s' \<and> pt_rel root s xs s' xs' (pt_lookup (mem s) root) {pa} \<and>
    (\<forall>is. pt_path is \<longrightarrow> ptnode (mem s') root is = ptnode (mem s) root is)"
proof -
  note K = pt_invD(1) [OF I] and T = pt_invD(2) [OF I]
  note ok = refs_posD [of s pa]
  have okp: "page_ok (kend s) pa" "refs s pa = refcnt s (refindex pa)" using ok r by auto
  note al = page_okD(1) [OF okp(1) kmem_okD(1) [OF K]]
  note ru = refs_update [OF okp(1) kmem_okD(1) [OF K]]
  show ?thesis
  proof (cases "refs s pa = 1")
    case True
    define m' where "m' = sd64 (memset pa 1 4096 (mem s)) pa (freelist s)"
    define s' where "s' = s\<lparr>mem := m', freelist := pa, refcnt := (refcnt s)(refindex pa := 0)\<rparr>"
    have kf: "kfree pa s = Ret () s'" "kmem_inv s' (pa # xs)"
      using kfree_last [OF K okp(1)] True okp(2) by (simp_all add: s'_def m'_def)
    have out: "m' a = mem s a" if "page_of a \<noteq> page_of pa" for a
      using that al by (simp add: m'_def sd64_page0 memset_page)
    have tr: "m' a = mem s a" if "p \<in> pt_pages (mem s) root" "page_of a = page_of p" for p a
    proof (rule out)
      show "page_of a \<noteq> page_of pa" using that n al pt_page_aligned [OF T] page_of_inj by metis
    qed
    note F = pt_frame [OF T tr]
    have "refs s' = (refs s)(pa := 0)" by (rule ru) (simp_all add: s'_def)
    moreover have "\<exists>m fl rc. s' = s\<lparr>freelist := fl, refcnt := rc, mem := m\<rparr>"
      by (intro exI [of _ m'] exI [of _ pa] exI [of _ "(refcnt s)(refindex pa := 0)"]) (simp add: s'_def)
    moreover have "pt_inv s' root (pa # xs)"
      unfolding pt_inv_def using kf(2) F(1,2) n pt_invD(3) [OF I] by (auto simp: s'_def)
    moreover have "mem s' = m'" by (simp add: s'_def)
    ultimately have "pt_rel root s xs s' (pa # xs) (pt_lookup (mem s) root) {pa}"
      unfolding pt_rel_def using F True out by auto
    moreover have "ptnode (mem s') root is = ptnode (mem s) root is" if "pt_path is" for "is"
      using ptnode_frame [OF T tr that] by (simp add: s'_def)
    ultimately show ?thesis using kf(1) by blast
  next
    case False
    define s' where "s' = s\<lparr>refcnt := (refcnt s)(refindex pa := refcnt s (refindex pa) - 1)\<rparr>"
    have kf: "kfree pa s = Ret () s'" "kmem_inv s' xs"
      using kfree_shared [OF K okp(1)] False r okp(2) by (simp_all add: s'_def)
    have "refs s' = (refs s)(pa := refs s pa - 1)" by (rule ru) (simp_all add: s'_def okp(2))
    moreover have "\<exists>m fl rc. s' = s\<lparr>freelist := fl, refcnt := rc, mem := m\<rparr>"
      by (intro exI [of _ "mem s"] exI [of _ "freelist s"] exI [of _ "(refcnt s)(refindex pa := refcnt s (refindex pa) - 1)"])
        (simp add: s'_def)
    moreover have "pt_inv s' root xs"
      using kf(2) I by (simp add: pt_inv_def s'_def)
    moreover have "mem s' = mem s" by (simp add: s'_def)
    ultimately have "pt_rel root s xs s' xs (pt_lookup (mem s) root) {pa}"
      unfolding pt_rel_def using False by auto
    then show ?thesis using kf(1) by (auto simp: s'_def)
  qed
qed

lemma leaf_addr_cong:
  "(\<And>is. pt_path is \<Longrightarrow> ptnode m' root is = ptnode m root is) \<Longrightarrow> leaf_addr m' root va = leaf_addr m root va"
  by (simp add: leaf_addr_def del: ptnode.simps)

lemma unmap_page:
  assumes I: "pt_inv s root xs" and va: "va < MAXVA" "pg_aligned va"
    and V: "pt_lookup (mem s) root va AND PTE_V \<noteq> 0"
    and pa: "pa = PTE2PA (pt_lookup (mem s) root va)"
    and fr: "do_free \<longrightarrow> 1 \<le> refs s pa \<and> pa \<notin> pt_pages (mem s) root"
  shows "\<exists>s' xs'. kthen (kwhen do_free (kfree pa)) (kmod (upd_mem (\<lambda>m. sd64 m (leaf_addr (mem s) root va) 0))) s = Ret () s' \<and>
    pt_rel root s xs s' xs' ((pt_lookup (mem s) root)(va := 0)) (if do_free then {pa} else {})"
proof -
  have la: "leaf_addr (mem s) root va \<noteq> 0" using V pt_lookup_no_table [OF _ pt_invD(2) [OF I], of va] by auto
  obtain s1 xs1 where s1: "kwhen do_free (kfree pa) s = Ret () s1"
      "pt_rel root s xs s1 xs1 (pt_lookup (mem s) root) (if do_free then {pa} else {})"
      "leaf_addr (mem s1) root va = leaf_addr (mem s) root va"
  proof (cases do_free)
    case True
    then obtain s' xs' where "kfree pa s = Ret () s'" "pt_rel root s xs s' xs' (pt_lookup (mem s) root) {pa}"
        "\<forall>is. pt_path is \<longrightarrow> ptnode (mem s') root is = ptnode (mem s) root is"
      using kfree_tree [OF I] fr by blast
    then show ?thesis using True leaf_addr_cong [of "mem s'" root "mem s"] that [of s' xs'] by (simp add: kwhen_def)
  next
    case False
    then show ?thesis using pt_rel_refl [OF I] that [of s xs] by (simp add: kwhen_def kret_def)
  qed
  note D1 = pt_relD [OF s1(2)]
  let ?s2 = "s1\<lparr>mem := sd64 (mem s1) (leaf_addr (mem s1) root va) 0\<rparr>"
  have "pt_rel root s1 xs1 ?s2 xs1 ((pt_lookup (mem s1) root)(va := 0)) {}"
    using pt_rel_leaf_write [OF D1(1) _ va] la s1(3) by simp
  from pt_rel_trans [OF s1(2) this]
  have "pt_rel root s xs ?s2 xs1 ((pt_lookup (mem s1) root)(va := 0)) (if do_free then {pa} else {})" by simp
  then have "pt_rel root s xs ?s2 xs1 ((pt_lookup (mem s) root)(va := 0)) (if do_free then {pa} else {})"
    by (rule pt_rel_cong) (simp add: D1(3))
  then show ?thesis using s1(1,3) by (auto simp: kthen_def kbind_def kmod_def upd_mem_def)
qed

lemma frames_Suc:
  "frames f a (Suc n) = (if f a AND PTE_V \<noteq> 0 then {PTE2PA (f a)} else {}) \<union> frames f (a + PGSIZE) n"
proof -
  have "(\<exists>i<Suc n. P (nth_page a i)) \<longleftrightarrow> P a \<or> (\<exists>i<n. P (nth_page (a + PGSIZE) i))" for P
    by (auto simp: nth_page_Suc less_Suc_eq_0_disj)
  from this [of "\<lambda>v. x = PTE2PA (f v) \<and> f v AND PTE_V \<noteq> 0" for x]
  have "x \<in> frames f a (Suc n) \<longleftrightarrow> (x = PTE2PA (f a) \<and> f a AND PTE_V \<noteq> 0) \<or> x \<in> frames f (a + PGSIZE) n" for x
    unfolding frames_def by (simp add: conj_commute conj_left_commute)
  then show ?thesis by auto
qed

lemma frames_cong: "(\<And>i. i < n \<Longrightarrow> f (nth_page a i) = g (nth_page a i)) \<Longrightarrow> frames f a n = frames g a n"
  unfolding frames_def by (intro Collect_cong) metis

lemma frames_distinct_cong:
  "(\<And>i. i < n \<Longrightarrow> f (nth_page a i) = g (nth_page a i)) \<Longrightarrow> frames_distinct f a n = frames_distinct g a n"
  unfolding frames_distinct_def by simp

lemma frames_distinct_SucD:
  assumes "frames_distinct f a (Suc n)"
  shows "frames_distinct f (a + PGSIZE) n" "f a AND PTE_V \<noteq> 0 \<Longrightarrow> PTE2PA (f a) \<notin> frames f (a + PGSIZE) n"
proof -
  show "frames_distinct f (a + PGSIZE) n"
    using assms unfolding frames_distinct_def nth_page_Suc by (metis Suc_less_eq Suc_inject)
  show "PTE2PA (f a) \<notin> frames f (a + PGSIZE) n" if "f a AND PTE_V \<noteq> 0"
  proof
    assume "PTE2PA (f a) \<in> frames f (a + PGSIZE) n"
    then obtain i where "i < n" "PTE2PA (f a) = PTE2PA (f (nth_page a (Suc i)))" "f (nth_page a (Suc i)) AND PTE_V \<noteq> 0"
      by (auto simp: frames_def nth_page_Suc)
    then show False using assms that unfolding frames_distinct_def
      by (metis Suc_less_eq nat.simps(3) nth_page_0 zero_less_Suc)
  qed
qed

lemma unmap_run_cong: "f va = g va \<Longrightarrow> unmap_run a n f va = unmap_run a n g va"
  by (simp add: unmap_run_def)

lemma unmap_run_Suc:
  assumes "pg_aligned a" "pg_aligned va" "unat a + 4096 < 2 ^ 64"
  shows "unmap_run (a + PGSIZE) n (if f a AND PTE_V \<noteq> 0 then f(a := 0) else f) va = unmap_run a (Suc n) f va"
proof -
  have u: "unat (a + PGSIZE) = unat a + 4096" using assms(3) by (simp add: unat_word_ariths)
  obtain k l where k: "unat a = 4096 * k" and l: "unat va = 4096 * l"
    using pg_aligned_mult assms(1,2) by blast
  have "va = a \<longleftrightarrow> k = l" by (auto simp: word_unat_eq_iff k l)
  then show ?thesis unfolding unmap_run_def u unfolding k l by (auto simp: fun_upd_def)
qed

lemma uvmunmap_loop_skip:
  assumes "a < lastva" "a < MAXVA" "pt_tree (mem s) ke root" "pt_lookup (mem s) root a AND PTE_V = 0"
  shows "uvmunmap_loop (Suc n) root a lastva do_free s = uvmunmap_loop n root (a + PGSIZE) lastva do_free s"
  using assms leaf_addr_lookup [of "mem s" root a]
  by (cases "leaf_addr (mem s) root a = 0") (simp_all add: kbind_def kget_def walk_no_alloc)

lemma uvmunmap_loop_hit:
  assumes "a < lastva" "a < MAXVA" "pt_tree (mem s) ke root" "pt_lookup (mem s) root a AND PTE_V \<noteq> 0"
    and "kthen (kwhen do_free (kfree (PTE2PA (pt_lookup (mem s) root a))))
      (kmod (upd_mem (\<lambda>m. sd64 m (leaf_addr (mem s) root a) 0))) s = Ret () s'"
  shows "uvmunmap_loop (Suc n) root a lastva do_free s = uvmunmap_loop n root (a + PGSIZE) lastva do_free s'"
proof -
  have la: "leaf_addr (mem s) root a \<noteq> 0" using assms(4) pt_lookup_no_table [OF _ assms(3)] by auto
  obtain s1 where "kwhen do_free (kfree (PTE2PA (pt_lookup (mem s) root a))) s = Ret () s1"
      "s' = upd_mem (\<lambda>m. sd64 m (leaf_addr (mem s) root a) 0) s1"
    using assms(5) by (auto simp: kthen_Ret_iff)
  then show ?thesis using assms(1,2,4) la leaf_addr_lookup [OF la]
    by (simp add: kbind_def kget_def kthen_def kmod_def walk_no_alloc)
qed

lemma uvmunmap_loop_ok:
  assumes "pt_inv s root xs" "pg_aligned a" "unat a + 4096 * n \<le> 2 ^ 38" "lastva = nth_page a n"
    and "do_free \<longrightarrow> unmap_safe s root a n"
  shows "\<exists>s' xs'. uvmunmap_loop n root a lastva do_free s = Ret () s' \<and>
    pt_rel root s xs s' xs' (unmap_run a n (pt_lookup (mem s) root))
      (if do_free then frames (pt_lookup (mem s) root) a n else {})"
  using assms
proof (induction n arbitrary: s xs a)
  case 0
  have "unmap_run a 0 f = f" for f by (auto simp: unmap_run_def fun_eq_iff)
  moreover have "frames f a 0 = {}" for f by (simp add: frames_def)
  ultimately show ?case using pt_rel_refl [OF 0(1)] by (auto simp: kret_def)
next
  case (Suc n)
  let ?f = "pt_lookup (mem s) root"
  have up: "unat (a + PGSIZE) = unat a + 4096" and va: "a < MAXVA"
    using Suc.prems(3) by (simp_all add: unat_word_ariths word_less_nat_alt)
  have al: "pg_aligned (a + PGSIZE)" using Suc.prems(2) up by (simp add: pg_aligned_unat)
  have ul: "unat lastva = unat a + 4096 * Suc n"
    unfolding Suc.prems(4) nth_page_def by (rule unat_plus_nat) (use Suc.prems(3) in simp)
  have lt: "a < lastva" and last': "lastva = nth_page (a + PGSIZE) n"
    using ul Suc.prems(4) by (simp_all add: word_less_nat_alt nth_page_Suc)
  have bd: "unat (a + PGSIZE) + 4096 * n \<le> 2 ^ 38" using up Suc.prems(3) by simp
  note P = nth_page_props [OF al bd]
  note R = unmap_run_Suc [OF Suc.prems(2) _, where f = ?f and n = n]
  have b64: "unat a + 4096 < 2 ^ 64" using Suc.prems(3) by simp
  note T = pt_invD(2) [OF Suc.prems(1)]
  show ?case
  proof (cases "?f a AND PTE_V = 0")
    case True
    have "do_free \<longrightarrow> unmap_safe s root (a + PGSIZE) n"
      using Suc.prems(5) frames_distinct_SucD(1) by (auto simp: unmap_safe_def frames_Suc)
    from Suc.IH [OF Suc.prems(1) al bd last' this] obtain s' xs' where
      s': "uvmunmap_loop n root (a + PGSIZE) lastva do_free s = Ret () s'"
        "pt_rel root s xs s' xs' (unmap_run (a + PGSIZE) n ?f) (if do_free then frames ?f (a + PGSIZE) n else {})"
      by blast
    have e: "frames ?f a (Suc n) = frames ?f (a + PGSIZE) n" using True by (simp add: frames_Suc)
    have "pt_rel root s xs s' xs' (unmap_run a (Suc n) ?f) (if do_free then frames ?f a (Suc n) else {})"
      unfolding e by (rule pt_rel_cong [OF s'(2)]) (use R b64 True in simp)
    moreover have "uvmunmap_loop (Suc n) root a lastva do_free s = Ret () s'"
      using s'(1) by (simp only: uvmunmap_loop_skip [OF lt va T True])
    ultimately show ?thesis by blast
  next
    case False
    let ?pa = "PTE2PA (?f a)"
    have fr: "do_free \<longrightarrow> 1 \<le> refs s ?pa \<and> ?pa \<notin> pt_pages (mem s) root"
      using Suc.prems(5) False by (auto simp: unmap_safe_def frames_Suc)
    obtain s1 xs1 where s1: "kthen (kwhen do_free (kfree ?pa)) (kmod (upd_mem (\<lambda>m. sd64 m (leaf_addr (mem s) root a) 0))) s = Ret () s1"
        "pt_rel root s xs s1 xs1 (?f(a := 0)) (if do_free then {?pa} else {})"
      using unmap_page [OF Suc.prems(1) va Suc.prems(2) False refl fr] by blast
    note D1 = pt_relD [OF s1(2)]
    have same: "pt_lookup (mem s1) root (nth_page (a + PGSIZE) i) = ?f (nth_page (a + PGSIZE) i)" if "i < n" for i
    proof -
      have "nth_page (a + PGSIZE) i \<noteq> a" using P(1) [OF that] up by auto
      then show ?thesis using D1(3) [OF P(2,3) [OF that]] by simp
    qed
    have fc: "frames (pt_lookup (mem s1) root) (a + PGSIZE) n = frames ?f (a + PGSIZE) n"
      by (rule frames_cong) (rule same)
    have fd: "frames_distinct (pt_lookup (mem s1) root) (a + PGSIZE) n = frames_distinct ?f (a + PGSIZE) n"
      by (rule frames_distinct_cong) (rule same)
    have safe: "do_free \<longrightarrow> unmap_safe s1 root (a + PGSIZE) n"
      using Suc.prems(5) frames_distinct_SucD [of ?f a n] False fc fd D1(2,4)
      by (auto simp: unmap_safe_def frames_Suc)
    obtain s' xs' where s': "uvmunmap_loop n root (a + PGSIZE) lastva do_free s1 = Ret () s'"
        "pt_rel root s1 xs1 s' xs' (unmap_run (a + PGSIZE) n (pt_lookup (mem s1) root))
          (if do_free then frames ?f (a + PGSIZE) n else {})"
      using Suc.IH [OF D1(1) al bd last' safe] unfolding fc by blast
    have dj: "(if do_free then {?pa} else {}) \<inter> (if do_free then frames ?f (a + PGSIZE) n else {}) = {}"
      using Suc.prems(5) frames_distinct_SucD(2) [of ?f a n] False by (auto simp: unmap_safe_def)
    have "unmap_run (a + PGSIZE) n (pt_lookup (mem s1) root) v = unmap_run a (Suc n) ?f v" if "v < MAXVA" "pg_aligned v" for v
      using unmap_run_cong [where f = "pt_lookup (mem s1) root" and g = "?f(a := 0)", OF D1(3) [OF that]]
        R [OF that(2) b64] False by simp
    from pt_rel_cong [OF pt_rel_trans [OF s1(2) s'(2) dj] this]
    have "pt_rel root s xs s' xs' (unmap_run a (Suc n) ?f) (if do_free then frames ?f a (Suc n) else {})"
      using False by (cases do_free) (simp_all add: frames_Suc)
    moreover have "uvmunmap_loop (Suc n) root a lastva do_free s = Ret () s'"
      using s'(1) by (simp only: uvmunmap_loop_hit [OF lt va T False s1(1)])
    ultimately show ?thesis by blast
  qed
qed

lemma uvmunmap_ok:
  assumes "pt_inv s root xs" "pg_aligned a" "unat a + 4096 * unat n \<le> 2 ^ 38"
    and "do_free \<longrightarrow> unmap_safe s root a (unat n)"
  shows "\<exists>s' xs'. uvmunmap root a n do_free s = Ret () s' \<and>
    pt_rel root s xs s' xs' (unmap_run a (unat n) (pt_lookup (mem s) root))
      (if do_free then frames (pt_lookup (mem s) root) a (unat n) else {})"
proof -
  have "a + n * PGSIZE = nth_page a (unat n)" by (simp add: nth_page_def mult.commute)
  moreover have "uvmunmap root a n do_free s = uvmunmap_loop (unat n) root a (a + n * PGSIZE) do_free s"
    using assms(2) by (simp add: uvmunmap_def kthen_def kbind_def kguard_def kret_def pg_aligned_def)
  ultimately show ?thesis using uvmunmap_loop_ok [OF assms(1,2,3) _ assms(4)] by simp
qed

lemma mappages_remap:
  assumes "pt_inv s root xs" "pg_aligned va" "va < MAXVA" "pt_lookup (mem s) root va AND PTE_V \<noteq> 0"
    and "pg_aligned sz" "sz \<noteq> 0"
  shows "mappages root va sz pa perm s = Panic ''mappages: remap''"
proof -
  obtain k where k: "unat sz = 4096 * k" using pg_aligned_mult [OF assms(5)] by blast
  have "k \<noteq> 0"
  proof
    assume "k = 0"
    then have "unat sz = 0" using k by simp
    then show False using assms(6) by (simp only: unat_eq_0)
  qed
  then obtain n where n: "k = Suc n" by (cases k) auto
  have la: "leaf_addr (mem s) root va \<noteq> 0"
    using assms(4) pt_lookup_no_table [OF _ pt_invD(2) [OF assms(1)]] by auto
  have w: "walk root va True s = Ret (leaf_addr (mem s) root va) s"
  proof -
    obtain l0 where l0: "ptnode (mem s) root [pidx 2 va, pidx 1 va] = Some l0"
      using la leaf_addr_0_iff [OF pt_invD(2) [OF assms(1)]] by auto
    have "walk root va True s = walk_from (Suc (Suc 0)) root va True s"
      using assms(3) by (simp add: walk_def kthen_def kbind_def kguard_def kret_def numeral_2_eq_2 linorder_not_le [symmetric])
    also have "\<dots> = Ret (leaf_addr (mem s) root va) s"
      using l0 by (simp add: leaf_addr_def pte_def pte_addr_pidx kret_def Let_def numeral_2_eq_2 split: if_splits)
    finally show ?thesis .
  qed
  show ?thesis using assms(2,4,5,6) la leaf_addr_lookup [OF la] w
    by (simp add: mappages_def k n kthen_def kbind_def kguard_def kret_def kget_def kpanic_def pg_aligned_def)
qed

section \<open>An empty page table\<close>

lemma pt_inv_fresh:
  assumes "kmem_inv s (q # ys)"
  shows "\<exists>s'. uvmcreate s = Ret q s' \<and> pt_inv s' q ys \<and> pt_pages (mem s') q = {q} \<and>
    (\<forall>va. pt_lookup (mem s') q va = 0)"
proof -
  note K = kalloc_cons [OF assms]
  note ke = kmem_okD(1) [OF assms]
  note q = page_okD [OF K(3) ke]
  define s' where "s' = s\<lparr>freelist := ld64 (mem s) q, refcnt := (refcnt s)(refindex q := 1),
    mem := memset q 0 4096 (memset q 5 4096 (mem s))\<rparr>"
  have run: "uvmcreate s = Ret q s'"
    using K(1) q(2) by (simp add: uvmcreate_def kbind_def kthen_def kmod_def kret_def upd_mem_def s'_def)
  have km: "kmem_inv s' ys" using kmem_ok_memset [OF K(2) q(1) K(4)] by (simp add: s'_def)
  have z: "pte (mem s') q i = 0" if "i < 512" for i
    using that q(1) by (simp add: s'_def pte_memset0)
  have n: "ptnode (mem s') q is = (if is = [] then Some q else None)" if "pt_path is" for "is"
    using that z by (cases "is") (auto simp: pt_path_def)
  have pg: "pt_pages (mem s') q = {q}" using n unfolding pt_pages_def
    by (auto split: if_splits intro!: exI [of _ "[]"])
  have "pt_tree (mem s') (kend s') q"
    unfolding pt_tree_def pg using n ke K(3) by (auto simp: s'_def split: if_splits)
  then have "pt_inv s' q ys" using km pg K(4) by (simp add: pt_inv_def)
  moreover have "pt_lookup (mem s') q va = 0" for va
    using n [OF pt_path_pidx(1) [of 2 va 1]] by (simp add: pt_lookup_def del: ptnode.simps)
  ultimately show ?thesis using run pg by blast
qed

section \<open>Properties\<close>

text \<open>
  C12: Mapping and translation agree. On a well-formed page table, when \<^verbatim>\<open>mappages\<close> is asked for a range of
  user pages none of which is mapped and returns 0, then \<^verbatim>\<open>walkaddr\<close> translates the \<open>i\<close>-th page of the range
  to the \<open>i\<close>-th page of the physical range, and translates every page-aligned address outside the range as
  before; the page table and the allocator are consistent again.
\<close>

theorem mappages_walkaddr:
  fixes s :: "'a kmem_scheme"
  assumes "pt_inv s root xs" "pg_aligned va" "pg_aligned sz" "sz \<noteq> 0" "unat va + unat sz \<le> 2 ^ 38"
    and "pg_aligned pa" "unat pa + unat sz \<le> 2 ^ 56" "perm < 1024" "perm AND PTE_U \<noteq> 0"
    and "\<And>i. 4096 * i < unat sz \<Longrightarrow> pt_lookup (mem s) root (nth_page va i) AND PTE_V = 0"
    and "mappages root va sz pa perm s = Ret 0 s'"
  shows "(\<forall>i. 4096 * i < unat sz \<longrightarrow> walkaddr root (nth_page va i) s' = Ret (nth_page pa i) s') \<and>
    (\<forall>vb. pg_aligned vb \<longrightarrow> \<not> (unat va \<le> unat vb \<and> unat vb < unat va + unat sz) \<longrightarrow>
       (\<exists>r. walkaddr root vb s = Ret r s \<and> walkaddr root vb s' = Ret r s')) \<and>
    (\<exists>xs'. pt_inv s' root xs')"
proof -
  obtain xs' j where C: "pt_chg root s xs s' xs' (map_run va pa perm j (pt_lookup (mem s) root))" "4096 * j = unat sz"
  proof -
    obtain r t zs k where "mappages root va sz pa perm s = Ret r t"
        "pt_chg root s xs t zs (map_run va pa perm k (pt_lookup (mem s) root))"
        "r = 0 \<and> 4096 * k = unat sz \<or> r = - 1 \<and> 4096 * k < unat sz \<and> zs = []"
      using mappages_ok [OF assms(1-5), of pa perm] assms(10) unfolding nth_page_def by blast
    then show ?thesis using assms(11) that by auto
  qed
  note D = pt_chgD [OF C(1)]
  note W = walkaddr_eq [OF pt_invD(2) [OF D(1)]] and W0 = walkaddr_eq [OF pt_invD(2) [OF assms(1)]]
  have "walkaddr root (nth_page va i) s' = Ret (nth_page pa i) s'" if "4096 * i < unat sz" for i
  proof -
    have ij: "i < j" using that C(2) by simp
    note P = nth_page_props [OF assms(2) _ ij]
    have b: "unat va + 4096 * j \<le> 2 ^ 38" using assms(5) C(2) by simp
    have pu: "unat (nth_page pa i) = unat pa + 4096 * i"
      unfolding nth_page_def by (rule unat_plus_nat) (use that assms(7) in simp)
    have pa: "pg_aligned (nth_page pa i)" "nth_page pa i < 2 ^ 56"
      using pu assms(6,7) that by (simp_all add: pg_aligned_unat word_less_nat_alt)
    have "pt_lookup (mem s') root (nth_page va i) = PA2PTE (nth_page pa i) OR perm OR PTE_V"
      using D(3) [OF P(2,3) [OF b]] P(1) [OF b] ij by (simp add: map_run_def) (simp add: nth_page_def)
    then show ?thesis using walkaddr_leaf [OF pa assms(8,9)] P(2) [OF b] by (simp add: W)
  qed
  moreover have "\<exists>r. walkaddr root vb s = Ret r s \<and> walkaddr root vb s' = Ret r s'"
    if "pg_aligned vb" "\<not> (unat va \<le> unat vb \<and> unat vb < unat va + unat sz)" for vb
  proof (cases "vb < MAXVA")
    case True
    then have "pt_lookup (mem s') root vb = pt_lookup (mem s) root vb"
      using D(3) [OF True that(1)] that(2) C(2) by (simp add: map_run_def)
    then show ?thesis by (simp add: W W0)
  next
    case False
    then show ?thesis by (auto simp: W W0)
  qed
  ultimately show ?thesis using D(1) by blast
qed


text \<open>
  C14: \<^verbatim>\<open>uvmunmap\<close> with \<^verbatim>\<open>do_free\<close> releases exactly what it unmaps. On a well-formed page table whose
  range maps distinct, owned frames that are not table pages, it returns without a panic; the valid entries
  of the range become 0 and no other entry changes; every frame of the range loses exactly one reference
  and no other page does; and the pages that join the free list are exactly the frames that had one owner.
\<close>

theorem uvmunmap_releases:
  fixes s :: "'a kmem_scheme"
  assumes "pt_inv s root xs" "pg_aligned a" "unat a + 4096 * unat n \<le> 2 ^ 38" "unmap_safe s root a (unat n)"
  shows "\<exists>s' xs'. uvmunmap root a n True s = Ret () s' \<and> pt_inv s' root xs' \<and>
    (\<forall>vb. vb < MAXVA \<longrightarrow> pg_aligned vb \<longrightarrow>
       pt_lookup (mem s') root vb = unmap_run a (unat n) (pt_lookup (mem s) root) vb) \<and>
    (\<forall>x. refs s' x = refs s x - (if x \<in> frames (pt_lookup (mem s) root) a (unat n) then 1 else 0)) \<and>
    set xs' = set xs \<union> {x \<in> frames (pt_lookup (mem s) root) a (unat n). refs s x = 1}"
proof -
  obtain s' xs' where R: "uvmunmap root a n True s = Ret () s'"
    "pt_rel root s xs s' xs' (unmap_run a (unat n) (pt_lookup (mem s) root)) (frames (pt_lookup (mem s) root) a (unat n))"
    using uvmunmap_ok [OF assms(1,2,3), of True] assms(4) by auto
  note D = pt_relD [OF R(2)]
  show ?thesis
    by (intro exI [of _ s'] exI [of _ xs'] conjI allI impI) (fact R(1) D(1) D(4) D(5) | rule D(3); assumption)+
qed

section \<open>An address space with one page, for examples\<close>

lemma pt_inv_kalloc:
  assumes "pt_inv s root (q # ys)"
  shows "\<exists>s'. kalloc s = Ret q s' \<and> pt_inv s' root ys \<and> pt_pages (mem s') root = pt_pages (mem s) root \<and>
    (\<forall>va. pt_lookup (mem s') root va = pt_lookup (mem s) root va) \<and> refs s' = (refs s)(q := 1) \<and>
    page_ok (kend s') q \<and> q \<notin> pt_pages (mem s) root"
proof -
  note K = kalloc_cons [OF pt_invD(1) [OF assms]] and T = pt_invD(2) [OF assms]
  note ke = kmem_okD(1) [OF pt_invD(1) [OF assms]]
  define s' where "s' = s\<lparr>mem := memset q 5 4096 (mem s), freelist := ld64 (mem s) q,
                              refcnt := (refcnt s)(refindex q := 1)\<rparr>"
  have q: "pg_aligned q" "q \<notin> pt_pages (mem s) root"
    using page_okD(1) [OF K(3) ke] pt_invD(3) [OF assms, of q] by auto
  have eqm: "memset q 5 4096 (mem s) a = mem s a" if "p \<in> pt_pages (mem s) root" "page_of a = page_of p" for p a
    using that q pt_page_aligned [OF T that(1)] page_of_inj [of p q] by (auto simp: memset_page)
  note F = pt_frame [OF T eqm]
  have "kalloc s = Ret q s'" using K(1) by (simp add: s'_def)
  moreover have "pt_inv s' root ys"
    unfolding pt_inv_def using K(2) F(1,2) pt_invD(3) [OF assms] by (auto simp: s'_def)
  moreover have "refs s' = (refs s)(q := 1)" by (rule refs_update [OF K(3) ke]) (simp_all add: s'_def)
  ultimately show ?thesis using F(1,3) K(3) q(2) by (intro exI [of _ s']) (simp add: s'_def)
qed

lemma demo_space:
  "\<exists>(s :: kmem) ys. pt_inv s 0x87FFF000 ys \<and> length ys = 5 \<and> (\<forall>va. pt_lookup (mem s) 0x87FFF000 va = 0) \<and>
     refs s 0x87FFE000 = 1 \<and> 0x87FFE000 \<notin> pt_pages (mem s) 0x87FFF000"
proof -
  let ?b = "boot_demo\<lparr>kend := 0x87FF9000\<rparr>"
  have "PGROUNDUP (kend ?b) = 0x87FF9000" by (simp add: PGROUNDUP_def)
  moreover have "\<exists>s'. kinit ?b = Ret () s' \<and> kend s' = kend ?b \<and> refcnt s' = (\<lambda>_. 0) \<and>
      kmem_inv s' (rev (page_run (PGROUNDUP (kend ?b)) ((2281701376 - unat (PGROUNDUP (kend ?b))) div 4096)))"
    by (rule kinit_ok) (simp_all add: boot_demo_def)
  ultimately obtain s0 :: kmem where "kmem_inv s0 (rev (page_run 0x87FF9000 7))" by auto
  then have "kmem_inv s0 (0x87FFF000 # 0x87FFE000 # [0x87FFD000, 0x87FFC000, 0x87FFB000, 0x87FFA000, 0x87FF9000])"
    by (simp add: page_run_def upt_rec)
  from pt_inv_fresh [OF this] obtain s1 :: kmem where s1:
    "pt_inv s1 0x87FFF000 (0x87FFE000 # [0x87FFD000, 0x87FFC000, 0x87FFB000, 0x87FFA000, 0x87FF9000])"
    "\<forall>va. pt_lookup (mem s1) 0x87FFF000 va = 0" by blast
  from pt_inv_kalloc [OF s1(1)] s1(2) show ?thesis by fastforce
qed

lemma demo_mapped:
  "\<exists>(s :: kmem) s' ys. pt_inv s 0x87FFF000 ys \<and> (\<forall>va. pt_lookup (mem s) 0x87FFF000 va = 0) \<and>
     mappages 0x87FFF000 0 PGSIZE 0x87FFE000 (PTE_R OR PTE_U) s = Ret 0 s' \<and>
     (\<exists>xs'. pt_inv s' 0x87FFF000 xs') \<and> pt_lookup (mem s') 0x87FFF000 0 = PA2PTE 0x87FFE000 OR (PTE_R OR PTE_U) OR PTE_V \<and>
     refs s' 0x87FFE000 = 1 \<and> 0x87FFE000 \<notin> pt_pages (mem s') 0x87FFF000"
proof -
  obtain s :: kmem and ys where s: "pt_inv s 0x87FFF000 ys" "length ys = 5" "\<forall>va. pt_lookup (mem s) 0x87FFF000 va = 0"
     "refs s 0x87FFE000 = 1" "0x87FFE000 \<notin> pt_pages (mem s) 0x87FFF000" using demo_space by blast
  obtain s' xs' where s': "mappages 0x87FFF000 0 PGSIZE 0x87FFE000 (PTE_R OR PTE_U) s = Ret 0 s'"
    "pt_chg 0x87FFF000 s ys s' xs' ((pt_lookup (mem s) 0x87FFF000)(0 := PA2PTE 0x87FFE000 OR (PTE_R OR PTE_U) OR PTE_V))"
    using mappages_one [OF s(1), where va = 0 and pa = "0x87FFE000" and perm = "PTE_R OR PTE_U"] s(2,3) by (auto simp: pg_aligned_def)
  note D = pt_chgD [OF s'(2)]
  obtain zs where zs: "ys = zs @ xs'" "pt_pages (mem s') 0x87FFF000 = set zs \<union> pt_pages (mem s) 0x87FFF000"
      "refs s' = (\<lambda>x. if x \<in> set zs then 1 else refs s x)" using D(2) by blast
  have "0x87FFE000 \<notin> set ys"
    using ka.inv_free [OF pt_invD(1) [OF s(1)]] s(4) by auto
  then have "refs s' 0x87FFE000 = 1" "0x87FFE000 \<notin> pt_pages (mem s') 0x87FFF000"
    using zs s(4,5) by auto
  moreover have "pt_lookup (mem s') 0x87FFF000 0 = PA2PTE 0x87FFE000 OR (PTE_R OR PTE_U) OR PTE_V"
    using D(3) [of 0] by (simp add: pg_aligned_def)
  ultimately show ?thesis using s(1,3) s'(1) D(1) by blast
qed

theorem mappages_walkaddr_witness:
  "\<exists>(s' :: kmem). walkaddr 0x87FFF000 0 s' = Ret 0x87FFE000 s'"
proof -
  obtain s s' :: kmem and ys where s: "pt_inv s 0x87FFF000 ys" "\<forall>va. pt_lookup (mem s) 0x87FFF000 va = 0"
     "mappages 0x87FFF000 0 PGSIZE 0x87FFE000 (PTE_R OR PTE_U) s = Ret 0 s'" using demo_mapped by blast
  have "walkaddr 0x87FFF000 (nth_page 0 0) s' = Ret (nth_page 0x87FFE000 0) s'"
    using mappages_walkaddr [OF s(1) _ _ _ _ _ _ _ _ _ s(3)] s(2) by (simp add: pg_aligned_def)
  then show ?thesis by auto
qed


theorem uvmunmap_releases_witness:
  "\<exists>(s :: kmem) s'. uvmunmap 0x87FFF000 0 1 True s = Ret () s' \<and> refs s 0x87FFE000 = 1 \<and> refs s' 0x87FFE000 = 0"
proof -
  obtain s :: kmem and xs where s: "pt_inv s 0x87FFF000 xs"
     "pt_lookup (mem s) 0x87FFF000 0 = PA2PTE 0x87FFE000 OR (PTE_R OR PTE_U) OR PTE_V"
     "refs s 0x87FFE000 = 1" "0x87FFE000 \<notin> pt_pages (mem s) 0x87FFF000" using demo_mapped by blast
  have e: "PTE2PA (PA2PTE 0x87FFE000 OR (PTE_R OR PTE_U) OR PTE_V) = 0x87FFE000"
      "(PA2PTE 0x87FFE000 OR (PTE_R OR PTE_U) OR PTE_V) AND PTE_V \<noteq> 0"
    by (simp_all add: PTE2PA_def PA2PTE_def)
  then have fr: "frames (pt_lookup (mem s) 0x87FFF000) 0 1 = {0x87FFE000}"
    using s(2) by (auto simp: frames_def)
  have safe: "unmap_safe s 0x87FFF000 0 1"
    using s(3,4) fr by (simp add: unmap_safe_def frames_distinct_def)
  obtain s' where "uvmunmap 0x87FFF000 0 1 True s = Ret () s'"
    "refs s' 0x87FFE000 = refs s 0x87FFE000 - (if 0x87FFE000 \<in> frames (pt_lookup (mem s) 0x87FFF000) 0 1 then 1 else 0)"
    using uvmunmap_releases [OF s(1), where a = 0 and n = 1] safe by (auto simp: pg_aligned_def)
  then show ?thesis using s(3) fr by auto
qed

end
