(* ===== verification/Locks.thy ===== *)
theory Locks
  imports Sched
begin

text \<open>
  Spin locks and sleep locks: \<^verbatim>\<open>kernel/spinlock.c\<close>, \<^verbatim>\<open>kernel/sleeplock.c\<close> and the checks of \<^verbatim>\<open>sched\<close>.

  The spin locks are modelled for all CPUs at once. A CPU is an index into \<^verbatim>\<open>cpus\<close>, a lock an index
  into the list of locks; \<open>sie\<close> is the interrupt-enable bit that \<^verbatim>\<open>intr_get\<close>, \<^verbatim>\<open>intr_on\<close> and \<^verbatim>\<open>intr_off\<close> read and
  write. \<^verbatim>\<open>acquire\<close> and \<^verbatim>\<open>release\<close> are cut at their atomic memory operations, so that the step relation
  interleaves the CPUs between them.
\<close>

section \<open>Spin locks\<close>

record cpu =
  noff :: int
  intena :: bool
  sie :: bool

record spinlock =
  lk_locked :: bool
  lk_name :: string
  lk_cpu :: "nat option"

text \<open>Where a CPU is inside \<^verbatim>\<open>acquire\<close> or \<^verbatim>\<open>release\<close>.\<close>

datatype pend = Idle | WantSwap nat | SetCpu nat | RelSwap nat

record smp =
  cpus :: "cpu list"
  locks :: "spinlock list"
  pending :: "nat \<Rightarrow> pend"

definition upd_cpu :: "nat \<Rightarrow> (cpu \<Rightarrow> cpu) \<Rightarrow> smp \<Rightarrow> smp" where
  "upd_cpu c f s = s\<lparr>cpus := (cpus s)[c := f (cpus s ! c)]\<rparr>"

definition upd_lock :: "nat \<Rightarrow> (spinlock \<Rightarrow> spinlock) \<Rightarrow> smp \<Rightarrow> smp" where
  "upd_lock l f s = s\<lparr>locks := (locks s)[l := f (locks s ! l)]\<rparr>"

definition initlock :: "nat \<Rightarrow> string \<Rightarrow> smp \<Rightarrow> smp" where
  "initlock l name = upd_lock l (\<lambda>lk. lk\<lparr>lk_name := name, lk_locked := False, lk_cpu := None\<rparr>)"

definition holding :: "nat \<Rightarrow> nat \<Rightarrow> smp \<Rightarrow> bool" where
  "holding c l s \<longleftrightarrow> lk_locked (locks s ! l) \<and> lk_cpu (locks s ! l) = Some c"

definition push_off :: "nat \<Rightarrow> smp \<Rightarrow> smp" where
  "push_off c s = upd_cpu c (\<lambda>k.
     let old = sie k; k = k\<lparr>sie := False\<rparr>;
         k = (if noff k = 0 then k\<lparr>intena := old\<rparr> else k)
     in k\<lparr>noff := noff k + 1\<rparr>) s"

definition pop_off :: "nat \<Rightarrow> (smp, unit) kmon" where
  "pop_off c s =
     (let k = cpus s ! c in
      if sie k then Panic ''pop_off - interruptible''
      else if noff k < 1 then Panic ''pop_off''
      else let k = k\<lparr>noff := noff k - 1\<rparr> in
        Ret () (upd_cpu c (\<lambda>_. if noff k = 0 \<and> intena k then k\<lparr>sie := True\<rparr> else k) s))"

text \<open>\<^verbatim>\<open>acquire\<close>: up to the loop, one turn of the loop, and the rest.\<close>

definition acquire_enter :: "nat \<Rightarrow> nat \<Rightarrow> (smp, unit) kmon" where
  "acquire_enter c l s =
     (let s = push_off c s in
      if holding c l s then Panic ''acquire''
      else Ret () (s\<lparr>pending := (pending s)(c := WantSwap l)\<rparr>))"

definition acquire_swap :: "nat \<Rightarrow> nat \<Rightarrow> smp \<Rightarrow> smp" where
  "acquire_swap c l s =
     (let old = lk_locked (locks s ! l); s = upd_lock l (\<lambda>lk. lk\<lparr>lk_locked := True\<rparr>) s in
      if old then s else s\<lparr>pending := (pending s)(c := SetCpu l)\<rparr>)"

definition acquire_done :: "nat \<Rightarrow> nat \<Rightarrow> smp \<Rightarrow> smp" where
  "acquire_done c l s =
     (upd_lock l (\<lambda>lk. lk\<lparr>lk_cpu := Some c\<rparr>) s)\<lparr>pending := (pending s)(c := Idle)\<rparr>"

text \<open>\<^verbatim>\<open>release\<close>: up to the atomic store, and the rest.\<close>

definition release_enter :: "nat \<Rightarrow> nat \<Rightarrow> (smp, unit) kmon" where
  "release_enter c l s =
     (if \<not> holding c l s then Panic ''release''
      else Ret () ((upd_lock l (\<lambda>lk. lk\<lparr>lk_cpu := None\<rparr>) s)\<lparr>pending := (pending s)(c := RelSwap l)\<rparr>))"

definition release_done :: "nat \<Rightarrow> nat \<Rightarrow> (smp, unit) kmon" where
  "release_done c l s =
     pop_off c ((upd_lock l (\<lambda>lk. lk\<lparr>lk_locked := False\<rparr>) s)\<lparr>pending := (pending s)(c := Idle)\<rparr>)"

text \<open>The checks of \<^verbatim>\<open>sched\<close> before it switches; it returns the \<^verbatim>\<open>intena\<close> it restores afterwards.\<close>

definition sched :: "nat \<Rightarrow> nat \<Rightarrow> procstate \<Rightarrow> (smp, bool) kmon" where
  "sched c plock st s =
     (if \<not> holding c plock s then Panic ''sched p->lock''
      else if noff (cpus s ! c) \<noteq> 1 then Panic ''sched locks''
      else if st = RUNNING then Panic ''sched RUNNING''
      else if sie (cpus s ! c) then Panic ''sched interruptible''
      else Ret (intena (cpus s ! c)) s)"

text \<open>
  One step of one CPU: it starts to acquire a lock it does not hold, tries the swap, records itself,
  starts to release a lock it holds, or completes the release; or its interrupts are switched by other
  code while it holds no lock.
\<close>

inductive lock_step :: "smp \<Rightarrow> smp \<Rightarrow> bool" where
  enter: "\<lbrakk>c < length (cpus s); l < length (locks s); pending s c = Idle; acquire_enter c l s = Ret () s'\<rbrakk>
    \<Longrightarrow> lock_step s s'"
| swap: "\<lbrakk>c < length (cpus s); l < length (locks s); pending s c = WantSwap l\<rbrakk> \<Longrightarrow> lock_step s (acquire_swap c l s)"
| record_cpu: "\<lbrakk>c < length (cpus s); l < length (locks s); pending s c = SetCpu l\<rbrakk> \<Longrightarrow> lock_step s (acquire_done c l s)"
| rel: "\<lbrakk>c < length (cpus s); l < length (locks s); pending s c = Idle; release_enter c l s = Ret () s'\<rbrakk>
    \<Longrightarrow> lock_step s s'"
| rel_done: "\<lbrakk>c < length (cpus s); l < length (locks s); pending s c = RelSwap l; release_done c l s = Ret () s'\<rbrakk>
    \<Longrightarrow> lock_step s s'"
| intr: "\<lbrakk>c < length (cpus s); pending s c = Idle; noff (cpus s ! c) = 0\<rbrakk>
    \<Longrightarrow> lock_step s (upd_cpu c (\<lambda>k. k\<lparr>sie := b\<rparr>) s)"

section \<open>Sleep locks\<close>

record sleeplock =
  sl_locked :: bool
  sl_pid :: int

definition initsleeplock :: sleeplock where
  "initsleeplock = \<lparr>sl_locked = False, sl_pid = 0\<rparr>"

text \<open>The pid of \<^verbatim>\<open>myproc()\<close>.\<close>

definition mypid :: "'a ptable_scheme \<Rightarrow> int" where
  "mypid s = (case curproc s of Some i \<Rightarrow> p_pid (procs s ! i) | None \<Rightarrow> 0)"

text \<open>
  A sleep lock is a field of some object of the state: \<open>get\<close> and \<open>put\<close> read and write it, and \<open>ch\<close>
  is the channel its waiters sleep on.
\<close>

definition acquiresleep :: "channel \<Rightarrow> ('a ptable_scheme \<Rightarrow> sleeplock) \<Rightarrow>
    (sleeplock \<Rightarrow> 'a ptable_scheme \<Rightarrow> 'a ptable_scheme) \<Rightarrow> ('a ptable_scheme, unit) kmon" where
  "acquiresleep ch get put s =
     (if sl_locked (get s) then Sleep ch s
      else Ret () (put \<lparr>sl_locked = True, sl_pid = mypid s\<rparr> s))"

definition releasesleep :: "channel \<Rightarrow> (sleeplock \<Rightarrow> 'a ptable_scheme \<Rightarrow> 'a ptable_scheme) \<Rightarrow>
    'a ptable_scheme \<Rightarrow> 'a ptable_scheme" where
  "releasesleep ch put s = wakeup ch (put \<lparr>sl_locked = False, sl_pid = 0\<rparr> s)"

definition holdingsleep :: "('a ptable_scheme \<Rightarrow> sleeplock) \<Rightarrow> 'a ptable_scheme \<Rightarrow> bool" where
  "holdingsleep get s \<longleftrightarrow> sl_locked (get s) \<and> sl_pid (get s) = mypid s"

section \<open>Specification\<close>

text \<open>A CPU owns a lock from the swap that set it to the store that clears it.\<close>

definition owns :: "nat \<Rightarrow> nat \<Rightarrow> smp \<Rightarrow> bool" where
  "owns c l s \<longleftrightarrow> lk_cpu (locks s ! l) = Some c \<or> pending s c = SetCpu l \<or> pending s c = RelSwap l"

definition owned :: "nat \<Rightarrow> smp \<Rightarrow> nat set" where
  "owned c s = {l. l < length (locks s) \<and> owns c l s}"

definition spinning :: "nat \<Rightarrow> smp \<Rightarrow> nat" where
  "spinning c s = (case pending s c of WantSwap l \<Rightarrow> 1 | _ \<Rightarrow> 0)"

definition lock_inv :: "smp \<Rightarrow> bool" where
  "lock_inv s \<longleftrightarrow>
     (\<forall>l c. l < length (locks s) \<longrightarrow> owns c l s \<longrightarrow> lk_locked (locks s ! l) \<and> c < length (cpus s)) \<and>
     (\<forall>l c c'. l < length (locks s) \<longrightarrow> owns c l s \<longrightarrow> owns c' l s \<longrightarrow> c = c') \<and>
     (\<forall>l c. l < length (locks s) \<longrightarrow> lk_cpu (locks s ! l) = Some c \<longrightarrow> pending s c \<noteq> SetCpu l \<and> pending s c \<noteq> RelSwap l) \<and>
     (\<forall>c. c < length (cpus s) \<longrightarrow> noff (cpus s ! c) = int (card (owned c s) + spinning c s)) \<and>
     (\<forall>c. c < length (cpus s) \<longrightarrow> 0 < noff (cpus s ! c) \<longrightarrow> \<not> sie (cpus s ! c))"

definition smp_init :: "smp \<Rightarrow> bool" where
  "smp_init s \<longleftrightarrow> (\<forall>l<length (locks s). locks s ! l = (locks s ! l)\<lparr>lk_locked := False, lk_cpu := None\<rparr>) \<and>
     (\<forall>c<length (cpus s). noff (cpus s ! c) = 0) \<and> pending s = (\<lambda>_. Idle)"

text \<open>A run of \<^verbatim>\<open>push_off\<close> (\<^term>\<open>True\<close>) and \<^verbatim>\<open>pop_off\<close> (\<^term>\<open>False\<close>) on one CPU, and its nesting depth.\<close>

fun irq_run :: "nat \<Rightarrow> bool list \<Rightarrow> (smp, unit) kmon" where
  "irq_run c [] = kret ()"
| "irq_run c (True # r) = kthen (kmod (push_off c)) (irq_run c r)"
| "irq_run c (False # r) = kthen (pop_off c) (irq_run c r)"

fun nest :: "nat \<Rightarrow> bool list \<Rightarrow> nat option" where
  "nest d [] = Some d"
| "nest d (True # r) = nest (Suc d) r"
| "nest 0 (False # r) = None"
| "nest (Suc d) (False # r) = nest d r"

definition demo_smp :: smp where
  "demo_smp = \<lparr>cpus = replicate 2 \<lparr>noff = 0, intena = False, sie = True\<rparr>,
     locks = [\<lparr>lk_locked = False, lk_name = ''kmem'', lk_cpu = None\<rparr>], pending = (\<lambda>_. Idle)\<rparr>"

definition demo_smp_held :: smp where
  "demo_smp_held = \<lparr>cpus = [\<lparr>noff = 1, intena = True, sie = False\<rparr>, \<lparr>noff = 0, intena = False, sie = True\<rparr>],
     locks = [\<lparr>lk_locked = True, lk_name = ''kmem'', lk_cpu = Some 0\<rparr>], pending = (\<lambda>_. Idle)\<rparr>"

section \<open>Lemmas\<close>

lemma len_upd [simp]:
  "length (cpus (upd_cpu c f s)) = length (cpus s)" "locks (upd_cpu c f s) = locks s" "pending (upd_cpu c f s) = pending s"
  "length (locks (upd_lock l g s)) = length (locks s)" "cpus (upd_lock l g s) = cpus s" "pending (upd_lock l g s) = pending s"
  by (simp_all add: upd_cpu_def upd_lock_def)

lemma upd_nth:
  "c' < length (cpus s) \<Longrightarrow> cpus (upd_cpu c f s) ! c' = (if c' = c then f (cpus s ! c) else cpus s ! c')"
  "l' < length (locks s) \<Longrightarrow> locks (upd_lock l g s) ! l' = (if l' = l then g (locks s ! l) else locks s ! l')"
  by (auto simp: upd_cpu_def upd_lock_def nth_list_update)

lemma push_off_cpu:
  "c < length (cpus s) \<Longrightarrow> cpus (push_off c s) ! c =
    (cpus s ! c)\<lparr>sie := False, intena := (if noff (cpus s ! c) = 0 then sie (cpus s ! c) else intena (cpus s ! c)),
       noff := noff (cpus s ! c) + 1\<rparr>"
  "\<lbrakk>c' < length (cpus s); c' \<noteq> c\<rbrakk> \<Longrightarrow> cpus (push_off c s) ! c' = cpus s ! c'"
  "length (cpus (push_off c s)) = length (cpus s)" "locks (push_off c s) = locks s" "pending (push_off c s) = pending s"
  by (auto simp: push_off_def upd_nth Let_def intro!: cpu.equality)

lemma irq_run_nest:
  assumes "c < length (cpus s)" "nest d r = Some e" "noff (cpus s ! c) = int d"
    and "if d = 0 then sie (cpus s ! c) = b else \<not> sie (cpus s ! c) \<and> intena (cpus s ! c) = b"
  shows "\<exists>s'. irq_run c r s = Ret () s' \<and> noff (cpus s' ! c) = int e \<and>
    (if e = 0 then sie (cpus s' ! c) = b else \<not> sie (cpus s' ! c) \<and> intena (cpus s' ! c) = b)"
  using assms
proof (induction d r arbitrary: s rule: nest.induct)
  case (2 d r)
  show ?case
    using 2(1)[of "push_off c s"] 2(2-) by (auto simp: kernel_defs push_off_cpu split: if_splits)
next
  case (4 d r)
  let ?k = "(cpus s ! c)\<lparr>noff := int d\<rparr>"
  let ?s = "upd_cpu c (\<lambda>_. if d = 0 \<and> intena (cpus s ! c) then ?k\<lparr>sie := True\<rparr> else ?k) s"
  have p: "pop_off c s = Ret () ?s"
    using 4(2-) by (simp add: pop_off_def Let_def)
  show ?case
    using 4(1)[of ?s] 4(2-) p by (auto simp: kernel_defs upd_nth split: if_splits)
qed (auto simp: kernel_defs)

lemma lock_invD:
  assumes "lock_inv s"
  shows "\<And>l c. \<lbrakk>l < length (locks s); owns c l s\<rbrakk> \<Longrightarrow> lk_locked (locks s ! l)"
    and "\<And>l c. \<lbrakk>l < length (locks s); owns c l s\<rbrakk> \<Longrightarrow> c < length (cpus s)"
    and "\<And>l c c'. \<lbrakk>l < length (locks s); owns c l s; owns c' l s\<rbrakk> \<Longrightarrow> c = c'"
    and "\<And>l c. \<lbrakk>l < length (locks s); lk_cpu (locks s ! l) = Some c\<rbrakk> \<Longrightarrow> pending s c \<noteq> SetCpu l \<and> pending s c \<noteq> RelSwap l"
    and "\<And>c. c < length (cpus s) \<Longrightarrow> noff (cpus s ! c) = int (card (owned c s) + spinning c s)"
    and "\<And>c. \<lbrakk>c < length (cpus s); 0 < noff (cpus s ! c)\<rbrakk> \<Longrightarrow> \<not> sie (cpus s ! c)"
  using assms unfolding lock_inv_def by blast+

lemma lock_invI:
  assumes "\<And>l c. \<lbrakk>l < length (locks s); owns c l s\<rbrakk> \<Longrightarrow> lk_locked (locks s ! l) \<and> c < length (cpus s)"
    and "\<And>l c c'. \<lbrakk>l < length (locks s); owns c l s; owns c' l s\<rbrakk> \<Longrightarrow> c = c'"
    and "\<And>l c. \<lbrakk>l < length (locks s); lk_cpu (locks s ! l) = Some c\<rbrakk> \<Longrightarrow> pending s c \<noteq> SetCpu l \<and> pending s c \<noteq> RelSwap l"
    and "\<And>c. c < length (cpus s) \<Longrightarrow> noff (cpus s ! c) = int (card (owned c s) + spinning c s)"
    and "\<And>c. \<lbrakk>c < length (cpus s); 0 < noff (cpus s ! c)\<rbrakk> \<Longrightarrow> \<not> sie (cpus s ! c)"
  shows "lock_inv s"
  unfolding lock_inv_def using assms by blast

lemma finite_owned [simp]: "finite (owned c s)"
  by (simp add: owned_def)

lemma owns_noff:
  assumes "lock_inv s" "l < length (locks s)" "owns c l s"
  shows "0 < noff (cpus s ! c)" "\<not> sie (cpus s ! c)"
proof -
  have c: "c < length (cpus s)"
    by (rule lock_invD(2)[OF assms])
  have "owned c s \<noteq> {}"
    using assms(2,3) by (auto simp: owned_def)
  then have "card (owned c s) > 0"
    by (simp add: card_gt_0_iff)
  then show n: "0 < noff (cpus s ! c)"
    using lock_invD(5)[OF assms(1) c] by linarith
  show "\<not> sie (cpus s ! c)"
    by (rule lock_invD(6)[OF assms(1) c n])
qed

text \<open>A step that keeps who owns what needs to account only for the counters.\<close>

lemma lock_inv_same_owner:
  assumes i: "lock_inv s" and len: "length (locks s') = length (locks s)" "length (cpus s') = length (cpus s)"
    and ow: "\<And>d l. l < length (locks s) \<Longrightarrow> owns d l s' = owns d l s"
    and lk: "\<And>l. l < length (locks s) \<Longrightarrow> lk_locked (locks s' ! l) = lk_locked (locks s ! l)"
    and cp: "\<And>l d. \<lbrakk>l < length (locks s); lk_cpu (locks s' ! l) = Some d\<rbrakk> \<Longrightarrow> pending s' d \<noteq> SetCpu l \<and> pending s' d \<noteq> RelSwap l"
    and no: "\<And>d. d < length (cpus s) \<Longrightarrow> noff (cpus s' ! d) - int (spinning d s') = noff (cpus s ! d) - int (spinning d s)"
    and si: "\<And>d. \<lbrakk>d < length (cpus s); 0 < noff (cpus s' ! d)\<rbrakk> \<Longrightarrow> \<not> sie (cpus s' ! d)"
  shows "lock_inv s'"
proof -
  have od: "owned d s' = owned d s" for d
    using ow len by (auto simp: owned_def)
  have "noff (cpus s' ! d) = int (card (owned d s') + spinning d s')" if "d < length (cpus s)" for d
    using no[OF that] lock_invD(5)[OF i that] by (simp add: od)
  then show ?thesis
    using lock_invD(1,2)[OF i] lock_invD(3)[OF i] cp si len ow lk by (intro lock_invI) (simp_all; blast)+
qed

lemma enter_inv:
  assumes "lock_inv s" "c < length (cpus s)" "pending s c = Idle" "acquire_enter c l s = Ret () s'"
  shows "lock_inv s'"
proof -
  have e: "s' = (push_off c s)\<lparr>pending := (pending s)(c := WantSwap l)\<rparr>"
    using assms(4) by (auto simp: acquire_enter_def Let_def push_off_cpu split: if_splits)
  have n: "cpus s' ! d = (if d = c then cpus (push_off c s) ! c else cpus s ! d)" if "d < length (cpus s)" for d
    using that e by (simp add: push_off_cpu)
  show ?thesis
  proof (rule lock_inv_same_owner[OF assms(1)])
    show "owns d k s' = owns d k s" for d k
      using assms(3) e by (auto simp: owns_def push_off_cpu)
    show "\<lbrakk>k < length (locks s); lk_cpu (locks s' ! k) = Some d\<rbrakk> \<Longrightarrow> pending s' d \<noteq> SetCpu k \<and> pending s' d \<noteq> RelSwap k" for k d
      using lock_invD(4)[OF assms(1), of k d] e by (auto simp: push_off_cpu)
    show "noff (cpus s' ! d) - int (spinning d s') = noff (cpus s ! d) - int (spinning d s)" if "d < length (cpus s)" for d
      using that assms(2,3) by (auto simp: n spinning_def e push_off_cpu)
    show "\<lbrakk>d < length (cpus s); 0 < noff (cpus s' ! d)\<rbrakk> \<Longrightarrow> \<not> sie (cpus s' ! d)" for d
      using lock_invD(6)[OF assms(1), of d] assms(2) n by (auto simp: push_off_cpu split: if_splits)
  qed (simp_all add: e push_off_cpu)
qed

lemma swap_inv:
  assumes i: "lock_inv s" and a: "c < length (cpus s)" "l < length (locks s)" "pending s c = WantSwap l"
  shows "lock_inv (acquire_swap c l s)"
proof (cases "lk_locked (locks s ! l)")
  case True
  then have e: "(locks s ! l)\<lparr>lk_locked := True\<rparr> = locks s ! l"
    by (intro spinlock.equality) simp_all
  have "acquire_swap c l s = s"
    using True unfolding acquire_swap_def Let_def upd_lock_def e by simp
  then show ?thesis using i by simp
next
  case False
  let ?s = "acquire_swap c l s"
  have e: "?s = (upd_lock l (\<lambda>lk. lk\<lparr>lk_locked := True\<rparr>) s)\<lparr>pending := (pending s)(c := SetCpu l)\<rparr>"
    using False by (simp add: acquire_swap_def Let_def)
  have len: "length (locks ?s) = length (locks s)" "cpus ?s = cpus s" "pending ?s = (pending s)(c := SetCpu l)"
    by (simp_all add: e)
  have free: "\<not> owns d l s" for d
    using lock_invD(1)[OF i a(2)] False by blast
  have ow: "owns d k ?s \<longleftrightarrow> (d = c \<and> k = l) \<or> owns d k s" if "k < length (locks s)" for d k
    using that a(3) unfolding owns_def len by (auto simp: e upd_nth)
  have od: "owned d ?s = (if d = c then insert l (owned c s) else owned d s)" for d
    using a(2) unfolding owned_def len by (auto simp: ow)
  have sp: "spinning d ?s = (if d = c then 0 else spinning d s)" "spinning c s = 1" for d
    using a(3) by (simp_all add: spinning_def len)
  have nl: "l \<notin> owned c s"
    using free by (simp add: owned_def)
  have nf: "noff (cpus s ! d) = int (card (owned d ?s) + spinning d ?s)" if "d < length (cpus s)" for d
    using lock_invD(5)[OF i that] nl by (simp add: od sp)
  have lc: "locks ?s ! k = (if k = l then (locks s ! l)\<lparr>lk_locked := True\<rparr> else locks s ! k)" if "k < length (locks s)" for k
    using that by (simp add: e upd_nth)
  show ?thesis
  proof (rule lock_invI, unfold len)
    fix k d assume k: "k < length (locks s)"
    { assume "owns d k ?s"
      then show "lk_locked (locks ?s ! k) \<and> d < length (cpus s)"
        using a(1) lock_invD(1,2)[OF i k, of d] unfolding ow[OF k] lc[OF k] by auto }
    { fix d' assume "owns d k ?s" "owns d' k ?s"
      then show "d = d'" using free[of d] free[of d'] lock_invD(3)[OF i k, of d d'] unfolding ow[OF k] by auto }
    { assume "lk_cpu (locks ?s ! k) = Some d"
      then have "lk_cpu (locks s ! k) = Some d" unfolding lc[OF k] by (simp split: if_splits)
      then show "((pending s)(c := SetCpu l)) d \<noteq> SetCpu k \<and> ((pending s)(c := SetCpu l)) d \<noteq> RelSwap k"
        using free[of d] lock_invD(4)[OF i k, of d] by (auto simp: owns_def) }
  next
    fix d assume d: "d < length (cpus s)"
    show "noff (cpus s ! d) = int (card (owned d ?s) + spinning d ?s)" by (rule nf[OF d])
    show "0 < noff (cpus s ! d) \<Longrightarrow> \<not> sie (cpus s ! d)" by (rule lock_invD(6)[OF i d])
  qed
qed

lemma pending_no_cpu:
  assumes i: "lock_inv s" and a: "l < length (locks s)" "pending s c = SetCpu l \<or> pending s c = RelSwap l"
  shows "lk_cpu (locks s ! l) = None"
proof (cases "lk_cpu (locks s ! l)")
  case (Some d)
  then have "d = c"
    using lock_invD(3)[OF i a(1), of d c] a(2) by (simp add: owns_def)
  then show ?thesis using lock_invD(4)[OF i a(1) Some] a(2) by simp
qed

lemma done_inv:
  assumes i: "lock_inv s" and a: "c < length (cpus s)" "l < length (locks s)" "pending s c = SetCpu l"
  shows "lock_inv (acquire_done c l s)"
proof -
  let ?s = "acquire_done c l s"
  have oc: "owns c l s"
    using a by (simp add: owns_def)
  have none: "lk_cpu (locks s ! l) = None"
    by (rule pending_no_cpu[where c = c, OF i a(2)]) (simp add: a(3))
  show ?thesis
  proof (rule lock_inv_same_owner[OF i])
    show "owns d k ?s = owns d k s" if "k < length (locks s)" for d k
      using that a(3) none by (auto simp: owns_def acquire_done_def upd_nth)
    show "pending ?s d \<noteq> SetCpu k \<and> pending ?s d \<noteq> RelSwap k" if "k < length (locks s)" "lk_cpu (locks ?s ! k) = Some d" for k d
      using that lock_invD(4)[OF i that(1), of d] by (auto simp: acquire_done_def upd_nth split: if_splits)
  qed (use a lock_invD(6)[OF i] in \<open>auto simp: acquire_done_def upd_nth spinning_def\<close>)
qed

lemma rel_inv:
  assumes i: "lock_inv s" and a: "c < length (cpus s)" "l < length (locks s)" "pending s c = Idle"
    and r: "release_enter c l s = Ret () s'"
  shows "lock_inv s'"
proof -
  have h: "lk_cpu (locks s ! l) = Some c"
    and e: "s' = (upd_lock l (\<lambda>lk. lk\<lparr>lk_cpu := None\<rparr>) s)\<lparr>pending := (pending s)(c := RelSwap l)\<rparr>"
    using r by (auto simp: release_enter_def holding_def split: if_splits)
  show ?thesis
  proof (rule lock_inv_same_owner[OF i])
    show "owns d k s' = owns d k s" if "k < length (locks s)" for d k
      using that a(3) h by (auto simp: owns_def e upd_nth)
    show "pending s' d \<noteq> SetCpu k \<and> pending s' d \<noteq> RelSwap k" if "k < length (locks s)" "lk_cpu (locks s' ! k) = Some d" for k d
      using that lock_invD(4)[OF i that(1), of d] by (auto simp: e upd_nth split: if_splits)
  qed (use a lock_invD(6)[OF i] in \<open>auto simp: e upd_nth spinning_def\<close>)
qed

lemma rel_done_state:
  assumes i: "lock_inv s" and a: "c < length (cpus s)" "l < length (locks s)" "pending s c = RelSwap l"
  obtains s' where "release_done c l s = Ret () s'" "length (locks s') = length (locks s)" "length (cpus s') = length (cpus s)"
    "pending s' = (pending s)(c := Idle)" "noff (cpus s' ! c) = noff (cpus s ! c) - 1"
    "sie (cpus s' ! c) \<longleftrightarrow> noff (cpus s ! c) = 1 \<and> intena (cpus s ! c)" "\<forall>d. d < length (cpus s) \<longrightarrow> d \<noteq> c \<longrightarrow> cpus s' ! d = cpus s ! d"
    "\<forall>k. k < length (locks s) \<longrightarrow> locks s' ! k = (if k = l then (locks s ! l)\<lparr>lk_locked := False\<rparr> else locks s ! k)"
proof -
  let ?k = "(cpus s ! c)\<lparr>noff := noff (cpus s ! c) - 1\<rparr>"
  let ?s1 = "(upd_lock l (\<lambda>lk. lk\<lparr>lk_locked := False\<rparr>) s)\<lparr>pending := (pending s)(c := Idle)\<rparr>"
  let ?s = "upd_cpu c (\<lambda>_. if noff ?k = 0 \<and> intena ?k then ?k\<lparr>sie := True\<rparr> else ?k) ?s1"
  have "owns c l s"
    using a by (simp add: owns_def)
  note n = owns_noff[OF i a(2) this] and off = owns_noff(2)[OF i a(2) this]
  have "release_done c l s = Ret () ?s"
    using n off by (simp add: release_done_def pop_off_def Let_def)
  then show thesis
    by (rule that) (use a off in \<open>auto simp: upd_nth split: if_splits\<close>)
qed

lemma rel_done_inv:
  assumes i: "lock_inv s" and a: "c < length (cpus s)" "l < length (locks s)" "pending s c = RelSwap l"
  shows "\<exists>s'. release_done c l s = Ret () s' \<and> lock_inv s'"
proof -
  obtain s' where r: "release_done c l s = Ret () s'" and len: "length (locks s') = length (locks s)"
    "length (cpus s') = length (cpus s)" "pending s' = (pending s)(c := Idle)"
    and n: "noff (cpus s' ! c) = noff (cpus s ! c) - 1" and si: "sie (cpus s' ! c) \<longleftrightarrow> noff (cpus s ! c) = 1 \<and> intena (cpus s ! c)"
    and cp: "\<forall>d. d < length (cpus s) \<longrightarrow> d \<noteq> c \<longrightarrow> cpus s' ! d = cpus s ! d"
    and lc': "\<forall>k. k < length (locks s) \<longrightarrow> locks s' ! k = (if k = l then (locks s ! l)\<lparr>lk_locked := False\<rparr> else locks s ! k)"
    by (rule rel_done_state[OF i a])
  note lc = lc'[rule_format]
  have oc: "owns c l s" and lo: "l \<in> owned c s"
    using a by (simp_all add: owns_def owned_def)
  have none: "lk_cpu (locks s ! l) = None"
    by (rule pending_no_cpu[where c = c, OF i a(2)]) (simp add: a(3))
  have ow: "owns d k s' \<longleftrightarrow> owns d k s \<and> k \<noteq> l" if "k < length (locks s)" for d k
  proof (cases "k = l")
    case True
    have "d \<noteq> c \<Longrightarrow> \<not> owns d l s"
      using lock_invD(3)[OF i a(2) _ oc, of d] by blast
    then show ?thesis
      using True none a(2) by (auto simp: owns_def len lc)
  next
    case False
    then show ?thesis
      using a(3) by (auto simp: owns_def len lc[OF that])
  qed
  have od: "owned d s' = owned d s - {l}" for d
    unfolding owned_def len by (auto simp: ow)
  have od': "d \<noteq> c \<Longrightarrow> owned d s - {l} = owned d s" for d
    using lock_invD(3)[OF i a(2) _ oc, of d] by (auto simp: owned_def)
  have sp: "spinning d s' = spinning d s" for d
    using a(3) by (simp add: spinning_def len)
  have cd: "int (card (owned c s - {l})) = int (card (owned c s)) - 1"
    using lo card.remove[OF finite_owned lo] by simp
  have "lock_inv s'"
  proof (rule lock_invI, unfold len)
    fix k d assume k: "k < length (locks s)"
    { assume "owns d k s'"
      then show "lk_locked (locks s' ! k) \<and> d < length (cpus s)"
        using lock_invD(1,2)[OF i k, of d] unfolding ow[OF k] lc[OF k] by simp }
    { fix d' assume "owns d k s'" "owns d' k s'"
      then show "d = d'" using lock_invD(3)[OF i k, of d d'] unfolding ow[OF k] by simp }
    { assume "lk_cpu (locks s' ! k) = Some d"
      then have "lk_cpu (locks s ! k) = Some d" unfolding lc[OF k] by (simp split: if_splits)
      then show "((pending s)(c := Idle)) d \<noteq> SetCpu k \<and> ((pending s)(c := Idle)) d \<noteq> RelSwap k"
        using lock_invD(4)[OF i k, of d] by simp }
  next
    fix d assume d: "d < length (cpus s)"
    show "noff (cpus s' ! d) = int (card (owned d s') + spinning d s')"
      using n cd lock_invD(5)[OF i d] cp d unfolding od sp by (cases "d = c") (simp_all add: od')
    show "0 < noff (cpus s' ! d) \<Longrightarrow> \<not> sie (cpus s' ! d)"
      using si n lock_invD(6)[OF i d] cp d by (cases "d = c") simp_all
  qed
  with r show ?thesis by blast
qed

lemma lock_step_inv: "lock_step s s' \<Longrightarrow> lock_inv s \<Longrightarrow> lock_inv s'"
proof (induction rule: lock_step.induct)
  case (intr c s b)
  show ?case
    by (rule lock_inv_same_owner[OF intr(4)]) (use intr(1-3) lock_invD(4,6)[OF intr(4)] in \<open>auto simp: upd_nth owns_def spinning_def\<close>)
next
  case (rel_done c s l s')
  then show ?case using rel_done_inv[of s c l] by auto
next
  case (enter c s l s')
  show ?case by (rule enter_inv[OF enter(5,1,3,4)])
next
  case (swap c s l)
  show ?case by (rule swap_inv[OF swap(4,1,2,3)])
next
  case (record_cpu c s l)
  show ?case by (rule done_inv[OF record_cpu(4,1,2,3)])
next
  case (rel c s l s')
  show ?case by (rule rel_inv[OF rel(5,1,2,3,4)])
qed

lemma smp_init_inv: "smp_init s \<Longrightarrow> lock_inv s"
  unfolding smp_init_def lock_inv_def
  by (auto simp: owns_def owned_def spinning_def) (metis (no_types, lifting) option.distinct(1) spinlock.select_convs(3) spinlock.surjective spinlock.update_convs(3))+

lemma lock_run_inv: "\<lbrakk>lock_step\<^sup>*\<^sup>* s s'; lock_inv s\<rbrakk> \<Longrightarrow> lock_inv s'"
  by (induction rule: rtranclp_induct) (auto intro: lock_step_inv)

lemma demo_smp_init: "smp_init demo_smp"
  by (auto simp: smp_init_def demo_smp_def nth_Cons' less_Suc_eq numeral_2_eq_2)

lemma demo_smp_run: "lock_step\<^sup>*\<^sup>* demo_smp demo_smp_held"
proof -
  let ?s1 = "(push_off 0 demo_smp)\<lparr>pending := (\<lambda>_. Idle)(0 := WantSwap 0)\<rparr>"
  have 1: "lock_step demo_smp ?s1"
    by (rule lock_step.enter[where c = 0 and l = 0])
      (simp_all add: demo_smp_def acquire_enter_def push_off_def upd_cpu_def holding_def)
  have 2: "lock_step ?s1 (acquire_swap 0 0 ?s1)"
    by (rule lock_step.swap) (simp_all add: demo_smp_def push_off_cpu)
  have 3: "lock_step (acquire_swap 0 0 ?s1) (acquire_done 0 0 (acquire_swap 0 0 ?s1))"
    by (rule lock_step.record_cpu) (simp_all add: demo_smp_def acquire_swap_def Let_def push_off_cpu)
  have 4: "acquire_done 0 0 (acquire_swap 0 0 ?s1) = demo_smp_held"
    by (simp add: demo_smp_def demo_smp_held_def acquire_done_def acquire_swap_def upd_lock_def push_off_def upd_cpu_def
        Let_def numeral_2_eq_2 fun_upd_idem)
  show ?thesis
    using 1 2 3[unfolded 4] by (blast intro: converse_rtranclp_into_rtranclp r_into_rtranclp)
qed

lemma release_run:
  assumes i: "lock_inv s" and a: "c < length (cpus s)" "l < length (locks s)" "pending s c = Idle" "holding c l s"
  shows "\<exists>s1 s2. release_enter c l s = Ret () s1 \<and> release_done c l s1 = Ret () s2 \<and>
    \<not> lk_locked (locks s2 ! l) \<and> noff (cpus s2 ! c) = noff (cpus s ! c) - 1 \<and>
    (sie (cpus s2 ! c) \<longleftrightarrow> noff (cpus s ! c) = 1 \<and> intena (cpus s ! c))"
proof -
  let ?s1 = "(upd_lock l (\<lambda>lk. lk\<lparr>lk_cpu := None\<rparr>) s)\<lparr>pending := (pending s)(c := RelSwap l)\<rparr>"
  have e: "release_enter c l s = Ret () ?s1"
    using a(4) by (simp add: release_enter_def)
  have i1: "lock_inv ?s1"
    by (rule rel_inv[OF i a(1,2,3) e])
  have p1: "pending ?s1 c = RelSwap l" "c < length (cpus ?s1)" "l < length (locks ?s1)"
    using a by simp_all
  obtain s2 where d: "release_done c l ?s1 = Ret () s2"
    and n: "noff (cpus s2 ! c) = noff (cpus ?s1 ! c) - 1"
    and si: "sie (cpus s2 ! c) \<longleftrightarrow> noff (cpus ?s1 ! c) = 1 \<and> intena (cpus ?s1 ! c)"
    and lc: "\<forall>k. k < length (locks ?s1) \<longrightarrow> locks s2 ! k = (if k = l then (locks ?s1 ! l)\<lparr>lk_locked := False\<rparr> else locks ?s1 ! k)"
    by (rule rel_done_state[OF i1 p1(2,3,1)])
  then show ?thesis
    using e a(2) by simp
qed

section \<open>Properties\<close>

text \<open>
  C15: Mutual exclusion of spin locks. In every state the CPUs can reach by interleaving the steps of
  \<^verbatim>\<open>acquire\<close> and \<^verbatim>\<open>release\<close> from a state with all locks free, a lock has at most one owner, and the CPU that
  \<^verbatim>\<open>holding\<close> names has its interrupts off and a positive \<^verbatim>\<open>noff\<close>, the number of locks it owns or spins on.
\<close>

theorem spinlock_mutual_exclusion:
  assumes "smp_init s0" "lock_step\<^sup>*\<^sup>* s0 s" "l < length (locks s)"
  shows "(\<forall>c c'. owns c l s \<longrightarrow> owns c' l s \<longrightarrow> c = c') \<and>
    (\<forall>c. holding c l s \<longrightarrow> c < length (cpus s) \<and> owns c l s \<and> \<not> sie (cpus s ! c) \<and>
       noff (cpus s ! c) = int (card (owned c s) + spinning c s) \<and> noff (cpus s ! c) > 0)"
proof (intro conjI allI impI)
  have i: "lock_inv s"
    using lock_run_inv[OF assms(2) smp_init_inv[OF assms(1)]] .
  show "owns c l s \<Longrightarrow> owns c' l s \<Longrightarrow> c = c'" for c c'
    by (rule lock_invD(3)[OF i assms(3)])
  fix c assume "holding c l s"
  then show o: "owns c l s"
    by (simp add: holding_def owns_def)
  show c: "c < length (cpus s)"
    by (rule lock_invD(2)[OF i assms(3) o])
  show n: "noff (cpus s ! c) = int (card (owned c s) + spinning c s)"
    by (rule lock_invD(5)[OF i c])
  show "noff (cpus s ! c) > 0" "\<not> sie (cpus s ! c)"
    by (rule owns_noff[OF i assms(3) o])+
qed

theorem spinlock_mutual_exclusion_witness:
  "holding 0 0 demo_smp_held \<and> \<not> sie (cpus demo_smp_held ! 0) \<and> \<not> owns 1 0 demo_smp_held"
proof -
  have h: "holding 0 0 demo_smp_held" "owns 0 0 demo_smp_held"
    by (simp_all add: holding_def owns_def demo_smp_held_def)
  have l: "0 < length (locks demo_smp_held)"
    by (simp add: demo_smp_held_def)
  show ?thesis
    using spinlock_mutual_exclusion[OF demo_smp_init demo_smp_run l] h by (metis zero_neq_one)
qed

text \<open>
  C16: Releasing a lock works for its holder. In every reachable state a CPU that is outside \<^verbatim>\<open>acquire\<close> and
  \<^verbatim>\<open>release\<close> and holds a lock can release it: neither \<^verbatim>\<open>panic("release")\<close> nor a panic of \<^verbatim>\<open>pop_off\<close> happens,
  the lock is free afterwards, and interrupts come back on exactly when this was the outermost lock and they
  were on before it was taken.
\<close>

theorem release_never_panics:
  assumes "smp_init s0" "lock_step\<^sup>*\<^sup>* s0 s" "c < length (cpus s)" "l < length (locks s)"
    and "pending s c = Idle" "holding c l s"
  shows "\<exists>s1 s2. release_enter c l s = Ret () s1 \<and> release_done c l s1 = Ret () s2 \<and>
    \<not> lk_locked (locks s2 ! l) \<and> noff (cpus s2 ! c) = noff (cpus s ! c) - 1 \<and>
    (sie (cpus s2 ! c) \<longleftrightarrow> noff (cpus s ! c) = 1 \<and> intena (cpus s ! c))"
  using release_run[OF lock_run_inv[OF assms(2) smp_init_inv[OF assms(1)]] assms(3-6)] by blast

theorem release_never_panics_witness:
  "\<exists>s1 s2. release_enter 0 0 demo_smp_held = Ret () s1 \<and> release_done 0 0 s1 = Ret () s2 \<and> sie (cpus s2 ! 0)"
  using release_never_panics[OF demo_smp_init demo_smp_run, of 0 0]
  by (auto simp: demo_smp_held_def holding_def)



end
