(* ===== verification/Bio.thy ===== *)
theory Bio
  imports Pagetable Locks
begin

text \<open>
  The buffer cache, \<^verbatim>\<open>kernel/bio.c\<close>. The buffers are a list of \<^verbatim>\<open>NBUF + 1\<close> records: index \<^verbatim>\<open>NBUF\<close> is
  \<^verbatim>\<open>bcache.head\<close>, and the LRU list is threaded through \<^verbatim>\<open>prev\<close> and \<^verbatim>\<open>next\<close> as in the source.

  \<^verbatim>\<open>virtio_disk_rw\<close> hands a buffer to the device and sleeps until the transfer is complete; here it is its
  effect, the transfer of one block. \<open>disk\<close> is the contents of the device, block by block, and
  \<open>wtrace\<close> records the writes the device has completed, newest first: what a crash can cut short.
\<close>

section \<open>State\<close>

record buf =
  b_valid :: int
  b_disk :: int
  b_dev :: u32
  b_blockno :: u32
  b_lock :: sleeplock
  b_refcnt :: u32
  b_prev :: nat
  b_next :: nat
  b_data :: "u8 list"

record bio = vm +
  bufs :: "buf list"
  disk :: "u32 \<Rightarrow> u8 list"
  wtrace :: "(u32 \<times> u8 list) list"

abbreviation (input) BSIZE :: nat where "BSIZE \<equiv> 1024"

definition upd_buf :: "nat \<Rightarrow> (buf \<Rightarrow> buf) \<Rightarrow> 'a bio_scheme \<Rightarrow> 'a bio_scheme" where
  "upd_buf i f s = s\<lparr>bufs := (bufs s)[i := f (bufs s ! i)]\<rparr>"

definition upd_data :: "nat \<Rightarrow> (u8 list \<Rightarrow> u8 list) \<Rightarrow> 'a bio_scheme \<Rightarrow> 'a bio_scheme" where
  "upd_data b f = upd_buf b (\<lambda>x. x\<lparr>b_data := f (b_data x)\<rparr>)"

definition buf_data :: "nat \<Rightarrow> 'a bio_scheme \<Rightarrow> u8 list" where
  "buf_data b s = b_data (bufs s ! b)"

section \<open>The LRU list\<close>

definition set_next :: "nat \<Rightarrow> nat \<Rightarrow> buf list \<Rightarrow> buf list" where
  "set_next i j bs = bs[i := (bs ! i)\<lparr>b_next := j\<rparr>]"

definition set_prev :: "nat \<Rightarrow> nat \<Rightarrow> buf list \<Rightarrow> buf list" where
  "set_prev i j bs = bs[i := (bs ! i)\<lparr>b_prev := j\<rparr>]"

text \<open>Insert a buffer after the head, and take a buffer out of the list, with the source's stores in order.\<close>

definition link_front :: "nat \<Rightarrow> buf list \<Rightarrow> buf list" where
  "link_front b bs =
     (let bs = set_next b (b_next (bs ! NBUF)) bs;
          bs = set_prev b NBUF bs;
          bs = set_prev (b_next (bs ! NBUF)) b bs
      in set_next NBUF b bs)"

definition unlink_buf :: "nat \<Rightarrow> buf list \<Rightarrow> buf list" where
  "unlink_buf b bs =
     (let bs = set_prev (b_next (bs ! b)) (b_prev (bs ! b)) bs
      in set_next (b_prev (bs ! b)) (b_next (bs ! b)) bs)"

definition binit :: "'a bio_scheme \<Rightarrow> 'a bio_scheme" where
  "binit s =
     (let bs = set_next NBUF NBUF (set_prev NBUF NBUF (bufs s))
      in s\<lparr>bufs := foldl (\<lambda>bs b. link_front b (bs[b := (bs ! b)\<lparr>b_lock := initsleeplock\<rparr>])) bs [0..<NBUF]\<rparr>)"

text \<open>Walk the list from buffer \<open>i\<close> until the head or until a buffer satisfies \<open>P\<close>.\<close>

primrec lru_find :: "nat \<Rightarrow> (buf \<Rightarrow> nat) \<Rightarrow> (buf \<Rightarrow> bool) \<Rightarrow> buf list \<Rightarrow> nat \<Rightarrow> nat option" where
  "lru_find 0 dir P bs i = None"
| "lru_find (Suc n) dir P bs i =
     (if i = NBUF then None else if P (bs ! i) then Some i else lru_find n dir P bs (dir (bs ! i)))"

section \<open>Operations\<close>

definition buf_lock :: "nat \<Rightarrow> 'a bio_scheme \<Rightarrow> sleeplock" where
  "buf_lock i s = b_lock (bufs s ! i)"

definition set_buf_lock :: "nat \<Rightarrow> sleeplock \<Rightarrow> 'a bio_scheme \<Rightarrow> 'a bio_scheme" where
  "set_buf_lock i lk = upd_buf i (\<lambda>b. b\<lparr>b_lock := lk\<rparr>)"

definition acquire_buf :: "nat \<Rightarrow> ('a bio_scheme, unit) kmon" where
  "acquire_buf i = acquiresleep (ChBufLock i) (buf_lock i) (set_buf_lock i)"

text \<open>The list has \<^verbatim>\<open>NBUF\<close> buffers, so a walk of \<^verbatim>\<open>NBUF + 1\<close> turns reaches the head.\<close>

definition bget :: "u32 \<Rightarrow> u32 \<Rightarrow> ('a bio_scheme, nat) kmon" where
  "bget dev blockno s =
     (case lru_find (NBUF + 1) b_next (\<lambda>b. b_dev b = dev \<and> b_blockno b = blockno) (bufs s) (b_next (bufs s ! NBUF)) of
        Some b \<Rightarrow>
          kthen (kmod (upd_buf b (\<lambda>x. x\<lparr>b_refcnt := b_refcnt x + 1\<rparr>)))
            (kthen (acquire_buf b) (kret b)) s
      | None \<Rightarrow>
          (case lru_find (NBUF + 1) b_prev (\<lambda>b. b_refcnt b = 0) (bufs s) (b_prev (bufs s ! NBUF)) of
             Some b \<Rightarrow>
               kthen (kmod (upd_buf b (\<lambda>x. x\<lparr>b_dev := dev, b_blockno := blockno, b_valid := 0, b_refcnt := 1\<rparr>)))
                 (kthen (acquire_buf b) (kret b)) s
           | None \<Rightarrow> Panic ''bget: no buffers''))"

definition virtio_disk_rw :: "nat \<Rightarrow> bool \<Rightarrow> 'a bio_scheme \<Rightarrow> 'a bio_scheme" where
  "virtio_disk_rw b write s =
     (let bno = b_blockno (bufs s ! b) in
      if write
      then s\<lparr>disk := (disk s)(bno := b_data (bufs s ! b)), wtrace := (bno, b_data (bufs s ! b)) # wtrace s\<rparr>
      else upd_buf b (\<lambda>x. x\<lparr>b_data := disk s bno\<rparr>) s)"

definition bread :: "u32 \<Rightarrow> u32 \<Rightarrow> ('a bio_scheme, nat) kmon" where
  "bread dev blockno = kbind (bget dev blockno) (\<lambda>b. \<lambda>s.
     if b_valid (bufs s ! b) = 0
     then Ret b (upd_buf b (\<lambda>x. x\<lparr>b_valid := 1\<rparr>) (virtio_disk_rw b False s))
     else Ret b s)"

definition bwrite :: "nat \<Rightarrow> ('a bio_scheme, unit) kmon" where
  "bwrite b s = (if \<not> holdingsleep (buf_lock b) s then Panic ''bwrite'' else Ret () (virtio_disk_rw b True s))"

definition brelse :: "nat \<Rightarrow> ('a bio_scheme, unit) kmon" where
  "brelse b s =
     (if \<not> holdingsleep (buf_lock b) s then Panic ''brelse''
      else let s = releasesleep (ChBufLock b) (set_buf_lock b) s;
               s = upd_buf b (\<lambda>x. x\<lparr>b_refcnt := b_refcnt x - 1\<rparr>) s
           in if b_refcnt (bufs s ! b) = 0
              then Ret () (s\<lparr>bufs := link_front b (unlink_buf b (bufs s))\<rparr>)
              else Ret () s)"

definition bpin :: "nat \<Rightarrow> 'a bio_scheme \<Rightarrow> 'a bio_scheme" where
  "bpin b = upd_buf b (\<lambda>x. x\<lparr>b_refcnt := b_refcnt x + 1\<rparr>)"

definition bunpin :: "nat \<Rightarrow> 'a bio_scheme \<Rightarrow> 'a bio_scheme" where
  "bunpin b = upd_buf b (\<lambda>x. x\<lparr>b_refcnt := b_refcnt x - 1\<rparr>)"

text \<open>
  \<open>ring bs l\<close>: following \<^verbatim>\<open>next\<close> from the head visits the buffers of \<open>l\<close> in order and comes back to the head,
  and every \<^verbatim>\<open>prev\<close> is the inverse of the \<^verbatim>\<open>next\<close> that leads to it. \<open>lru\<close>: the ring has all buffers.
\<close>

definition linked :: "buf list \<Rightarrow> nat \<Rightarrow> nat \<Rightarrow> bool" where
  "linked bs x y \<longleftrightarrow> b_next (bs ! x) = y \<and> b_prev (bs ! y) = x"

definition ring :: "buf list \<Rightarrow> nat list \<Rightarrow> bool" where
  "ring bs l \<longleftrightarrow> length bs = NBUF + 1 \<and> distinct l \<and> (\<forall>i\<in>set l. i < NBUF) \<and> successively (linked bs) (NBUF # l @ [NBUF])"

definition lru :: "buf list \<Rightarrow> nat list \<Rightarrow> bool" where
  "lru bs l \<longleftrightarrow> ring bs l \<and> set l = {..<NBUF}"

text \<open>
  The cache seen from its clients, for one device: \<open>v\<close> is the content of every block (in the cache or, if not
  cached, on the disk), \<open>R\<close> the number of references to it and \<open>L\<close> the blocks whose buffer the current process holds
  locked. An unreferenced block is clean.
\<close>

definition buf_ok :: "u32 \<Rightarrow> int \<Rightarrow> (u32 \<Rightarrow> u8 list) \<Rightarrow> (u32 \<Rightarrow> nat) \<Rightarrow> u32 set \<Rightarrow> buf \<Rightarrow> bool" where
  "buf_ok dev pid v R L b \<longleftrightarrow>
     (b_refcnt b \<noteq> 0 \<longrightarrow> b_dev b = dev \<and> b_valid b \<noteq> 0) \<and>
     (b_dev b = dev \<longrightarrow> R (b_blockno b) = unat (b_refcnt b) \<and> (b_blockno b \<in> L \<longleftrightarrow> sl_locked (b_lock b)) \<and>
        (b_valid b \<noteq> 0 \<longrightarrow> b_data b = v (b_blockno b))) \<and>
     (sl_locked (b_lock b) \<longrightarrow> sl_pid (b_lock b) = pid \<and> b_refcnt b \<noteq> 0)"

definition slot :: "u32 \<Rightarrow> buf list \<Rightarrow> nat \<Rightarrow> u32 \<Rightarrow> bool" where
  "slot dev bs i bno \<longleftrightarrow> i < NBUF \<and> b_dev (bs ! i) = dev \<and> b_blockno (bs ! i) = bno"

definition cacheb :: "u32 \<Rightarrow> buf list \<Rightarrow> (u32 \<Rightarrow> u8 list) \<Rightarrow> int \<Rightarrow> (u32 \<Rightarrow> u8 list) \<Rightarrow> (u32 \<Rightarrow> nat) \<Rightarrow> u32 set \<Rightarrow> bool" where
  "cacheb dev bs dk pid v R L \<longleftrightarrow> (\<exists>l. lru bs l) \<and>
     (\<forall>i<NBUF. buf_ok dev pid v R L (bs ! i)) \<and>
     (\<forall>i j bno. slot dev bs i bno \<longrightarrow> slot dev bs j bno \<longrightarrow> i = j) \<and>
     (\<forall>bno. R bno = 0 \<longrightarrow> v bno = dk bno \<and> bno \<notin> L) \<and>
     (\<forall>bno. R bno \<noteq> 0 \<longrightarrow> (\<exists>i. slot dev bs i bno))"

definition cache :: "u32 \<Rightarrow> 'a bio_scheme \<Rightarrow> (u32 \<Rightarrow> u8 list) \<Rightarrow> (u32 \<Rightarrow> nat) \<Rightarrow> u32 set \<Rightarrow> bool" where
  "cache dev s v R L \<longleftrightarrow> cacheb dev (bufs s) (disk s) (mypid s) v R L \<and>
     (\<forall>i. curproc s = Some i \<longrightarrow> i < length (procs s))"

definition buf_core :: "buf \<Rightarrow> buf" where
  "buf_core b = b\<lparr>b_prev := 0, b_next := 0\<rparr>"

definition sl_mine :: "int \<Rightarrow> sleeplock" where
  "sl_mine pid = \<lparr>sl_locked = True, sl_pid = pid\<rparr>"

text \<open>The buffer \<^verbatim>\<open>bread\<close> leaves: referenced once more, locked, with the contents of the block.\<close>

definition read_buf :: "u32 \<Rightarrow> u32 \<Rightarrow> int \<Rightarrow> u32 \<Rightarrow> u8 list \<Rightarrow> buf \<Rightarrow> buf" where
  "read_buf dev bno pid n d b = b\<lparr>b_dev := dev, b_blockno := bno, b_valid := (if b_valid b = 0 then 1 else b_valid b),
     b_refcnt := n, b_lock := sl_mine pid, b_data := d\<rparr>"

text \<open>The zeroed cache of the kernel image, over an arbitrary disk.\<close>

definition zero_buf :: buf where
  "zero_buf = \<lparr>b_valid = 0, b_disk = 0, b_dev = 0, b_blockno = 0, b_lock = initsleeplock, b_refcnt = 0, b_prev = 0, b_next = 0,
     b_data = replicate BSIZE 0\<rparr>"

definition boot_bio :: bio where
  "boot_bio = \<lparr>procs = [], nextpid = 1, initproc = None, curproc = None, ticks = 0,
     mem = (\<lambda>_. 0), freelist = 0, refcnt = (\<lambda>_. 0), kend = 0x87FFE000, kernel_pagetable = 0, etext = 0, trampoline = 0,
     bufs = replicate (NBUF + 1) zero_buf, disk = (\<lambda>_. replicate BSIZE 0), wtrace = []\<rparr>"

definition blank :: "buf \<Rightarrow> bool" where
  "blank b \<longleftrightarrow> b_valid b = 0 \<and> b_dev b = 0 \<and> b_refcnt b = 0 \<and> \<not> sl_locked (b_lock b)"

text \<open>Read a block, store \<open>d\<close> in its buffer, write it and release it.\<close>

definition bput :: "u32 \<Rightarrow> u32 \<Rightarrow> u8 list \<Rightarrow> ('a bio_scheme, unit) kmon" where
  "bput dev bno d = kbind (bread dev bno) (\<lambda>b. kthen (kmod (upd_data b (\<lambda>_. d))) (kthen (bwrite b) (brelse b)))"

definition bpeek :: "u32 \<Rightarrow> u32 \<Rightarrow> ('a bio_scheme, u8 list) kmon" where
  "bpeek dev bno = kbind (bread dev bno) (\<lambda>b. kbind (kget (buf_data b)) (\<lambda>d. kthen (brelse b) (kret d)))"

lemma set_link_length [simp]:
  "length (set_next i j bs) = length bs" "length (set_prev i j bs) = length bs"
  by (simp_all add: set_next_def set_prev_def)

lemma set_link_nth:
  "k < length bs \<Longrightarrow> set_next i j bs ! k = (if k = i then (bs ! i)\<lparr>b_next := j\<rparr> else bs ! k)"
  "k < length bs \<Longrightarrow> set_prev i j bs ! k = (if k = i then (bs ! i)\<lparr>b_prev := j\<rparr> else bs ! k)"
  by (auto simp: set_next_def set_prev_def)

lemma successively_weaken:
  assumes "successively P xs" "\<And>x y. \<lbrakk>x \<in> set (butlast xs); y \<in> set (tl xs); P x y\<rbrakk> \<Longrightarrow> Q x y"
  shows "successively Q xs"
  using assms
proof (induction xs)
  case (Cons x xs)
  show ?case
  proof (cases xs)
    case (Cons y ys)
    have "successively Q xs"
      using Cons.prems(1) Cons.prems(2) Cons
      by (intro Cons.IH) (auto dest: in_set_butlastD)
    then show ?thesis using Cons.prems Cons by (auto simp: successively_Cons)
  qed simp
qed simp

lemma ringD:
  assumes "ring bs l"
  shows "length bs = NBUF + 1" "distinct l" "\<And>i. i \<in> set l \<Longrightarrow> i < NBUF" "NBUF \<notin> set l"
    "successively (linked bs) (NBUF # l @ [NBUF])"
  using assms by (auto simp: ring_def)

lemma link_front_nth:
  assumes "length bs = NBUF + 1" "b < NBUF" "n = b_next (bs ! NBUF)" "n \<le> NBUF" "n \<noteq> b" "k \<le> NBUF"
  shows "b_next (link_front b bs ! k) = (if k = b then n else if k = NBUF then b else b_next (bs ! k))"
    "b_prev (link_front b bs ! k) = (if k = b then NBUF else if k = n then b else b_prev (bs ! k))"
  using assms by (auto simp: link_front_def Let_def set_link_nth)

lemma ring_link_front:
  assumes r: "ring bs l" and b: "b < NBUF" "b \<notin> set l"
  shows "ring (link_front b bs) (b # l)"
proof -
  define n where "n = hd (l @ [NBUF])"
  note d = ringD[OF r]
  have n: "n = b_next (bs ! NBUF)" "n \<le> NBUF" "n \<noteq> b"
    using d(5) b d(3) by (cases l; auto simp: n_def linked_def less_imp_le)+
  note f = link_front_nth[OF d(1) b(1) n]
  have "successively (linked (link_front b bs)) (l @ [NBUF])"
  proof (rule successively_weaken)
    show "successively (linked bs) (l @ [NBUF])"
      using d(5) by (cases l) simp_all
    fix x y assume xy: "x \<in> set (butlast (l @ [NBUF]))" "y \<in> set (tl (l @ [NBUF]))" "linked bs x y"
    have "y \<in> set (l @ [NBUF])"
      using xy(2) by (cases l) auto
    then have "x \<noteq> NBUF" "x \<noteq> b" "x \<le> NBUF" "y \<le> NBUF"
      using xy(1) d(3)[of x] d(3)[of y] d(4) b(2) by auto
    moreover have "y \<noteq> n" "y \<noteq> b"
      using xy(2) d(2,4) b unfolding n_def by (cases l; auto)+
    ultimately show "linked (link_front b bs) x y"
      using xy(3) f[of x] f[of y] by (simp add: linked_def)
  qed
  moreover have "linked (link_front b bs) NBUF b" "linked (link_front b bs) b n"
    using f[of NBUF] f[of b] f[of n] n b by (simp_all add: linked_def)
  ultimately have "successively (linked (link_front b bs)) (NBUF # (b # l) @ [NBUF])"
    by (cases l) (simp_all add: n_def)
  then show ?thesis
    using d b unfolding ring_def by (simp add: link_front_def Let_def)
qed

lemma unlink_buf_nth:
  assumes "length bs = NBUF + 1" "b \<le> NBUF" "p = b_prev (bs ! b)" "q = b_next (bs ! b)" "p \<le> NBUF" "q \<le> NBUF" "q \<noteq> b" "k \<le> NBUF"
  shows "b_next (unlink_buf b bs ! k) = (if k = p then q else b_next (bs ! k))"
    "b_prev (unlink_buf b bs ! k) = (if k = q then p else b_prev (bs ! k))"
  using assms by (auto simp: unlink_buf_def Let_def set_link_nth)

lemma ring_unlink:
  assumes r: "ring bs (xs @ b # ys)"
  shows "ring (unlink_buf b bs) (xs @ ys)"
proof -
  note d = ringD[OF r]
  let ?A = "NBUF # xs" and ?B = "ys @ [NBUF]"
  define p q where "p = last ?A" and "q = hd ?B"
  have "successively (linked bs) (?A @ [b] @ ?B)"
    using d(5) by simp
  then have sA: "successively (linked bs) ?A" and sB: "successively (linked bs) ?B" and pb: "linked bs p b" and bq: "linked bs b q"
    unfolding successively_append_iff[of _ ?A] successively_append_iff[of _ "[b]"] p_def q_def by simp_all
  have le: "p \<le> NBUF" "q \<le> NBUF" "p \<noteq> b" "q \<noteq> b" "b \<le> NBUF"
    using d(3)[of b] d(3)[of p] d(3)[of q] d(2) last_in_set[of xs]
    by (auto simp: p_def q_def less_imp_le hd_append split: if_splits)
  have f: "b_next (unlink_buf b bs ! k) = (if k = p then q else b_next (bs ! k))"
    "b_prev (unlink_buf b bs ! k) = (if k = q then p else b_prev (bs ! k))" if "k \<le> NBUF" for k
    using unlink_buf_nth[OF d(1) le(5) _ _ le(1,2,4) that] pb bq by (simp_all add: linked_def)
  have keep: "linked (unlink_buf b bs) x y" if "linked bs x y" "x \<noteq> b" "y \<noteq> b" "x \<le> NBUF" "y \<le> NBUF" for x y
    using that pb bq f[of x] f[of y] by (auto simp: linked_def)
  have "successively (linked (unlink_buf b bs)) ?A" "successively (linked (unlink_buf b bs)) ?B"
    using d(2,3,4) le by (auto intro!: successively_mono[OF sA] successively_mono[OF sB] keep simp: less_imp_le)
  moreover have "linked (unlink_buf b bs) p q"
    using f[of p] f[of q] le by (simp add: linked_def)
  ultimately have "successively (linked (unlink_buf b bs)) (?A @ ?B)"
    unfolding successively_append_iff p_def q_def by blast
  then show ?thesis
    using d by (auto simp: ring_def unlink_buf_def Let_def)
qed

lemma lru_touch:
  assumes "lru bs l" "b < NBUF"
  shows "lru (link_front b (unlink_buf b bs)) (b # remove1 b l)"
proof -
  have r: "ring bs l" and s: "set l = {..<NBUF}"
    using assms(1) by (simp_all add: lru_def)
  have "b \<in> set l" using s assms(2) by simp
  then obtain xs ys where l: "l = xs @ b # ys"
    by (auto simp: in_set_conv_decomp)
  have d: "b \<notin> set xs" "b \<notin> set ys"
    using ringD(2)[OF r] l by auto
  have "ring (link_front b (unlink_buf b bs)) (b # xs @ ys)"
    by (rule ring_link_front[OF ring_unlink assms(2)]) (use r l d in auto)
  moreover have "remove1 b l = xs @ ys"
    using d l by (simp add: remove1_append)
  ultimately show ?thesis
    using s l by (auto simp: lru_def)
qed

lemma lru_find_next:
  assumes "successively (linked bs) (l @ [NBUF])" "NBUF \<notin> set l" "length l < n"
  shows "lru_find n b_next P bs (hd (l @ [NBUF])) = find (\<lambda>i. P (bs ! i)) l"
  using assms
proof (induction l arbitrary: n)
  case Nil
  then show ?case by (cases n) simp_all
next
  case (Cons x l)
  obtain m where n: "n = Suc m" using Cons.prems(3) by (cases n) auto
  have "b_next (bs ! x) = hd (l @ [NBUF])"
    using Cons.prems(1) by (cases l) (simp_all add: linked_def)
  moreover have "successively (linked bs) (l @ [NBUF])"
    using Cons.prems(1) by (cases l) simp_all
  ultimately show ?case
    using Cons.IH[of m] Cons.prems(2,3) n by auto
qed

lemma lru_find_prev:
  assumes "successively (linked bs) (NBUF # l)" "NBUF \<notin> set l" "length l < n"
  shows "lru_find n b_prev P bs (last (NBUF # l)) = find (\<lambda>i. P (bs ! i)) (rev l)"
  using assms
proof (induction l arbitrary: n rule: rev_induct)
  case Nil
  then show ?case by (cases n) simp_all
next
  case (snoc x l)
  obtain m where n: "n = Suc m" using snoc.prems(3) by (cases n) auto
  have s: "successively (linked bs) ((NBUF # l) @ [x])"
    using snoc.prems(1) by simp
  then have "b_prev (bs ! x) = last (NBUF # l)" "successively (linked bs) (NBUF # l)"
    unfolding successively_append_iff by (simp_all add: linked_def)
  then show ?case
    using snoc.IH[of m] snoc.prems(2,3) n by auto
qed

lemma lru_length: "lru bs l \<Longrightarrow> length l = NBUF"
  using distinct_card[of l] by (auto simp: lru_def dest: ringD(2))

lemma lru_scan:
  assumes "lru bs l"
  shows "lru_find (NBUF + 1) b_next P bs (b_next (bs ! NBUF)) = find (\<lambda>i. P (bs ! i)) l"
    "lru_find (NBUF + 1) b_prev P bs (b_prev (bs ! NBUF)) = find (\<lambda>i. P (bs ! i)) (rev l)"
proof -
  note d = ringD[of bs l]
  have r: "ring bs l" and len: "length l < NBUF + 1"
    using assms lru_length[OF assms] by (simp_all add: lru_def)
  have s: "successively (linked bs) ((NBUF # l) @ [NBUF])" "successively (linked bs) ([NBUF] @ (l @ [NBUF]))"
    using ringD(5)[OF r] by simp_all
  have n: "b_next (bs ! NBUF) = hd (l @ [NBUF])" and s1: "successively (linked bs) (l @ [NBUF])"
    using s(2) unfolding successively_append_iff by (auto simp: linked_def)
  have p: "b_prev (bs ! NBUF) = last (NBUF # l)" and s2: "successively (linked bs) (NBUF # l)"
    using s(1) unfolding successively_append_iff by (auto simp: linked_def)
  show "lru_find (NBUF + 1) b_next P bs (b_next (bs ! NBUF)) = find (\<lambda>i. P (bs ! i)) l"
    unfolding n by (rule lru_find_next[OF s1 ringD(4)[OF r] len])
  show "lru_find (NBUF + 1) b_prev P bs (b_prev (bs ! NBUF)) = find (\<lambda>i. P (bs ! i)) (rev l)"
    unfolding p by (rule lru_find_prev[OF s2 ringD(4)[OF r] len])
qed

lemma cachebD:
  assumes "cacheb dev bs dk pid v R L"
  shows "\<exists>l. lru bs l" "length bs = NBUF + 1" "\<And>i. i < NBUF \<Longrightarrow> buf_ok dev pid v R L (bs ! i)"
    "\<And>i j bno. \<lbrakk>slot dev bs i bno; slot dev bs j bno\<rbrakk> \<Longrightarrow> i = j"
    "\<And>bno. R bno = 0 \<Longrightarrow> v bno = dk bno" "\<And>bno. R bno = 0 \<Longrightarrow> bno \<notin> L"
    "\<And>bno. R bno \<noteq> 0 \<Longrightarrow> \<exists>i. slot dev bs i bno"
proof -
  show "length bs = NBUF + 1"
    using assms by (auto simp: cacheb_def lru_def dest: ringD(1))
qed (use assms in \<open>unfold cacheb_def, blast\<close>)+

lemma slotD: "slot dev bs i bno \<Longrightarrow> i < NBUF" "slot dev bs i bno \<Longrightarrow> b_dev (bs ! i) = dev"
  "slot dev bs i bno \<Longrightarrow> b_blockno (bs ! i) = bno"
  by (simp_all add: slot_def)

lemma slot_ok:
  assumes "cacheb dev bs dk pid v R L" "slot dev bs i bno"
  shows "R bno = unat (b_refcnt (bs ! i))" "bno \<in> L \<longleftrightarrow> sl_locked (b_lock (bs ! i))"
    "b_valid (bs ! i) \<noteq> 0 \<Longrightarrow> b_data (bs ! i) = v bno" "bno \<in> L \<Longrightarrow> sl_pid (b_lock (bs ! i)) = pid"
    "R bno \<noteq> 0 \<Longrightarrow> b_valid (bs ! i) \<noteq> 0"
  using cachebD(3)[OF assms(1) slotD(1)[OF assms(2)]] assms(2) by (auto simp: buf_ok_def slot_def)

lemma ring_cong:
  assumes "ring bs l" "length bs' = length bs"
    "\<And>k. k \<le> NBUF \<Longrightarrow> b_next (bs' ! k) = b_next (bs ! k) \<and> b_prev (bs' ! k) = b_prev (bs ! k)"
  shows "ring bs' l"
proof -
  have "successively (linked bs') (NBUF # l @ [NBUF])"
    by (rule successively_mono[OF ringD(5)[OF assms(1)]])
      (use assms(3) ringD(3)[OF assms(1)] in \<open>force simp: linked_def less_imp_le\<close>)
  then show ?thesis using assms(1,2) by (simp add: ring_def)
qed

text \<open>One buffer changes: it caches \<open>bno\<close> already, or it is unreferenced and \<open>bno\<close> is not cached.\<close>

lemma cacheb_upd:
  assumes c: "cacheb dev bs dk pid v R L" and i: "i < NBUF"
    and old: "slot dev bs i bno \<or> b_refcnt (bs ! i) = 0 \<and> (\<forall>j. \<not> slot dev bs j bno)"
    and new: "b_dev b = dev" "b_blockno b = bno" "b_next b = b_next (bs ! i)" "b_prev b = b_prev (bs ! i)"
      "buf_ok dev pid v' R' L' b"
    and agree: "\<And>x. x \<noteq> bno \<Longrightarrow> v' x = v x \<and> R' x = R x \<and> (x \<in> L' \<longleftrightarrow> x \<in> L) \<and> dk' x = dk x"
    and z: "R' bno = 0 \<Longrightarrow> v' bno = dk' bno \<and> bno \<notin> L'"
  shows "cacheb dev (bs[i := b]) dk' pid v' R' L'"
proof -
  note d = cachebD[OF c]
  have nth: "bs[i := b] ! j = (if j = i then b else bs ! j)" if "j \<le> NBUF" for j
    using that d(2) i by (auto simp: nth_list_update)
  have sl: "slot dev (bs[i := b]) j x \<longleftrightarrow> (if j = i then x = bno else slot dev bs j x)" for j x
    using i new(1,2) nth[of j] by (auto simp: slot_def)
  have other: "x \<noteq> bno" if "slot dev bs j x" "j \<noteq> i" for j x
    using old d(4)[of i _ j] that by auto
  have ok: "buf_ok dev pid v' R' L' (bs ! j)" if "j < NBUF" "j \<noteq> i" for j
    using d(3)[OF that(1)] agree[of "b_blockno (bs ! j)"] other[of j "b_blockno (bs ! j)"] that
    unfolding buf_ok_def slot_def by auto
  obtain l where "lru bs l" using d(1) by blast
  then have r: "ring bs l" and l: "set l = {..<NBUF}" by (simp_all add: lru_def)
  have "ring (bs[i := b]) l"
    by (rule ring_cong[OF r]) (simp_all add: nth new(3,4))
  with l have "lru (bs[i := b]) l" by (simp add: lru_def)
  moreover have "\<exists>j. slot dev (bs[i := b]) j x" if "R' x \<noteq> 0" for x
  proof (cases "x = bno")
    case True
    then have "slot dev (bs[i := b]) i x" by (simp add: sl)
    then show ?thesis by blast
  next
    case False
    then have "R x \<noteq> 0" using that agree by simp
    then obtain j where j: "slot dev bs j x" using d(7) by blast
    have "j \<noteq> i"
      using old False j slot_ok(1)[OF c j] \<open>R x \<noteq> 0\<close> by (auto simp: slot_def)
    then have "slot dev (bs[i := b]) j x" using j by (simp add: sl)
    then show ?thesis by blast
  qed
  moreover have "R' x = 0 \<longrightarrow> v' x = dk' x \<and> x \<notin> L'" for x
    using z agree[of x] d(5,6)[of x] by (cases "x = bno") auto
  moreover have "slot dev (bs[i := b]) j x \<longrightarrow> slot dev (bs[i := b]) k x \<longrightarrow> j = k" for j k x
    using other[of j x] other[of k x] d(4)[of j x k] by (auto simp: sl split: if_splits)
  moreover have "\<forall>j<NBUF. buf_ok dev pid v' R' L' (bs[i := b] ! j)"
    using ok new(5) nth by simp
  ultimately show ?thesis
    unfolding cacheb_def by blast
qed

lemma unat_pos32: "0 < unat (x :: u32) \<longleftrightarrow> x \<noteq> 0"
  by (metis neq0_conv unat_eq_0)

lemma find_cases:
  obtains (none) "find P xs = None" "\<forall>x\<in>set xs. \<not> P x" | (some) x where "find P xs = Some x" "x \<in> set xs" "P x"
  by (cases "find P xs") (auto simp: find_None_iff find_Some_iff)

lemma cache_simps [simp]:
  "procs (upd_buf i f s) = procs s" "curproc (upd_buf i f s) = curproc s" "disk (upd_buf i f s) = disk s"
  "wtrace (upd_buf i f s) = wtrace s" "mypid (upd_buf i f s) = mypid s" "length (bufs (upd_buf i f s)) = length (bufs s)"
  "mypid (s\<lparr>bufs := B\<rparr>) = mypid s" "mypid (s\<lparr>disk := D\<rparr>) = mypid s" "mypid (s\<lparr>wtrace := W\<rparr>) = mypid s"
  by (simp_all add: upd_buf_def mypid_def split: option.split)

lemma upd_buf_upd [simp]: "upd_buf i f (upd_buf i g s) = upd_buf i (\<lambda>b. f (g b)) s" if "i < length (bufs s)"
  using that by (simp add: upd_buf_def)

lemma upd_buf_nth: "i < length (bufs s) \<Longrightarrow> bufs (upd_buf i f s) ! i = f (bufs s ! i)"
  by (simp add: upd_buf_def)

lemma upd_buf_slot:
  assumes "\<And>b. b_dev (f b) = b_dev b" "\<And>b. b_blockno (f b) = b_blockno b"
  shows "slot dev (bufs (upd_buf i f s)) j x = slot dev (bufs s) j x"
  using assms by (cases "i < length (bufs s)") (auto simp: slot_def upd_buf_def nth_list_update list_update_beyond)

lemma referenced_finite:
  assumes "cacheb dev bs dk pid v R L"
  shows "finite {b. R b \<noteq> 0}" "card {b. R b \<noteq> 0} \<le> NBUF"
proof -
  have s: "{b. R b \<noteq> 0} \<subseteq> (\<lambda>i. b_blockno (bs ! i)) ` {..<NBUF}"
    using cachebD(7)[OF assms] by (fastforce simp: slot_def)
  then show "finite {b. R b \<noteq> 0}" using finite_surj by blast
  show "card {b. R b \<noteq> 0} \<le> NBUF" using surj_card_le[OF _ s] by simp
qed

text \<open>If fewer than \<^verbatim>\<open>NBUF\<close> blocks are referenced then a buffer is unreferenced.\<close>

lemma free_buffer:
  assumes c: "cacheb dev bs dk pid v R L" and n: "card {b. R b \<noteq> 0} < NBUF"
  shows "\<exists>i<NBUF. b_refcnt (bs ! i) = 0"
proof (rule ccontr)
  assume r: "\<not> ?thesis"
  then have sl: "slot dev bs i (b_blockno (bs ! i))" if "i < NBUF" for i
    using cachebD(3)[OF c that] that by (auto simp: buf_ok_def slot_def)
  have "inj_on (\<lambda>i. b_blockno (bs ! i)) {..<NBUF}"
    by (rule inj_onI) (metis cachebD(4)[OF c] sl lessThan_iff)
  moreover have "(\<lambda>i. b_blockno (bs ! i)) ` {..<NBUF} \<subseteq> {b. R b \<noteq> 0}"
    using slot_ok(1)[OF c sl] r by (auto simp: unat_pos32)
  ultimately have "card {..<NBUF} \<le> card {b. R b \<noteq> 0}"
    using card_inj_on_le referenced_finite(1)[OF c] by blast
  then show False using n by simp
qed

text \<open>\<^verbatim>\<open>bget\<close> chooses the buffer of the block, or recycles an unreferenced one.\<close>

lemma bget_choice:
  assumes c: "cacheb dev (bufs s) dk pid v R L" and n: "R bno \<noteq> 0 \<or> card {b. R b \<noteq> 0} < NBUF"
  shows "(\<exists>i. slot dev (bufs s) i bno \<and>
      bget dev bno s = kthen (kmod (upd_buf i (\<lambda>x. x\<lparr>b_refcnt := b_refcnt x + 1\<rparr>))) (kthen (acquire_buf i) (kret i)) s) \<or>
    (\<exists>i<NBUF. b_refcnt (bufs s ! i) = 0 \<and> (\<forall>j. \<not> slot dev (bufs s) j bno) \<and>
      bget dev bno s = kthen (kmod (upd_buf i (\<lambda>x. x\<lparr>b_dev := dev, b_blockno := bno, b_valid := 0, b_refcnt := 1\<rparr>)))
        (kthen (acquire_buf i) (kret i)) s)"
proof -
  obtain l where l: "lru (bufs s) l" using cachebD(1)[OF c] by blast
  then have set: "set l = {..<NBUF}" by (simp add: lru_def)
  note f = lru_scan[OF l]
  show ?thesis
  proof (cases rule: find_cases[of "\<lambda>i. b_dev (bufs s ! i) = dev \<and> b_blockno (bufs s ! i) = bno" l])
    case (some i)
    then have "slot dev (bufs s) i bno" using set by (simp add: slot_def)
    then show ?thesis unfolding bget_def f(1) some(1) by auto
  next
    case none
    then have no: "\<not> slot dev (bufs s) j bno" for j
      using set by (auto simp: slot_def)
    then have "card {b. R b \<noteq> 0} < NBUF"
      using n cachebD(7)[OF c] by blast
    then obtain k where k: "k < NBUF" "b_refcnt (bufs s ! k) = 0"
      using free_buffer[OF c] by blast
    show ?thesis
    proof (cases rule: find_cases[of "\<lambda>i. b_refcnt (bufs s ! i) = 0" "rev l"])
      case none
      then show ?thesis using k set by auto
    next
      case (some i)
      then have "i < NBUF" using set by auto
      with some(3) no show ?thesis
        unfolding bget_def f none(1) some(1) by auto
    qed
  qed
qed

lemma acquire_buf_ok:
  assumes "\<not> sl_locked (b_lock (bufs s ! i))"
  shows "acquire_buf i s = Ret () (upd_buf i (\<lambda>b. b\<lparr>b_lock := sl_mine (mypid s)\<rparr>) s)"
  using assms by (simp add: acquire_buf_def acquiresleep_def buf_lock_def set_buf_lock_def sl_mine_def)

lemma bread_hit:
  assumes i: "slot dev (bufs s) i bno" "i < length (bufs s)" and l: "\<not> sl_locked (b_lock (bufs s ! i))"
    and g: "bget dev bno s = kthen (kmod (upd_buf i (\<lambda>x. x\<lparr>b_refcnt := b_refcnt x + 1\<rparr>))) (kthen (acquire_buf i) (kret i)) s"
  shows "bread dev bno s = Ret i (s\<lparr>bufs := (bufs s)[i := read_buf dev bno (mypid s) (b_refcnt (bufs s ! i) + 1)
     (if b_valid (bufs s ! i) = 0 then disk s bno else b_data (bufs s ! i)) (bufs s ! i)]\<rparr>)"
proof -
  let ?f = "\<lambda>b. b\<lparr>b_refcnt := b_refcnt b + 1, b_lock := sl_mine (mypid s)\<rparr>"
  have g': "bget dev bno s = Ret i (upd_buf i ?f s)"
    unfolding g using i(2) l acquire_buf_ok[of "upd_buf i (\<lambda>x. x\<lparr>b_refcnt := b_refcnt x + 1\<rparr>) s" i]
    by (simp add: kernel_defs upd_buf_nth)
  have "b_dev (bufs s ! i) = dev" "b_blockno (bufs s ! i) = bno"
    using i(1) by (simp_all add: slot_def)
  then have "b_valid (bufs s ! i) \<noteq> 0 \<longrightarrow>
      ?f (bufs s ! i) = read_buf dev bno (mypid s) (b_refcnt (bufs s ! i) + 1) (b_data (bufs s ! i)) (bufs s ! i)"
    "b_valid (bufs s ! i) = 0 \<longrightarrow> (?f (bufs s ! i))\<lparr>b_data := disk s bno, b_valid := 1\<rparr> =
      read_buf dev bno (mypid s) (b_refcnt (bufs s ! i) + 1) (disk s bno) (bufs s ! i)"
    by (auto simp: read_buf_def intro!: buf.equality)
  then show ?thesis
    using i by (simp add: bread_def g' virtio_disk_rw_def upd_buf_def slot_def Let_def)
qed

lemma bread_miss:
  assumes i: "i < length (bufs s)" and l: "\<not> sl_locked (b_lock (bufs s ! i))"
    and g: "bget dev bno s = kthen (kmod (upd_buf i (\<lambda>x. x\<lparr>b_dev := dev, b_blockno := bno, b_valid := 0, b_refcnt := 1\<rparr>)))
        (kthen (acquire_buf i) (kret i)) s"
  shows "bread dev bno s = Ret i (s\<lparr>bufs := (bufs s)[i := read_buf dev bno (mypid s) 1 (disk s bno) ((bufs s ! i)\<lparr>b_valid := 0\<rparr>)]\<rparr>)"
proof -
  let ?f = "\<lambda>b. b\<lparr>b_dev := dev, b_blockno := bno, b_valid := 0, b_refcnt := 1, b_lock := sl_mine (mypid s)\<rparr>"
  have g': "bget dev bno s = Ret i (upd_buf i ?f s)"
    unfolding g using i l acquire_buf_ok[of "upd_buf i (\<lambda>x. x\<lparr>b_dev := dev, b_blockno := bno, b_valid := 0, b_refcnt := 1\<rparr>) s" i]
    by (simp add: kernel_defs upd_buf_nth)
  have "(?f (bufs s ! i))\<lparr>b_data := disk s bno, b_valid := 1\<rparr> = read_buf dev bno (mypid s) 1 (disk s bno) ((bufs s ! i)\<lparr>b_valid := 0\<rparr>)"
    by (auto simp: read_buf_def intro!: buf.equality)
  then show ?thesis
    using i by (simp add: bread_def g' virtio_disk_rw_def upd_buf_def Let_def)
qed

lemma cacheD: "cache dev s v R L \<Longrightarrow> cacheb dev (bufs s) (disk s) (mypid s) v R L"
  by (simp add: cache_def)

lemma unat_Suc32: "unat (n :: u32) + 1 < 2 ^ 32 \<Longrightarrow> unat (n + 1) = Suc (unat n)"
  using unat_word_ariths(1)[of n 1] by simp

lemma bread_ok:
  assumes c: "cache dev s v R L" and L: "bno \<notin> L" and n: "R bno \<noteq> 0 \<or> card {b. R b \<noteq> 0} < NBUF" and R: "R bno + 1 < 2 ^ 32"
  shows "\<exists>i B. bread dev bno s = Ret i (s\<lparr>bufs := B\<rparr>) \<and> cache dev (s\<lparr>bufs := B\<rparr>) v (R(bno := Suc (R bno))) (insert bno L) \<and>
    slot dev B i bno \<and> (\<forall>j x. slot dev (bufs s) j x \<longrightarrow> R x \<noteq> 0 \<longrightarrow> slot dev B j x)"
proof -
  note cb = cacheD[OF c]
  have fin: ?thesis if i: "i < NBUF" and r: "bread dev bno s = Ret i (s\<lparr>bufs := (bufs s)[i := b]\<rparr>)"
    and old: "slot dev (bufs s) i bno \<or> b_refcnt (bufs s ! i) = 0 \<and> (\<forall>j. \<not> slot dev (bufs s) j bno)"
    and b: "b_dev b = dev" "b_blockno b = bno" "b_next b = b_next (bufs s ! i)" "b_prev b = b_prev (bufs s ! i)"
      "b_lock b = sl_mine (mypid s)" "b_valid b \<noteq> 0" "unat (b_refcnt b) = Suc (R bno)" "b_data b = v bno" for i b
  proof -
    have "buf_ok dev (mypid s) v (R(bno := Suc (R bno))) (insert bno L) b"
      using b by (auto simp: buf_ok_def sl_mine_def)
    then have "cacheb dev ((bufs s)[i := b]) (disk s) (mypid s) v (R(bno := Suc (R bno))) (insert bno L)"
      by (intro cacheb_upd[OF cb i old b(1-4)]) auto
    moreover have "slot dev ((bufs s)[i := b]) i bno"
      using i b cachebD(2)[OF cb] by (simp add: slot_def)
    moreover have "slot dev ((bufs s)[i := b]) j x" if "slot dev (bufs s) j x" "R x \<noteq> 0" for j x
      using that old slot_ok(1)[OF cb that(1)] b(1,2) cachebD(2)[OF cb] by (cases "j = i") (auto simp: slot_def nth_list_update)
    ultimately show ?thesis
      using r c by (intro exI conjI) (auto simp: cache_def)
  qed
  from bget_choice[OF cb n] show ?thesis
  proof (elim disjE exE conjE)
    fix i assume sl: "slot dev (bufs s) i bno" and g: "bget dev bno s = kthen (kmod (upd_buf i (\<lambda>x. x\<lparr>b_refcnt := b_refcnt x + 1\<rparr>))) (kthen (acquire_buf i) (kret i)) s"
    note o = slot_ok[OF cb sl]
    have i: "i < length (bufs s)" using slotD(1)[OF sl] cachebD(2)[OF cb] by simp
    have "R bno = 0" if "b_valid (bufs s ! i) = 0" using o(5) that by blast
    then show ?thesis
      using o L R cachebD(5)[OF cb, of bno]
      by (intro fin[OF slotD(1)[OF sl] bread_hit[OF sl i _ g]] disjI1 sl) (auto simp: read_buf_def unat_Suc32)
  next
    fix i assume i: "i < NBUF" "b_refcnt (bufs s ! i) = 0" and no: "\<forall>j. \<not> slot dev (bufs s) j bno"
      and g: "bget dev bno s = kthen (kmod (upd_buf i (\<lambda>x. x\<lparr>b_dev := dev, b_blockno := bno, b_valid := 0, b_refcnt := 1\<rparr>)))
        (kthen (acquire_buf i) (kret i)) s"
    have R0: "R bno = 0" using cachebD(7)[OF cb, of bno] no by blast
    have ul: "\<not> sl_locked (b_lock (bufs s ! i))" using cachebD(3)[OF cb i(1)] i(2) by (auto simp: buf_ok_def)
    have il: "i < length (bufs s)" using i cachebD(2)[OF cb] by simp
    show ?thesis
      using i no R0 cachebD(5)[OF cb R0] by (intro fin[OF i(1) bread_miss[OF il ul g]]) (auto simp: read_buf_def)
  qed
qed

lemma wakeup_cache [simp]:
  "bufs (wakeup ch s) = bufs s" "disk (wakeup ch s) = disk s" "wtrace (wakeup ch s) = wtrace s" "curproc (wakeup ch s) = curproc s"
  "length (procs (wakeup ch s)) = length (procs s)"
  by (simp_all add: wakeup_def)

lemma wakeup_bufs: "wakeup ch (s\<lparr>bufs := B\<rparr>) = (wakeup ch s)\<lparr>bufs := B\<rparr>"
  by (simp add: wakeup_def)

lemma wakeup_mypid:
  "\<forall>i. curproc s = Some i \<longrightarrow> i < length (procs s) \<Longrightarrow> mypid (wakeup ch s) = mypid s"
  by (auto simp: mypid_def wakeup_def Let_def split: option.split)

lemma cache_slot_upd:
  assumes c: "cache dev s v R L" and sl: "slot dev (bufs s) i bno"
    and f: "b_dev (f (bufs s ! i)) = dev" "b_blockno (f (bufs s ! i)) = bno" "b_next (f (bufs s ! i)) = b_next (bufs s ! i)"
      "b_prev (f (bufs s ! i)) = b_prev (bufs s ! i)" "buf_ok dev (mypid s) v' R' L' (f (bufs s ! i))"
    and agree: "\<And>x. x \<noteq> bno \<Longrightarrow> v' x = v x \<and> R' x = R x \<and> (x \<in> L' \<longleftrightarrow> x \<in> L)"
    and z: "R' bno = 0 \<Longrightarrow> v' bno = disk s bno \<and> bno \<notin> L'"
  shows "cache dev (upd_buf i f s) v' R' L'"
proof -
  note cb = cacheD[OF c]
  have "cacheb dev ((bufs s)[i := f (bufs s ! i)]) (disk s) (mypid s) v' R' L'"
    by (rule cacheb_upd[OF cb slotD(1)[OF sl] disjI1[OF sl] f]) (use agree z in auto)
  then show "cache dev (upd_buf i f s) v' R' L'"
    using c unfolding cache_def by (simp, simp add: upd_buf_def)
qed

lemma slot_buf_ok:
  assumes "cache dev s v R L" "slot dev (bufs s) i bno"
  shows "buf_ok dev (mypid s) v R L (bufs s ! i)"
  using cachebD(3)[OF cacheD[OF assms(1)] slotD(1)[OF assms(2)]] .

lemma upd_data_ok:
  assumes c: "cache dev s v R L" and sl: "slot dev (bufs s) i bno" and R: "R bno \<noteq> 0"
  shows "cache dev (upd_data i f s) (v(bno := f (v bno))) R L" "slot dev (bufs (upd_data i f s)) j x = slot dev (bufs s) j x"
    "buf_data i s = v bno"
proof -
  note o = slot_ok[OF cacheD[OF c] sl]
  show d: "buf_data i s = v bno"
    using o(3,5) R by (simp add: buf_data_def)
  have ok: "buf_ok dev (mypid s) (v(bno := f (v bno))) R L ((bufs s ! i)\<lparr>b_data := f (b_data (bufs s ! i))\<rparr>)"
    using slot_buf_ok[OF c sl] sl d by (auto simp: buf_ok_def slot_def buf_data_def)
  show "cache dev (upd_data i f s) (v(bno := f (v bno))) R L"
    unfolding upd_data_def by (rule cache_slot_upd[OF c sl]) (use R sl ok in \<open>auto simp: slot_def\<close>)
  show "slot dev (bufs (upd_data i f s)) j x = slot dev (bufs s) j x"
    unfolding upd_data_def by (rule upd_buf_slot) simp_all
qed

lemma bpin_ok:
  assumes c: "cache dev s v R L" and sl: "slot dev (bufs s) i bno" and R: "R bno \<noteq> 0" "R bno + 1 < 2 ^ 32"
  shows "cache dev (bpin i s) v (R(bno := Suc (R bno))) L" "slot dev (bufs (bpin i s)) j x = slot dev (bufs s) j x"
proof -
  note o = slot_ok[OF cacheD[OF c] sl]
  have u: "unat (b_refcnt (bufs s ! i) + 1) = Suc (R bno)"
    using o(1) R by (simp add: unat_Suc32)
  then have nz: "b_refcnt (bufs s ! i) + 1 \<noteq> 0"
    using unat_eq_0[of "b_refcnt (bufs s ! i) + 1"] by simp
  have ok: "buf_ok dev (mypid s) v (R(bno := Suc (R bno))) L ((bufs s ! i)\<lparr>b_refcnt := b_refcnt (bufs s ! i) + 1\<rparr>)"
    using o(2,4) o(3)[OF o(5)[OF R(1)]] o(5)[OF R(1)] u nz slotD(2,3)[OF sl] by (simp add: buf_ok_def)
  show "cache dev (bpin i s) v (R(bno := Suc (R bno))) L"
    unfolding bpin_def by (rule cache_slot_upd[OF c sl]) (use R slotD(2,3)[OF sl] ok in simp_all)
  show "slot dev (bufs (bpin i s)) j x = slot dev (bufs s) j x"
    unfolding bpin_def by (rule upd_buf_slot) simp_all
qed

lemma unat_pred32: "unat (n :: u32) \<noteq> 0 \<Longrightarrow> unat (n - 1) = unat n - 1"
  by (metis One_nat_def unat_eq_0 unat_minus_one)

lemma bunpin_ok:
  assumes c: "cache dev s v R L" and sl: "slot dev (bufs s) i bno" and R: "1 < R bno"
  shows "cache dev (bunpin i s) v (R(bno := R bno - 1)) L" "slot dev (bufs (bunpin i s)) j x = slot dev (bufs s) j x"
proof -
  note o = slot_ok[OF cacheD[OF c] sl]
  have u: "unat (b_refcnt (bufs s ! i) - 1) = R bno - 1"
    using o(1) R by (simp add: unat_pred32)
  then have nz: "b_refcnt (bufs s ! i) - 1 \<noteq> 0"
    using R unat_eq_0[of "b_refcnt (bufs s ! i) - 1"] by (metis less_numeral_extra(3) zero_less_diff)
  have ok: "buf_ok dev (mypid s) v (R(bno := R bno - 1)) L ((bufs s ! i)\<lparr>b_refcnt := b_refcnt (bufs s ! i) - 1\<rparr>)"
    using o(2,4) o(3)[OF o(5)] o(5) R u nz slotD(2,3)[OF sl] by (simp add: buf_ok_def)
  show "cache dev (bunpin i s) v (R(bno := R bno - 1)) L"
    unfolding bunpin_def by (rule cache_slot_upd[OF c sl]) (use R slotD(2,3)[OF sl] ok in simp_all)
  show "slot dev (bufs (bunpin i s)) j x = slot dev (bufs s) j x"
    unfolding bunpin_def by (rule upd_buf_slot) simp_all
qed

lemma bwrite_ok:
  assumes c: "cache dev s v R L" and sl: "slot dev (bufs s) i bno" and L: "bno \<in> L"
  shows "bwrite i s = Ret () (s\<lparr>disk := (disk s)(bno := v bno), wtrace := (bno, v bno) # wtrace s\<rparr>)"
    "cache dev (s\<lparr>disk := (disk s)(bno := v bno), wtrace := (bno, v bno) # wtrace s\<rparr>) v R L"
proof -
  note o = slot_ok[OF cacheD[OF c] sl]
  have R: "R bno \<noteq> 0" using L cachebD(6)[OF cacheD[OF c], of bno] by blast
  then have d: "b_data (bufs s ! i) = v bno" using o by simp
  show "bwrite i s = Ret () (s\<lparr>disk := (disk s)(bno := v bno), wtrace := (bno, v bno) # wtrace s\<rparr>)"
    using o(2,4) L d sl by (simp add: bwrite_def holdingsleep_def buf_lock_def virtio_disk_rw_def slot_def)
  have "cacheb dev (bufs s) ((disk s)(bno := v bno)) (mypid s) v R L"
    using cacheD[OF c] R unfolding cacheb_def by auto
  then show "cache dev (s\<lparr>disk := (disk s)(bno := v bno), wtrace := (bno, v bno) # wtrace s\<rparr>) v R L"
    using c by (simp add: cache_def)
qed

text \<open>Relinking a buffer changes nothing but the links.\<close>

lemma buf_core_eqD:
  assumes "buf_core a = buf_core b"
  shows "b_valid a = b_valid b" "b_dev a = b_dev b" "b_blockno a = b_blockno b" "b_lock a = b_lock b" "b_refcnt a = b_refcnt b"
    "b_data a = b_data b"
  using assms[THEN arg_cong[where f = b_valid]] assms[THEN arg_cong[where f = b_dev]] assms[THEN arg_cong[where f = b_blockno]]
    assms[THEN arg_cong[where f = b_lock]] assms[THEN arg_cong[where f = b_refcnt]] assms[THEN arg_cong[where f = b_data]]
  by (simp_all add: buf_core_def)

lemma relink_core:
  assumes "length bs = NBUF + 1" "k \<le> NBUF"
  shows "buf_core (link_front b (unlink_buf b bs) ! k) = buf_core (bs ! k)"
proof -
  have n: "buf_core (set_next i j xs ! k) = buf_core (xs ! k)" "buf_core (set_prev i j xs ! k) = buf_core (xs ! k)"
    if "length xs = NBUF + 1" for i j xs
    using that assms(2) by (auto simp: set_link_nth buf_core_def)
  show ?thesis
    using assms(1) by (simp add: link_front_def unlink_buf_def Let_def n)
qed

lemma cacheb_relink:
  assumes c: "cacheb dev bs dk pid v R L" and b: "b < NBUF"
  shows "cacheb dev (link_front b (unlink_buf b bs)) dk pid v R L"
    "slot dev (link_front b (unlink_buf b bs)) j x = slot dev bs j x"
proof -
  let ?bs = "link_front b (unlink_buf b bs)"
  have f: "buf_core (?bs ! k) = buf_core (bs ! k)" if "k < NBUF" for k
    using relink_core[OF cachebD(2)[OF c], of k b] that by simp
  show sl: "slot dev ?bs j x = slot dev bs j x" for j x
    using buf_core_eqD(2,3)[OF f, of j] by (auto simp: slot_def)
  have ok: "buf_ok dev pid v R L (?bs ! k)" if "k < NBUF" for k
    using cachebD(3)[OF c that] buf_core_eqD[OF f[OF that]] by (simp add: buf_ok_def)
  have "\<exists>l. lru ?bs l" using cachebD(1)[OF c] lru_touch[OF _ b] by blast
  then show "cacheb dev ?bs dk pid v R L"
    using c ok unfolding cacheb_def sl by blast
qed

lemma brelse_ok:
  assumes c: "cache dev s v R L" and sl: "slot dev (bufs s) i bno" and L: "bno \<in> L" and cl: "R bno = 1 \<longrightarrow> v bno = disk s bno"
  shows "\<exists>B. brelse i s = Ret () ((wakeup (ChBufLock i) s)\<lparr>bufs := B\<rparr>) \<and>
    cache dev ((wakeup (ChBufLock i) s)\<lparr>bufs := B\<rparr>) v (R(bno := R bno - 1)) (L - {bno}) \<and>
    (\<forall>j x. slot dev B j x = slot dev (bufs s) j x)"
proof -
  note o = slot_ok[OF cacheD[OF c] sl]
  let ?f = "\<lambda>b. b\<lparr>b_lock := initsleeplock, b_refcnt := b_refcnt b - 1\<rparr>"
  let ?s = "upd_buf i ?f s"
  have R: "R bno \<noteq> 0" using L cachebD(6)[OF cacheD[OF c], of bno] by blast
  have il: "i < length (bufs s)" using slotD(1)[OF sl] cachebD(2)[OF cacheD[OF c]] by simp
  have u: "unat (b_refcnt (bufs s ! i) - 1) = R bno - 1"
    using o(1) R by (simp add: unat_pred32)
  have ok: "buf_ok dev (mypid s) v (R(bno := R bno - 1)) (L - {bno}) (?f (bufs s ! i))"
    using o(3)[OF o(5)[OF R]] o(5)[OF R] u slotD(2,3)[OF sl] by (simp add: buf_ok_def initsleeplock_def)
  have c1: "cache dev ?s v (R(bno := R bno - 1)) (L - {bno})"
  proof (rule cache_slot_upd[OF c sl])
    show "buf_ok dev (mypid s) v (R(bno := R bno - 1)) (L - {bno}) (?f (bufs s ! i))" by (rule ok)
  next
    assume "(R(bno := R bno - 1)) bno = 0"
    then have "R bno = 1" using R by simp
    then show "v bno = disk s bno \<and> bno \<notin> L - {bno}" using cl by simp
  qed (use slotD(2,3)[OF sl] in simp_all)
  have sl1: "slot dev (bufs ?s) j x = slot dev (bufs s) j x" for j x
    by (rule upd_buf_slot) simp_all
  have cur: "\<forall>i. curproc s = Some i \<longrightarrow> i < length (procs s)" using c by (simp add: cache_def)
  define B where "B = (if b_refcnt (bufs ?s ! i) = 0 then link_front i (unlink_buf i (bufs ?s)) else bufs ?s)"
  have "brelse i s = Ret () ((wakeup (ChBufLock i) s)\<lparr>bufs := B\<rparr>)"
    using o(2,4) L il unfolding B_def
    by (simp add: brelse_def holdingsleep_def buf_lock_def releasesleep_def set_buf_lock_def Let_def upd_buf_def wakeup_bufs initsleeplock_def)
  moreover have "cacheb dev B (disk s) (mypid s) v (R(bno := R bno - 1)) (L - {bno})" "\<forall>j x. slot dev B j x = slot dev (bufs s) j x"
    unfolding B_def using cacheD[OF c1] cacheb_relink[OF cacheD[OF c1] slotD(1)[OF sl]] sl1 by simp_all
  ultimately show ?thesis
    using cur by (intro exI[of _ B] conjI) (simp_all add: cache_def wakeup_mypid)
qed

lemma link_front_length [simp]: "length (link_front b bs) = length bs"
  by (simp add: link_front_def Let_def)

lemma link_front_blank:
  assumes "\<forall>k<length bs. blank (bs ! k)" "k < length bs"
  shows "blank (link_front b bs ! k)"
  using assms by (simp add: link_front_def Let_def set_link_nth blank_def)

lemma binit_ring:
  assumes bs: "length bs = NBUF + 1" "\<forall>k\<le>NBUF. blank (bs ! k)" and n: "n \<le> NBUF"
  shows "let bs' = foldl (\<lambda>bs b. link_front b (bs[b := (bs ! b)\<lparr>b_lock := initsleeplock\<rparr>])) (set_next NBUF NBUF (set_prev NBUF NBUF bs)) [0..<n]
    in ring bs' (rev [0..<n]) \<and> length bs' = NBUF + 1 \<and> (\<forall>k\<le>NBUF. blank (bs' ! k))"
  using n
proof (induction n)
  case 0
  then show ?case
    using bs by (auto simp: ring_def linked_def set_link_nth blank_def Let_def)
next
  case (Suc n)
  let ?bs = "foldl (\<lambda>bs b. link_front b (bs[b := (bs ! b)\<lparr>b_lock := initsleeplock\<rparr>])) (set_next NBUF NBUF (set_prev NBUF NBUF bs)) [0..<n]"
  let ?bs' = "?bs[n := (?bs ! n)\<lparr>b_lock := initsleeplock\<rparr>]"
  have ih: "ring ?bs (rev [0..<n])" "length ?bs = NBUF + 1" "\<forall>k\<le>NBUF. blank (?bs ! k)"
    using Suc by (simp_all add: Let_def)
  have r: "ring ?bs' (rev [0..<n])"
    by (rule ring_cong[OF ih(1)]) (use ih(2) Suc.prems in \<open>auto simp: nth_list_update\<close>)
  have b: "\<forall>k<length ?bs'. blank (?bs' ! k)"
    using ih(2,3) Suc.prems by (auto simp: nth_list_update blank_def initsleeplock_def)
  have "ring (link_front n ?bs') (n # rev [0..<n])"
    by (rule ring_link_front[OF r]) (use Suc.prems in auto)
  moreover have "\<forall>k\<le>NBUF. blank (link_front n ?bs' ! k)"
    using link_front_blank[OF b] ih(2) by simp
  ultimately show ?case
    using ih(2) by (simp add: Let_def)
qed

lemma binit_ok:
  assumes s: "length (bufs s) = NBUF + 1" "\<forall>k\<le>NBUF. blank (bufs s ! k)" and d: "dev \<noteq> 0"
    and p: "\<forall>i. curproc s = Some i \<longrightarrow> i < length (procs s)"
  shows "cache dev (binit s) (disk s) (\<lambda>_. 0) {}"
proof -
  obtain B where B: "binit s = s\<lparr>bufs := B\<rparr>" "ring B (rev [0..<NBUF])" "\<forall>k\<le>NBUF. blank (B ! k)"
    using binit_ring[OF s, of NBUF] unfolding binit_def Let_def by blast
  then have "lru B (rev [0..<NBUF])" by (auto simp: lru_def)
  moreover have "buf_ok dev (mypid s) (disk s) (\<lambda>_. 0) {} (B ! k)" "\<not> slot dev B k x" if "k < NBUF" for k x
    using B(3) that d by (auto simp: buf_ok_def slot_def blank_def)
  ultimately show ?thesis
    using p unfolding B(1) cache_def cacheb_def by (auto simp: slot_def)
qed

lemma boot_bio_cache: "cache 1 (binit boot_bio) (\<lambda>_. replicate BSIZE 0) (\<lambda>_. 0) {}"
proof -
  have "\<forall>k\<le>NBUF. blank (bufs boot_bio ! k)"
    by (simp add: boot_bio_def blank_def zero_buf_def initsleeplock_def nth_replicate del: replicate_Suc)
  then show ?thesis
    using binit_ok[of boot_bio 1] by (simp add: boot_bio_def)
qed

lemma upd_data_frame [simp]: "disk (upd_data i f s) = disk s" "wtrace (upd_data i f s) = wtrace s"
  by (simp_all add: upd_data_def)

lemma bput_ok:
  assumes c: "cache dev s v R L" and L: "bno \<notin> L" and n: "R bno \<noteq> 0 \<or> card {b. R b \<noteq> 0} < NBUF" and R: "R bno + 1 < 2 ^ 32"
  shows "\<exists>s'. bput dev bno d s = Ret () s' \<and> cache dev s' (v(bno := d)) R L \<and> disk s' = (disk s)(bno := d) \<and>
    wtrace s' = (bno, d) # wtrace s"
proof -
  obtain i B where r: "bread dev bno s = Ret i (s\<lparr>bufs := B\<rparr>)" and c1: "cache dev (s\<lparr>bufs := B\<rparr>) v (R(bno := Suc (R bno))) (insert bno L)"
    and sl: "slot dev (bufs (s\<lparr>bufs := B\<rparr>)) i bno"
    using bread_ok[OF c L n R] by auto
  let ?s1 = "s\<lparr>bufs := B\<rparr>"
  let ?s2 = "upd_data i (\<lambda>_. d) ?s1"
  have c2: "cache dev ?s2 (v(bno := d)) (R(bno := Suc (R bno))) (insert bno L)" and sl2: "slot dev (bufs ?s2) i bno"
    using upd_data_ok(1,2)[OF c1 sl, of "\<lambda>_. d"] sl by simp_all
  let ?s3 = "?s2\<lparr>disk := (disk ?s2)(bno := d), wtrace := (bno, d) # wtrace ?s2\<rparr>"
  have w: "bwrite i ?s2 = Ret () ?s3" and c3: "cache dev ?s3 (v(bno := d)) (R(bno := Suc (R bno))) (insert bno L)"
    using bwrite_ok[OF c2 sl2] by simp_all
  have sl3: "slot dev (bufs ?s3) i bno" using sl2 by simp
  obtain B' where b: "brelse i ?s3 = Ret () ((wakeup (ChBufLock i) ?s3)\<lparr>bufs := B'\<rparr>)"
    and c4: "cache dev ((wakeup (ChBufLock i) ?s3)\<lparr>bufs := B'\<rparr>) (v(bno := d)) ((R(bno := Suc (R bno)))(bno := R bno)) (insert bno L - {bno})"
    using brelse_ok[OF c3 sl3] by auto
  have e: "(R(bno := Suc (R bno)))(bno := R bno) = R" "insert bno L - {bno} = L" using L by auto
  have "bput dev bno d s = Ret () ((wakeup (ChBufLock i) ?s3)\<lparr>bufs := B'\<rparr>)"
    using r w b by (simp add: bput_def kernel_defs)
  then show ?thesis using c4 unfolding e by (intro exI conjI) (assumption | simp)+
qed

lemma bpeek_ok:
  assumes c: "cache dev s v R L" and L: "bno \<notin> L" and n: "R bno \<noteq> 0 \<or> card {b. R b \<noteq> 0} < NBUF" and R: "R bno + 1 < 2 ^ 32"
  shows "\<exists>s'. bpeek dev bno s = Ret (v bno) s' \<and> cache dev s' v R L \<and> disk s' = disk s \<and> wtrace s' = wtrace s"
proof -
  obtain i B where r: "bread dev bno s = Ret i (s\<lparr>bufs := B\<rparr>)" and c1: "cache dev (s\<lparr>bufs := B\<rparr>) v (R(bno := Suc (R bno))) (insert bno L)"
    and sl: "slot dev (bufs (s\<lparr>bufs := B\<rparr>)) i bno"
    using bread_ok[OF c L n R] by auto
  let ?s1 = "s\<lparr>bufs := B\<rparr>"
  have d: "buf_data i ?s1 = v bno"
    using upd_data_ok(3)[OF c1 sl] by simp
  have cl: "R bno = 0 \<Longrightarrow> v bno = disk s bno" using cachebD(5)[OF cacheD[OF c]] by blast
  obtain B' where b: "brelse i ?s1 = Ret () ((wakeup (ChBufLock i) ?s1)\<lparr>bufs := B'\<rparr>)"
    and c4: "cache dev ((wakeup (ChBufLock i) ?s1)\<lparr>bufs := B'\<rparr>) v ((R(bno := Suc (R bno)))(bno := R bno)) (insert bno L - {bno})"
    using brelse_ok[OF c1 sl] cl by auto
  have e: "(R(bno := Suc (R bno)))(bno := R bno) = R" "insert bno L - {bno} = L" using L by auto
  have "bpeek dev bno s = Ret (v bno) ((wakeup (ChBufLock i) ?s1)\<lparr>bufs := B'\<rparr>)"
    using r b d by (simp add: bpeek_def kernel_defs)
  then show ?thesis using c4 unfolding e by (intro exI conjI) (assumption | simp)+
qed

lemma find_rev_last: "filter P l \<noteq> [] \<Longrightarrow> find P (rev l) = Some (last (filter P l))"
  by (induction l rule: rev_induct) (auto split: if_splits)

lemma bget_evicts:
  assumes l: "lru (bufs s) l" and no: "\<forall>j. \<not> slot dev (bufs s) j bno"
    and f: "filter (\<lambda>i. b_refcnt (bufs s ! i) = 0) l \<noteq> []"
    and i: "i = last (filter (\<lambda>i. b_refcnt (bufs s ! i) = 0) l)" and ul: "\<not> sl_locked (b_lock (bufs s ! i))"
  shows "\<exists>s'. bget dev bno s = Ret i s'"
proof -
  have set: "set l = {..<NBUF}" using l by (simp add: lru_def)
  have n: "find (\<lambda>i. b_dev (bufs s ! i) = dev \<and> b_blockno (bufs s ! i) = bno) l = None"
    using no set by (auto simp: find_None_iff slot_def)
  have "i \<in> set (filter (\<lambda>i. b_refcnt (bufs s ! i) = 0) l)"
    unfolding i by (rule last_in_set[OF f])
  then have il: "i < length (bufs s)"
    using set l by (auto simp: lru_def ring_def)
  show ?thesis
    using acquire_buf_ok[of "upd_buf i (\<lambda>x. x\<lparr>b_dev := dev, b_blockno := bno, b_valid := 0, b_refcnt := 1\<rparr>) s" i] il ul
    unfolding bget_def lru_scan[OF l] n find_rev_last[OF f] i[symmetric] by (simp add: kernel_defs upd_buf_nth)
qed

lemma brelse_front:
  assumes l: "lru (bufs s) l" and b: "b < NBUF" and h: "holdingsleep (buf_lock b) s" and r: "b_refcnt (bufs s ! b) = 1"
  shows "\<exists>s'. brelse b s = Ret () s' \<and> lru (bufs s') (b # remove1 b l)"
proof -
  let ?B = "(bufs s)[b := (bufs s ! b)\<lparr>b_lock := initsleeplock, b_refcnt := 0\<rparr>]"
  have len: "length (bufs s) = NBUF + 1" using l by (simp add: lru_def ring_def)
  have "ring ?B l"
    by (rule ring_cong[of "bufs s"]) (use l len b in \<open>auto simp: lru_def nth_list_update\<close>)
  then have "lru ?B l" using l by (simp add: lru_def)
  moreover have "brelse b s = Ret () ((wakeup (ChBufLock b) s)\<lparr>bufs := link_front b (unlink_buf b ?B)\<rparr>)"
    using h r len b
    by (simp add: brelse_def releasesleep_def set_buf_lock_def Let_def upd_buf_def wakeup_bufs initsleeplock_def)
  ultimately show ?thesis
    using lru_touch[OF _ b] by auto
qed

lemma full_not_cached:
  assumes c: "cache dev s v R L" and n: "card {b. R b \<noteq> 0} = NBUF" and sl: "slot dev (bufs s) j bno"
  shows "R bno \<noteq> 0"
proof
  assume R: "R bno = 0"
  note cb = cacheD[OF c]
  have "{b. R b \<noteq> 0} \<subseteq> (\<lambda>i. b_blockno (bufs s ! i)) ` ({..<NBUF} - {j})"
    using cachebD(7)[OF cb] sl R by (fastforce simp: slot_def)
  then have "card {b. R b \<noteq> 0} \<le> card ({..<NBUF} - {j})"
    by (rule surj_card_le[rotated]) simp
  then show False using n slotD(1)[OF sl] by simp
qed

lemma full_all_referenced:
  assumes c: "cacheb dev bs dk pid v R L" and n: "card {b. R b \<noteq> 0} = NBUF" and i: "i < NBUF"
  shows "b_refcnt (bs ! i) \<noteq> 0"
proof
  assume r: "b_refcnt (bs ! i) = 0"
  have "{b. R b \<noteq> 0} \<subseteq> (\<lambda>i. b_blockno (bs ! i)) ` ({..<NBUF} - {i})"
  proof
    fix b assume "b \<in> {b. R b \<noteq> 0}"
    then obtain j where j: "slot dev bs j b" "R b \<noteq> 0" using cachebD(7)[OF c] by blast
    then have "j \<noteq> i" using slot_ok(1)[OF c j(1)] r by auto
    then show "b \<in> (\<lambda>i. b_blockno (bs ! i)) ` ({..<NBUF} - {i})" using j by (auto simp: slot_def)
  qed
  then have "card {b. R b \<noteq> 0} \<le> card ({..<NBUF} - {i})"
    by (rule surj_card_le[rotated]) simp
  then show False using n i by simp
qed

lemma bread_full:
  assumes c: "cache dev s v R L" and n: "R bno = 0 \<and> card {b. R b \<noteq> 0} = NBUF \<and> (\<forall>j. \<not> slot dev (bufs s) j bno)"
  shows "bread dev bno s = Panic ''bget: no buffers''"
proof -
  note cb = cacheD[OF c]
  obtain l where l: "lru (bufs s) l" using cachebD(1)[OF cb] by blast
  then have set: "set l = {..<NBUF}" by (simp add: lru_def)
  have 1: "find (\<lambda>i. b_dev (bufs s ! i) = dev \<and> b_blockno (bufs s ! i) = bno) l = None"
    using n set by (auto simp: find_None_iff slot_def)
  have 2: "find (\<lambda>i. b_refcnt (bufs s ! i) = 0) (rev l) = None"
    using full_all_referenced[OF cb] n set by (auto simp: find_None_iff)
  show ?thesis
    unfolding bread_def by (rule kbind_panic) (simp only: bget_def lru_scan[OF l] 1 2 option.case)
qed

section \<open>Properties\<close>



text \<open>
  C19: What \<^verbatim>\<open>bread\<close> does in every case. It returns a buffer with the contents of the block, locked by the caller and with
  one more reference, whenever the block is cached or a buffer is unreferenced; with all \<^verbatim>\<open>NBUF\<close> buffers referenced and
  the block not among them it panics with "bget: no buffers".
\<close>

theorem bread_total:
  assumes "cache dev s v R L" "bno \<notin> L" "R bno + 1 < 2 ^ 32"
  shows "if R bno = 0 \<and> card {b. R b \<noteq> 0} = NBUF \<and> (\<forall>j. \<not> slot dev (bufs s) j bno)
    then bread dev bno s = Panic ''bget: no buffers''
    else \<exists>i s'. bread dev bno s = Ret i s' \<and> buf_data i s' = v bno \<and> holdingsleep (buf_lock i) s' \<and>
      disk s' = disk s \<and> cache dev s' v (R(bno := Suc (R bno))) (insert bno L)"
proof (cases "R bno = 0 \<and> card {b. R b \<noteq> 0} = NBUF \<and> (\<forall>j. \<not> slot dev (bufs s) j bno)")
  case True
  then show ?thesis using bread_full[OF assms(1)] by simp
next
  case False
  have "R bno \<noteq> 0 \<or> card {b. R b \<noteq> 0} < NBUF"
    using False referenced_finite(2)[OF cacheD[OF assms(1)]] full_not_cached[OF assms(1)] by (metis le_neq_implies_less)
  from bread_ok[OF assms(1,2) this assms(3)] obtain i B where r: "bread dev bno s = Ret i (s\<lparr>bufs := B\<rparr>)"
    and c: "cache dev (s\<lparr>bufs := B\<rparr>) v (R(bno := Suc (R bno))) (insert bno L)" and sl: "slot dev (bufs (s\<lparr>bufs := B\<rparr>)) i bno"
    by auto
  have "buf_data i (s\<lparr>bufs := B\<rparr>) = v bno" "holdingsleep (buf_lock i) (s\<lparr>bufs := B\<rparr>)"
    using upd_data_ok(3)[OF c sl] slot_ok(2,4)[OF cacheD[OF c] sl] by (simp_all add: holdingsleep_def buf_lock_def)
  then show ?thesis using r c False by auto
qed

theorem bread_total_witness:
  "\<exists>i s'. bread 1 7 (binit boot_bio) = Ret i s' \<and> buf_data i s' = replicate BSIZE 0"
  using bread_total[OF boot_bio_cache, of 7] by auto

text \<open>
  C20: LRU replacement. The links implement a list ordered by last use: releasing the last reference to a buffer moves it
  to the front, and a miss recycles the last buffer of the list that nobody references.
\<close>

theorem bcache_lru:
  assumes "lru (bufs s) l" "b < NBUF"
  shows "(holdingsleep (buf_lock b) s \<and> b_refcnt (bufs s ! b) = 1 \<longrightarrow>
      (\<exists>s'. brelse b s = Ret () s' \<and> lru (bufs s') (b # remove1 b l))) \<and>
    ((\<forall>j. \<not> slot dev (bufs s) j bno) \<and> filter (\<lambda>i. b_refcnt (bufs s ! i) = 0) l \<noteq> [] \<and>
      \<not> sl_locked (b_lock (bufs s ! last (filter (\<lambda>i. b_refcnt (bufs s ! i) = 0) l))) \<longrightarrow>
      (\<exists>s'. bget dev bno s = Ret (last (filter (\<lambda>i. b_refcnt (bufs s ! i) = 0) l)) s'))"
  using brelse_front[OF assms] bget_evicts[OF assms(1)] by blast

theorem bcache_lru_witness:
  "\<exists>s'. bget 1 7 (binit boot_bio) = Ret 0 s'"
proof -
  have z: "\<forall>k\<le>NBUF. blank (bufs boot_bio ! k)" "length (bufs boot_bio) = NBUF + 1"
    by (simp_all add: boot_bio_def blank_def zero_buf_def initsleeplock_def nth_replicate del: replicate_Suc)
  obtain B where B: "binit boot_bio = boot_bio\<lparr>bufs := B\<rparr>" "ring B (rev [0..<NBUF])" "\<forall>k\<le>NBUF. blank (B ! k)"
    using binit_ring[OF z(2,1), of NBUF] unfolding binit_def Let_def by blast
  then have l: "lru (bufs (binit boot_bio)) (rev [0..<NBUF])" by (auto simp: lru_def)
  have f: "filter (\<lambda>i. b_refcnt (bufs (binit boot_bio) ! i) = 0) (rev [0..<NBUF]) = rev [0..<NBUF]"
    using B(1,3) by (intro filter_True) (auto simp: blank_def)
  have "\<forall>j. \<not> slot 1 (bufs (binit boot_bio)) j 7" "\<not> sl_locked (b_lock (bufs (binit boot_bio) ! 0))"
    using B(1,3) by (auto simp: slot_def blank_def)
  then show ?thesis
    using bcache_lru[OF l, of 0 1 7] unfolding f by (simp add: last_rev)
qed

end
