(* ===== verification/Log.thy ===== *)
theory Log
  imports Bio "HOL-Library.Sublist"
begin

text \<open>
  The redo log, \<^verbatim>\<open>kernel/log.c\<close>: transactions that absorb the block writes of several system calls and
  are committed when the last of them ends, and recovery at boot. \<^verbatim>\<open>int\<close> fields of the log are
  \<^typ>\<open>int\<close>; the header on disk is an array of little-endian 32-bit words.
\<close>

section \<open>Little-endian fields of a block\<close>

definition rd16 :: "u8 list \<Rightarrow> nat \<Rightarrow> u16" where
  "rd16 bs off = ucast (bs ! off) OR push_bit 8 (ucast (bs ! (off + 1)))"

definition rd32 :: "u8 list \<Rightarrow> nat \<Rightarrow> u32" where
  "rd32 bs off = ucast (bs ! off) OR push_bit 8 (ucast (bs ! (off + 1))) OR
     push_bit 16 (ucast (bs ! (off + 2))) OR push_bit 24 (ucast (bs ! (off + 3)))"

definition wr16 :: "u8 list \<Rightarrow> nat \<Rightarrow> u16 \<Rightarrow> u8 list" where
  "wr16 bs off v = bs[off := ucast v, off + 1 := ucast (drop_bit 8 v)]"

definition wr32 :: "u8 list \<Rightarrow> nat \<Rightarrow> u32 \<Rightarrow> u8 list" where
  "wr32 bs off v = bs[off := ucast v, off + 1 := ucast (drop_bit 8 v),
     off + 2 := ucast (drop_bit 16 v), off + 3 := ucast (drop_bit 24 v)]"

section \<open>State\<close>

record loghdr =
  lh_n :: int
  lh_block :: "u32 list"

record log = bio +
  log_start :: u32
  log_outstanding :: int
  log_committing :: bool
  log_dev :: u32
  log_lh :: loghdr

definition set_lh_n :: "int \<Rightarrow> 'a log_scheme \<Rightarrow> 'a log_scheme" where
  "set_lh_n n s = s\<lparr>log_lh := (log_lh s)\<lparr>lh_n := n\<rparr>\<rparr>"

section \<open>Operations\<close>

definition install_one :: "bool \<Rightarrow> nat \<Rightarrow> ('a log_scheme, unit) kmon" where
  "install_one recovering tail = (\<lambda>s.
     kbind (bread (log_dev s) (log_start s + of_nat tail + 1)) (\<lambda>lbuf.
     kbind (\<lambda>s. bread (log_dev s) (lh_block (log_lh s) ! tail) s) (\<lambda>dbuf.
       kthen (\<lambda>s. Ret () (upd_data dbuf (\<lambda>_. buf_data lbuf s) s))
      (kthen (bwrite dbuf)
      (kthen (kwhen (\<not> recovering) (kmod (bunpin dbuf)))
      (kthen (brelse lbuf)
             (brelse dbuf)))))) s)"

definition install_trans :: "bool \<Rightarrow> ('a log_scheme, unit) kmon" where
  "install_trans recovering = (\<lambda>s. kforeach (install_one recovering) [0..<nat (lh_n (log_lh s))] s)"

text \<open>
  The header block as \<^verbatim>\<open>struct logheader\<close>: \<^verbatim>\<open>n\<close> and then the block numbers. The source trusts \<^verbatim>\<open>n\<close> of the disk: for a
  value above \<^verbatim>\<open>LOGBLOCKS\<close>, which \<^verbatim>\<open>write_head\<close> never writes, it would store past \<^verbatim>\<open>log.lh.block\<close>; the updates of the
  list beyond its length have no effect here, and the lemmas assume a header that fits.
\<close>

definition hdr_n :: "u8 list \<Rightarrow> int" where
  "hdr_n bs = sint (rd32 bs 0)"

definition hdr_block :: "u8 list \<Rightarrow> nat \<Rightarrow> u32" where
  "hdr_block bs i = rd32 bs (4 + 4 * i)"

definition read_head :: "('a log_scheme, unit) kmon" where
  "read_head = (\<lambda>s. kbind (bread (log_dev s) (log_start s)) (\<lambda>b.
     kthen (\<lambda>s. let d = buf_data b s; lh = (log_lh s)\<lparr>lh_n := hdr_n d\<rparr> in
        Ret () (s\<lparr>log_lh := lh\<lparr>lh_block := foldl (\<lambda>bl i. bl[i := hdr_block d i]) (lh_block lh) [0..<nat (lh_n lh)]\<rparr>\<rparr>))
       (brelse b)) s)"

definition encode_head :: "loghdr \<Rightarrow> u8 list \<Rightarrow> u8 list" where
  "encode_head lh d =
     foldl (\<lambda>d i. wr32 d (4 + 4 * i) (lh_block lh ! i)) (wr32 d 0 (word_of_int (lh_n lh))) [0..<nat (lh_n lh)]"

definition write_head :: "('a log_scheme, unit) kmon" where
  "write_head = (\<lambda>s. kbind (bread (log_dev s) (log_start s)) (\<lambda>b.
     kthen (\<lambda>s. Ret () (upd_data b (encode_head (log_lh s)) s))
       (kthen (bwrite b) (brelse b))) s)"

definition recover_from_log :: "('a log_scheme, unit) kmon" where
  "recover_from_log = kthen read_head (kthen (install_trans True) (kthen (kmod (set_lh_n 0)) write_head))"

text \<open>The size test of \<^verbatim>\<open>initlog\<close> compares two constants, 124 and 1024.\<close>

definition initlog :: "u32 \<Rightarrow> u32 \<Rightarrow> ('a log_scheme, unit) kmon" where
  "initlog dev logstart =
     kthen (kguard (\<not> 4 + 4 * LOGBLOCKS \<ge> BSIZE) ''initlog: too big logheader'')
       (kthen (kmod (\<lambda>s. s\<lparr>log_start := logstart, log_dev := dev\<rparr>)) recover_from_log)"

definition begin_op :: "('a log_scheme, unit) kmon" where
  "begin_op s =
     (if log_committing s then Sleep ChLog s
      else if lh_n (log_lh s) + (log_outstanding s + 1) * int MAXOPBLOCKS > int LOGBLOCKS then Sleep ChLog s
      else Ret () (s\<lparr>log_outstanding := log_outstanding s + 1\<rparr>))"

definition write_one :: "nat \<Rightarrow> ('a log_scheme, unit) kmon" where
  "write_one tail = (\<lambda>s.
     kbind (bread (log_dev s) (log_start s + of_nat tail + 1)) (\<lambda>tob.
     kbind (\<lambda>s. bread (log_dev s) (lh_block (log_lh s) ! tail) s) (\<lambda>from.
       kthen (\<lambda>s. Ret () (upd_data tob (\<lambda>_. buf_data from s) s))
      (kthen (bwrite tob)
      (kthen (brelse from)
             (brelse tob))))) s)"

definition write_log :: "('a log_scheme, unit) kmon" where
  "write_log = (\<lambda>s. kforeach write_one [0..<nat (lh_n (log_lh s))] s)"

definition commit :: "('a log_scheme, unit) kmon" where
  "commit = (\<lambda>s.
     if lh_n (log_lh s) > 0
     then kthen write_log
           (kthen write_head
           (kthen (install_trans False)
           (kthen (kmod (set_lh_n 0))
                  write_head))) s
     else Ret () s)"

definition end_op :: "('a log_scheme, unit) kmon" where
  "end_op s =
     (let s = s\<lparr>log_outstanding := log_outstanding s - 1\<rparr> in
      if log_committing s then Panic ''log.committing''
      else if log_outstanding s = 0
      then kthen commit (kmod (\<lambda>s. wakeup ChLog (s\<lparr>log_committing := False\<rparr>))) (s\<lparr>log_committing := True\<rparr>)
      else Ret () (wakeup ChLog s))"

definition log_write :: "nat \<Rightarrow> ('a log_scheme, unit) kmon" where
  "log_write b s =
     (let n = lh_n (log_lh s); bno = b_blockno (bufs s ! b) in
      if n \<ge> int LOGBLOCKS then Panic ''too big a transaction''
      else if log_outstanding s < 1 then Panic ''log_write outside of trans''
      else let i = (case first_index (\<lambda>x. x = bno) (take (nat n) (lh_block (log_lh s))) of
                      Some i \<Rightarrow> i | None \<Rightarrow> nat n);
               s = s\<lparr>log_lh := (log_lh s)\<lparr>lh_block := (lh_block (log_lh s))[i := bno]\<rparr>\<rparr>
           in if i = nat n then Ret () (set_lh_n (n + 1) (bpin b s)) else Ret () s)"

definition apply_writes :: "(u32 \<Rightarrow> u8 list) \<Rightarrow> (u32 \<times> u8 list) list \<Rightarrow> u32 \<Rightarrow> u8 list" where
  "apply_writes d ws = foldl (\<lambda>d (b, x). d(b := x)) d ws"

definition log_frame :: "'a log_scheme \<Rightarrow> 'a log_scheme \<Rightarrow> bool" where
  "log_frame s s' \<longleftrightarrow> log_start s' = log_start s \<and> log_outstanding s' = log_outstanding s \<and>
     log_committing s' = log_committing s \<and> log_dev s' = log_dev s \<and> log_lh s' = log_lh s"

text \<open>The code wrote the blocks \<open>W\<close>, in this order, and changed nothing else of what is on the disk or in the log.\<close>

definition wrote :: "u32 \<Rightarrow> 'a log_scheme \<Rightarrow> (u32 \<Rightarrow> u8 list) \<Rightarrow> (u32 \<times> u8 list) list \<Rightarrow> 'a log_scheme \<Rightarrow> (u32 \<Rightarrow> nat) \<Rightarrow> bool" where
  "wrote dev s v W s' R' \<longleftrightarrow> cache dev s' (apply_writes v W) R' {} \<and> disk s' = apply_writes (disk s) W \<and>
     wtrace s' = rev W @ wtrace s \<and> log_frame s s'"

definition logblk :: "u32 \<Rightarrow> nat \<Rightarrow> u32" where
  "logblk st t = st + of_nat t + 1"

definition log_area :: "u32 \<Rightarrow> u32 set" where
  "log_area st = (\<lambda>k. st + of_nat k) ` {..LOGBLOCKS}"

text \<open>Installing drops one reference of each block, except in recovery, where the blocks were not pinned.\<close>

definition unpinned :: "bool \<Rightarrow> u32 set \<Rightarrow> (u32 \<Rightarrow> nat) \<Rightarrow> u32 \<Rightarrow> nat" where
  "unpinned rec X R x = (if \<not> rec \<and> x \<in> X then R x - 1 else R x)"

text \<open>The block writes of a commit: the log, the header, the home locations, the cleared header.\<close>

definition log_writes :: "u32 \<Rightarrow> loghdr \<Rightarrow> (u32 \<Rightarrow> u8 list) \<Rightarrow> (u32 \<times> u8 list) list" where
  "log_writes st lh v = map (\<lambda>t. (logblk st t, v (lh_block lh ! t))) [0..<nat (lh_n lh)]"

definition home_writes :: "loghdr \<Rightarrow> (u32 \<Rightarrow> u8 list) \<Rightarrow> (u32 \<times> u8 list) list" where
  "home_writes lh v = map (\<lambda>t. (lh_block lh ! t, v (lh_block lh ! t))) [0..<nat (lh_n lh)]"

definition commit_writes :: "u32 \<Rightarrow> loghdr \<Rightarrow> (u32 \<Rightarrow> u8 list) \<Rightarrow> (u32 \<times> u8 list) list" where
  "commit_writes st lh v =
     (let h = encode_head lh (v st) in
      log_writes st lh v @ [(st, h)] @ home_writes lh v @ [(st, encode_head (lh\<lparr>lh_n := 0\<rparr>) h)])"

text \<open>
  The state of the log before a commit: at most \<^verbatim>\<open>LOGBLOCKS\<close> distinct blocks outside the log, each pinned in the
  cache, and no committed transaction in the log on the disk.
\<close>

definition log_ready :: "'a log_scheme \<Rightarrow> (u32 \<Rightarrow> u8 list) \<Rightarrow> (u32 \<Rightarrow> nat) \<Rightarrow> bool" where
  "log_ready s v R \<longleftrightarrow> cache (log_dev s) s v R {} \<and>
     0 \<le> lh_n (log_lh s) \<and> lh_n (log_lh s) \<le> int LOGBLOCKS \<and> length (lh_block (log_lh s)) = LOGBLOCKS \<and>
     distinct (take (nat (lh_n (log_lh s))) (lh_block (log_lh s))) \<and>
     (\<forall>b\<in>set (take (nat (lh_n (log_lh s))) (lh_block (log_lh s))). b \<notin> log_area (log_start s) \<and> R b \<noteq> 0) \<and>
     (\<forall>b\<in>log_area (log_start s). R b = 0) \<and> (\<forall>b. R b + 1 < 2 ^ 32) \<and>
     length (v (log_start s)) = BSIZE \<and> hdr_n (v (log_start s)) = 0"

text \<open>What recovery writes, from the contents \<open>d\<close> of the disk.\<close>

definition recover_writes :: "u32 \<Rightarrow> (u32 \<Rightarrow> u8 list) \<Rightarrow> (u32 \<times> u8 list) list" where
  "recover_writes st d = map (\<lambda>t. (hdr_block (d st) t, d (logblk st t))) [0..<nat (hdr_n (d st))]"

definition committed_ok :: "u32 \<Rightarrow> (u32 \<Rightarrow> u8 list) \<Rightarrow> bool" where
  "committed_ok st d \<longleftrightarrow> length (d st) = BSIZE \<and> hdr_n (d st) \<le> int LOGBLOCKS \<and>
     distinct (map (hdr_block (d st)) [0..<nat (hdr_n (d st))]) \<and> (\<forall>t<nat (hdr_n (d st)). hdr_block (d st) t \<notin> log_area st)"

definition demo_log :: log where
  "demo_log = bio.extend (binit boot_bio)
     \<lparr>log_start = 2, log_outstanding = 1, log_committing = False, log_dev = 1, log_lh = \<lparr>lh_n = 0, lh_block = replicate LOGBLOCKS 0\<rparr>\<rparr>"

text \<open>The use of the log the comment of \<^verbatim>\<open>log_write\<close> gives: read a block, change it, log it, release it.\<close>

definition log_put :: "u32 \<Rightarrow> (u8 list \<Rightarrow> u8 list) \<Rightarrow> ('a log_scheme, unit) kmon" where
  "log_put bno f = (\<lambda>s. kbind (bread (log_dev s) bno) (\<lambda>b. kthen (kmod (upd_data b f)) (kthen (log_write b) (brelse b))) s)"

section \<open>Header encoding\<close>

lemma rd32_wr32_same:
  assumes "off + 3 < length bs"
  shows "rd32 (wr32 bs off v) off = v"
proof (rule bit_word_eqI)
  fix n assume "n < LENGTH(32)"
  then consider "n < 8" | "8 \<le> n" "n < 16" | "16 \<le> n" "n < 24" | "24 \<le> n" "n < 32"
    by fastforce
  then show "bit (rd32 (wr32 bs off v) off) n = bit v n"
    using assms by cases (auto simp: rd32_def wr32_def bit_simps nth_list_update)
qed

lemma rd32_wr32_other: "off' + 3 < off \<or> off + 3 < off' \<Longrightarrow> rd32 (wr32 bs off v) off' = rd32 bs off'"
  by (auto simp: rd32_def wr32_def)

lemma wr32_length [simp]: "length (wr32 bs off v) = length bs"
  by (simp add: wr32_def)

lemma rd16_wr16_same: "off + 1 < length bs \<Longrightarrow> rd16 (wr16 bs off v) off = v"
  by (rule bit_word_eqI) (auto simp: rd16_def wr16_def bit_simps nth_list_update)

lemma rd16_wr16_other: "off' + 1 < off \<or> off + 1 < off' \<Longrightarrow> rd16 (wr16 bs off v) off' = rd16 bs off'"
  by (auto simp: rd16_def wr16_def)

lemma wr16_length [simp]: "length (wr16 bs off v) = length bs"
  by (simp add: wr16_def)

lemma encode_blocks:
  assumes "length d = BSIZE" "n \<le> LOGBLOCKS"
  shows "let d' = foldl (\<lambda>d i. wr32 d (4 + 4 * i) (bl ! i)) d [0..<n] in
    length d' = BSIZE \<and> rd32 d' 0 = rd32 d 0 \<and> (\<forall>i<n. hdr_block d' i = bl ! i)"
  using assms(2)
proof (induction n)
  case 0
  then show ?case using assms(1) by simp
next
  case (Suc n)
  let ?d = "foldl (\<lambda>d i. wr32 d (4 + 4 * i) (bl ! i)) d [0..<n]"
  have ih: "length ?d = BSIZE" "rd32 ?d 0 = rd32 d 0" "\<forall>i<n. hdr_block ?d i = bl ! i"
    using Suc by (simp_all add: Let_def)
  have "hdr_block (wr32 ?d (4 + 4 * n) (bl ! n)) i = bl ! i" if "i < Suc n" for i
    using that ih Suc.prems unfolding hdr_block_def
    by (cases "i = n") (simp_all add: rd32_wr32_same rd32_wr32_other)
  then show ?case
    using ih by (simp add: Let_def rd32_wr32_other)
qed

lemma encode_head_ok:
  assumes "length d = BSIZE" "0 \<le> lh_n lh" "lh_n lh \<le> int LOGBLOCKS"
  shows "length (encode_head lh d) = BSIZE" "hdr_n (encode_head lh d) = lh_n lh"
    "\<And>i. i < nat (lh_n lh) \<Longrightarrow> hdr_block (encode_head lh d) i = lh_block lh ! i"
proof -
  note e = encode_blocks[of "wr32 d 0 (word_of_int (lh_n lh))" "nat (lh_n lh)" "lh_block lh", unfolded Let_def]
  have "sint (word_of_int (lh_n lh) :: u32) = lh_n lh"
    using assms by (simp add: int_word_sint)
  then show "length (encode_head lh d) = BSIZE" "hdr_n (encode_head lh d) = lh_n lh"
    "\<And>i. i < nat (lh_n lh) \<Longrightarrow> hdr_block (encode_head lh d) i = lh_block lh ! i"
    using e assms by (simp_all add: encode_head_def hdr_n_def rd32_wr32_same)
qed

section \<open>Sequences of disk writes\<close>

lemma apply_writes_simps [simp]:
  "apply_writes d [] = d" "apply_writes d ((b, x) # ws) = apply_writes (d(b := x)) ws"
  "apply_writes d (xs @ ys) = apply_writes (apply_writes d xs) ys"
  by (simp_all add: apply_writes_def)

lemma apply_writes_other: "x \<notin> fst ` set ws \<Longrightarrow> apply_writes d ws x = d x"
proof (induction ws arbitrary: d)
  case (Cons w ws)
  then show ?case by (cases w) auto
qed simp

lemma apply_writes_map:
  assumes "distinct (map f xs)" "t \<in> set xs"
  shows "apply_writes d (map (\<lambda>t. (f t, g t)) xs) (f t) = g t"
  using assms
proof (induction xs arbitrary: d)
  case (Cons x xs)
  show ?case
  proof (cases "t = x")
    case True
    then have "f t \<notin> fst ` set (map (\<lambda>t. (f t, g t)) xs)" using Cons.prems(1) by auto
    then show ?thesis using apply_writes_other[of "f t"] True by simp
  next
    case False
    then show ?thesis using Cons by simp
  qed
qed simp

lemma log_frame_refl [simp]: "log_frame s s"
  by (simp add: log_frame_def)

lemma log_frame_simps [simp]:
  "log_frame s (s'\<lparr>bufs := B\<rparr>) = log_frame s s'" "log_frame s (s'\<lparr>disk := D\<rparr>) = log_frame s s'"
  "log_frame s (s'\<lparr>wtrace := W\<rparr>) = log_frame s s'" "log_frame s (wakeup ch s') = log_frame s s'"
  "log_frame s (upd_buf i f s') = log_frame s s'" "log_frame s (upd_data i g s') = log_frame s s'"
  "log_frame s (bpin i s') = log_frame s s'" "log_frame s (bunpin i s') = log_frame s s'"
  by (simp_all add: log_frame_def wakeup_def upd_buf_def upd_data_def bpin_def bunpin_def)

lemma pin_frame [simp]:
  "disk (bunpin i s) = disk s" "wtrace (bunpin i s) = wtrace s" "disk (bpin i s) = disk s" "wtrace (bpin i s) = wtrace s"
  by (simp_all add: bunpin_def bpin_def)

lemma wrote_trans:
  assumes "wrote dev s v W s' R'" "wrote dev s' (apply_writes v W) W' s'' R''"
  shows "wrote dev s v (W @ W') s'' R''"
  using assms by (auto simp: wrote_def log_frame_def)

lemma wroteD: "wrote dev s v W s' R' \<Longrightarrow> cache dev s' (apply_writes v W) R' {}" "wrote dev s v W s' R' \<Longrightarrow> log_frame s s'"
  by (simp_all add: wrote_def)

lemma card_ref_upd: "finite {b. R b \<noteq> (0::nat)} \<Longrightarrow> card {b. (R(x := Suc (R x))) b \<noteq> 0} \<le> Suc (card {b. R b \<noteq> 0})"
proof -
  assume f: "finite {b. R b \<noteq> 0}"
  have "{b. (R(x := Suc (R x))) b \<noteq> 0} = insert x {b. R b \<noteq> 0}" by auto
  then show ?thesis using f by (simp add: card_insert_le_m1 card_insert_if)
qed

text \<open>Two blocks are held: the first rule takes them, the second gives them back.\<close>

lemma bread2_ok:
  assumes c: "cache dev s v R {}" and ab: "a \<noteq> b" and n: "card {b. R b \<noteq> 0} < NBUF" "R b \<noteq> 0 \<or> card {b. R b \<noteq> 0} + 1 < NBUF"
    and R: "R a + 1 < 2 ^ 32" "R b + 1 < 2 ^ 32"
  obtains i B j B' where "bread dev a s = Ret i (s\<lparr>bufs := B\<rparr>)" "bread dev b (s\<lparr>bufs := B\<rparr>) = Ret j (s\<lparr>bufs := B'\<rparr>)"
    "cache dev (s\<lparr>bufs := B'\<rparr>) v (R(a := Suc (R a), b := Suc (R b))) {a, b}"
    "slot dev (bufs (s\<lparr>bufs := B'\<rparr>)) i a" "slot dev (bufs (s\<lparr>bufs := B'\<rparr>)) j b"
proof -
  obtain i B where 1: "bread dev a s = Ret i (s\<lparr>bufs := B\<rparr>)" "cache dev (s\<lparr>bufs := B\<rparr>) v (R(a := Suc (R a))) {a}" "slot dev B i a"
    using bread_ok[OF c _ disjI2[OF n(1)] R(1)] by auto
  have n': "(R(a := Suc (R a))) b \<noteq> 0 \<or> card {x. (R(a := Suc (R a))) x \<noteq> 0} < NBUF"
  proof (cases "R b \<noteq> 0")
    case False
    then show ?thesis
      using n(2) card_ref_upd[OF referenced_finite(1)[OF cacheD[OF c]], of a] by linarith
  qed (use ab in simp)
  have L2: "b \<notin> {a}" and R2: "(R(a := Suc (R a))) b + 1 < 2 ^ 32"
    using ab R(2) by simp_all
  obtain j B' where 2: "bread dev b (s\<lparr>bufs := B\<rparr>) = Ret j (s\<lparr>bufs := B\<rparr>\<lparr>bufs := B'\<rparr>)"
    "cache dev (s\<lparr>bufs := B\<rparr>\<lparr>bufs := B'\<rparr>) v ((R(a := Suc (R a)))(b := Suc ((R(a := Suc (R a))) b))) (insert b {a})" "slot dev B' j b"
    "\<forall>k x. slot dev (bufs (s\<lparr>bufs := B\<rparr>)) k x \<longrightarrow> (R(a := Suc (R a))) x \<noteq> 0 \<longrightarrow> slot dev B' k x"
    using bread_ok[OF 1(2) L2 n' R2] by blast
  have "slot dev B' i a" using 1(3) 2(4) by simp
  then show ?thesis
    using 1 2 ab by (intro that[of i B j B']) (simp_all add: insert_commute)
qed

lemma brelse2_ok:
  assumes c: "cache dev s v R {a, b}" and ab: "a \<noteq> b" and sl: "slot dev (bufs s) i a" "slot dev (bufs s) j b"
    and cl: "R a = 1 \<longrightarrow> v a = disk s a" "R b = 1 \<longrightarrow> v b = disk s b"
  obtains s' where "kthen (brelse i) (brelse j) s = Ret () s'" "cache dev s' v (R(a := R a - 1, b := R b - 1)) {}"
    "disk s' = disk s" "wtrace s' = wtrace s"
    "\<exists>B ch ch'. s' = (wakeup ch (wakeup ch' s))\<lparr>bufs := B\<rparr>"
proof -
  obtain B where 1: "brelse i s = Ret () ((wakeup (ChBufLock i) s)\<lparr>bufs := B\<rparr>)"
    "cache dev ((wakeup (ChBufLock i) s)\<lparr>bufs := B\<rparr>) v (R(a := R a - 1)) ({a, b} - {a})" "\<forall>j x. slot dev B j x = slot dev (bufs s) j x"
    using brelse_ok[OF c sl(1) _ cl(1)] by auto
  let ?s = "(wakeup (ChBufLock i) s)\<lparr>bufs := B\<rparr>"
  have e: "{a, b} - {a} = {b}" using ab by auto
  have sl2: "slot dev (bufs ?s) j b" using 1(3) sl(2) by simp
  have cl2: "(R(a := R a - 1)) b = 1 \<longrightarrow> v b = disk ?s b" using cl(2) ab by simp
  obtain B' where 2: "brelse j ?s = Ret () ((wakeup (ChBufLock j) ?s)\<lparr>bufs := B'\<rparr>)"
    "cache dev ((wakeup (ChBufLock j) ?s)\<lparr>bufs := B'\<rparr>) v ((R(a := R a - 1))(b := (R(a := R a - 1)) b - 1)) ({b} - {b})"
    using brelse_ok[OF 1(2)[unfolded e] sl2 _ cl2] by blast
  show ?thesis
    using 1(1) 2 ab by (intro that[of "(wakeup (ChBufLock j) ?s)\<lparr>bufs := B'\<rparr>"]) (auto simp: kernel_defs wakeup_bufs)
qed

lemma write_one_ok:
  assumes c: "cache dev s v R {}" and a: "a = log_start s + of_nat t + 1" and b: "b = lh_block (log_lh s) ! t" and d: "dev = log_dev s"
    and ab: "a \<noteq> b" and n: "card {b. R b \<noteq> 0} < NBUF" and R: "R a + 1 < 2 ^ 32" "R b + 1 < 2 ^ 32" "R b \<noteq> 0"
  shows "wp (write_one t) (\<lambda>_ s'. wrote dev s v [(a, v b)] s' R) s"
proof -
  obtain i B j B' where 1: "bread dev a s = Ret i (s\<lparr>bufs := B\<rparr>)" "bread dev b (s\<lparr>bufs := B\<rparr>) = Ret j (s\<lparr>bufs := B'\<rparr>)"
    "cache dev (s\<lparr>bufs := B'\<rparr>) v (R(a := Suc (R a), b := Suc (R b))) {a, b}" and sl: "slot dev (bufs (s\<lparr>bufs := B'\<rparr>)) i a" "slot dev (bufs (s\<lparr>bufs := B'\<rparr>)) j b"
    by (rule bread2_ok[OF c ab n disjI1[OF R(3)] R(1,2)])
  let ?R = "R(a := Suc (R a), b := Suc (R b))"
  let ?s2 = "upd_data i (\<lambda>_. v b) (s\<lparr>bufs := B'\<rparr>)"
  have data: "buf_data j (s\<lparr>bufs := B'\<rparr>) = v b"
    using upd_data_ok(3)[OF 1(3) sl(2)] by simp
  have c2: "cache dev ?s2 (v(a := v b)) ?R {a, b}" and sl2: "slot dev (bufs ?s2) i a" "slot dev (bufs ?s2) j b"
    using upd_data_ok(1,2)[OF 1(3) sl(1), of "\<lambda>_. v b"] sl by simp_all
  let ?s3 = "?s2\<lparr>disk := (disk ?s2)(a := v b), wtrace := (a, v b) # wtrace ?s2\<rparr>"
  have w: "bwrite i ?s2 = Ret () ?s3" and c3: "cache dev ?s3 (v(a := v b)) ?R {b, a}"
    using bwrite_ok[OF c2 sl2(1)] by (simp_all add: insert_commute)
  have sl3: "slot dev (bufs ?s3) j b" "slot dev (bufs ?s3) i a" using sl2 by simp_all
  obtain s' where r: "kthen (brelse j) (brelse i) ?s3 = Ret () s'" and c4: "cache dev s' (v(a := v b)) (?R(b := ?R b - 1, a := ?R a - 1)) {}"
    and f: "disk s' = disk ?s3" "wtrace s' = wtrace ?s3" "\<exists>B ch ch'. s' = (wakeup ch (wakeup ch' ?s3))\<lparr>bufs := B\<rparr>"
    by (rule brelse2_ok[OF c3 ab[symmetric] sl3]) (use R(3) ab in auto)
  have "?R(b := ?R b - 1, a := ?R a - 1) = R" using ab by auto
  with c4 have c5: "cache dev s' (v(a := v b)) R {}" by simp
  have lf: "log_frame s s'" using f(3) by auto
  have "write_one t s = Ret () s'"
    using 1(1,2) data w r a b d by (simp add: write_one_def kernel_defs)
  then show ?thesis
    using c5 f(1,2) lf by (intro wpI) (simp_all add: wrote_def)
qed

lemma install_one_ok:
  assumes c: "cache dev s v R {}" and a: "a = log_start s + of_nat t + 1" and b: "b = lh_block (log_lh s) ! t" and d: "dev = log_dev s"
    and ab: "a \<noteq> b" and n: "card {b. R b \<noteq> 0} < NBUF" "R b \<noteq> 0 \<or> card {b. R b \<noteq> 0} + 1 < NBUF" and R: "R a + 1 < 2 ^ 32" "R b + 1 < 2 ^ 32"
    and rec: "\<not> rec \<longrightarrow> R b \<noteq> 0" and Ra: "R a = 0"
  shows "wp (install_one rec t) (\<lambda>_ s'. wrote dev s v [(b, v a)] s' (if rec then R else R(b := R b - 1))) s"
proof -
  obtain i B j B' where 1: "bread dev a s = Ret i (s\<lparr>bufs := B\<rparr>)" "bread dev b (s\<lparr>bufs := B\<rparr>) = Ret j (s\<lparr>bufs := B'\<rparr>)"
    "cache dev (s\<lparr>bufs := B'\<rparr>) v (R(a := Suc (R a), b := Suc (R b))) {a, b}" and sl: "slot dev (bufs (s\<lparr>bufs := B'\<rparr>)) i a" "slot dev (bufs (s\<lparr>bufs := B'\<rparr>)) j b"
    by (rule bread2_ok[OF c ab n R(1,2)])
  let ?R = "R(a := Suc (R a), b := Suc (R b))"
  let ?s2 = "upd_data j (\<lambda>_. v a) (s\<lparr>bufs := B'\<rparr>)"
  have data: "buf_data i (s\<lparr>bufs := B'\<rparr>) = v a"
    using upd_data_ok(3)[OF 1(3) sl(1)] ab by simp
  have c2: "cache dev ?s2 (v(b := v a)) ?R {a, b}" and sl2: "slot dev (bufs ?s2) i a" "slot dev (bufs ?s2) j b"
    using upd_data_ok(1,2)[OF 1(3) sl(2), of "\<lambda>_. v a"] sl by simp_all
  let ?s3 = "?s2\<lparr>disk := (disk ?s2)(b := v a), wtrace := (b, v a) # wtrace ?s2\<rparr>"
  have w: "bwrite j ?s2 = Ret () ?s3" and c3: "cache dev ?s3 (v(b := v a)) ?R {a, b}"
    using bwrite_ok[OF c2 sl2(2)] by simp_all
  have sl3: "slot dev (bufs ?s3) i a" "slot dev (bufs ?s3) j b" using sl2 by simp_all
  define s4 R4 where "s4 = (if rec then ?s3 else bunpin j ?s3)" and "R4 = (if rec then ?R else ?R(b := ?R b - 1))"
  have c4: "cache dev s4 (v(b := v a)) R4 {a, b}" and sl4: "slot dev (bufs s4) i a" "slot dev (bufs s4) j b"
    and f4: "disk s4 = disk ?s3" "wtrace s4 = wtrace ?s3" "log_frame s s4"
    using c3 sl3 bunpin_ok[OF c3 sl3(2)] rec by (auto simp: s4_def R4_def)
  have cl: "R a = 0 \<longrightarrow> v a = disk s a" using cachebD(5)[OF cacheD[OF c]] by blast
  have clean: "R4 a = 1 \<longrightarrow> (v(b := v a)) a = disk s4 a" "R4 b = 1 \<longrightarrow> (v(b := v a)) b = disk s4 b"
    using f4(1) cl Ra ab by simp_all
  obtain s' where r: "kthen (brelse i) (brelse j) s4 = Ret () s'" and c5: "cache dev s' (v(b := v a)) (R4(a := R4 a - 1, b := R4 b - 1)) {}"
    and f: "disk s' = disk s4" "wtrace s' = wtrace s4" "\<exists>B ch ch'. s' = (wakeup ch (wakeup ch' s4))\<lparr>bufs := B\<rparr>"
    by (rule brelse2_ok[OF c4 ab sl4 clean])
  have "R4(a := R4 a - 1, b := R4 b - 1) = (if rec then R else R(b := R b - 1))" using ab rec by (auto simp: R4_def)
  moreover have "install_one rec t s = Ret () s'"
    using 1(1,2) data w r a b d by (simp add: install_one_def kernel_defs s4_def split: if_splits)
  moreover have "log_frame s s'" using f(3) f4(3) by auto
  ultimately show ?thesis
    using c5 f(1,2) f4 by (intro wpI) (simp_all add: wrote_def)
qed

lemma logblk_area: "t < LOGBLOCKS \<Longrightarrow> logblk st t \<in> log_area st" "st \<in> log_area st"
proof -
  show "st \<in> log_area st" unfolding log_area_def by (rule image_eqI[of _ _ 0]) simp_all
  assume "t < LOGBLOCKS"
  then show "logblk st t \<in> log_area st"
    unfolding log_area_def logblk_def by (intro image_eqI[of _ _ "Suc t"]) (simp_all add: add.commute add.left_commute)
qed

lemma of_nat_u32_inj: "\<lbrakk>a < 2 ^ 32; b < 2 ^ 32; (of_nat a :: u32) = of_nat b\<rbrakk> \<Longrightarrow> a = b"
  by (simp add: word_of_nat_eq_iff take_bit_nat_eq_self)

lemma logblk_inj: "\<lbrakk>t < LOGBLOCKS; t' < LOGBLOCKS; logblk st t = logblk st t'\<rbrakk> \<Longrightarrow> t = t'"
  using of_nat_u32_inj[of t t'] by (simp add: logblk_def)

lemma logblk_start: "t < LOGBLOCKS \<Longrightarrow> logblk st t \<noteq> st"
proof
  assume t: "t < LOGBLOCKS" and "logblk st t = st"
  then have "of_nat (Suc t) = (of_nat 0 :: u32)" by (simp add: logblk_def add.assoc add.commute)
  then show False using of_nat_u32_inj[of "Suc t" 0] t by simp
qed

lemma split_upt: "[0..<n] = pre @ t # rest \<Longrightarrow> t < n \<and> pre = [0..<t]"
proof -
  assume e: "[0..<n] = pre @ t # rest"
  then have "t \<in> set [0..<n]" by simp
  then have t: "t < n" by simp
  have l: "length pre < n" using arg_cong[OF e, of length] by simp
  have "t = length pre" using arg_cong[OF e, of "\<lambda>l. l ! length pre"] l by simp
  moreover have "pre = take (length pre) [0..<n]" using e by simp
  ultimately show ?thesis using t l by (simp add: take_upt)
qed

lemma write_log_ok:
  assumes c: "cache (log_dev s) s v R {}" and n: "n = nat (lh_n (log_lh s))" "n \<le> LOGBLOCKS"
    and bl: "\<forall>t<n. lh_block (log_lh s) ! t \<notin> log_area (log_start s) \<and> R (lh_block (log_lh s) ! t) \<noteq> 0"
    and k: "card {b. R b \<noteq> 0} < NBUF" and R: "\<forall>x. R x + 1 < 2 ^ 32"
  shows "wp write_log (\<lambda>_ s'. wrote (log_dev s) s v (map (\<lambda>t. (logblk (log_start s) t, v (lh_block (log_lh s) ! t))) [0..<n]) s' R) s"
proof -
  let ?W = "\<lambda>t. (logblk (log_start s) t, v (lh_block (log_lh s) ! t))"
  have "wp (kforeach write_one [0..<n]) (\<lambda>_ s'. wrote (log_dev s) s v (map ?W [0..<n]) s' R) s"
  proof (rule wp_kforeach[where I = "\<lambda>pre s'. wrote (log_dev s) s v (map ?W pre) s' R"])
    show "wrote (log_dev s) s v (map ?W []) s R" using c by (simp add: wrote_def)
    fix pre t rest s'
    assume e: "[0..<n] = pre @ t # rest" and w: "wrote (log_dev s) s v (map ?W pre) s' R"
    have t: "t < n" "pre = [0..<t]" using split_upt[OF e] by simp_all
    note c' = wroteD(1)[OF w] and fr = wroteD(2)[OF w]
    let ?b = "lh_block (log_lh s) ! t" and ?a = "logblk (log_start s) t"
    have b: "?b \<notin> log_area (log_start s)" "R ?b \<noteq> 0" using bl t(1) by blast+
    have ab: "?a \<noteq> ?b" using b(1) logblk_area(1)[of t "log_start s"] t n(2) by auto
    have "?b \<notin> fst ` set (map ?W pre)"
      using b(1) logblk_area(1)[of _ "log_start s"] t n(2) by (fastforce simp: image_iff)
    then have v: "apply_writes v (map ?W pre) ?b = v ?b" by (rule apply_writes_other)
    have "wp (write_one t) (\<lambda>_ s''. wrote (log_dev s) s' (apply_writes v (map ?W pre)) [(?a, v ?b)] s'' R) s'"
      using write_one_ok[OF c', of ?a t ?b] fr ab k R b(2) v by (simp add: log_frame_def logblk_def)
    then show "wp (write_one t) (\<lambda>_ s''. wrote (log_dev s) s v (map ?W (pre @ [t])) s'' R) s'"
      by (rule wp_mono) (use wrote_trans[OF w] in simp)
  qed
  then show ?thesis by (simp add: write_log_def wp_def n(1))
qed

lemma card_ref_mono:
  assumes "finite {b. R b \<noteq> (0::nat)}" "\<And>x. R' x \<le> R x"
  shows "card {b. R' b \<noteq> 0} \<le> card {b. R b \<noteq> 0}"
proof (rule card_mono[OF assms(1)])
  show "{b. R' b \<noteq> 0} \<subseteq> {b. R b \<noteq> 0}"
  proof
    fix b assume "b \<in> {b. R' b \<noteq> 0}"
    then show "b \<in> {b. R b \<noteq> 0}" using assms(2)[of b] by simp
  qed
qed

lemma unpinned_simps: "unpinned rec {} R = R" "unpinned True X R = R"
  by (auto simp: unpinned_def)

lemma install_trans_ok:
  assumes c: "cache (log_dev s) s v R {}" and n: "n = nat (lh_n (log_lh s))" "n \<le> LOGBLOCKS"
    and bl: "\<forall>t<n. bl ! t \<notin> log_area (log_start s) \<and> (R (bl ! t) \<noteq> 0 \<or> rec \<and> card {b. R b \<noteq> 0} + 1 < NBUF)"
    and bls: "bl = lh_block (log_lh s)" "n \<le> length bl" and dist: "distinct (take n bl)"
    and k: "card {b. R b \<noteq> 0} < NBUF" and R: "\<forall>x. R x + 1 < 2 ^ 32" "\<forall>t<LOGBLOCKS. R (logblk (log_start s) t) = 0"
  shows "wp (install_trans rec) (\<lambda>_ s'. wrote (log_dev s) s v (map (\<lambda>t. (bl ! t, v (logblk (log_start s) t))) [0..<n]) s'
    (unpinned rec (set (take n bl)) R)) s"
proof -
  let ?W = "\<lambda>t. (bl ! t, v (logblk (log_start s) t))"
  let ?R = "\<lambda>pre. unpinned rec ((\<lambda>t. bl ! t) ` set pre) R"
  have "wp (kforeach (install_one rec) [0..<n]) (\<lambda>_ s'. wrote (log_dev s) s v (map ?W [0..<n]) s' (?R [0..<n])) s"
  proof (rule wp_kforeach[where I = "\<lambda>pre s'. wrote (log_dev s) s v (map ?W pre) s' (?R pre)"])
    show "wrote (log_dev s) s v (map ?W []) s (?R [])" using c by (simp add: wrote_def unpinned_simps)
    fix pre t rest s'
    assume e: "[0..<n] = pre @ t # rest" and w: "wrote (log_dev s) s v (map ?W pre) s' (?R pre)"
    have t: "t < n" "pre = [0..<t]" using split_upt[OF e] by simp_all
    note c' = wroteD(1)[OF w] and fr = wroteD(2)[OF w]
    let ?b = "bl ! t" and ?a = "logblk (log_start s) t"
    have b: "?b \<notin> log_area (log_start s)" using bl t(1) by blast
    have ab: "?a \<noteq> ?b" using b(1) logblk_area(1)[of t "log_start s"] t n(2) by auto
    have "?a \<notin> fst ` set (map ?W pre)"
      using bl logblk_area(1)[of t "log_start s"] t n(2) by (auto simp: image_iff)
    then have v: "apply_writes v (map ?W pre) ?a = v ?a" by (rule apply_writes_other)
    have "?b \<notin> (\<lambda>t. bl ! t) ` set pre"
      using dist t bls(2) nth_eq_iff_index_eq[OF dist, of t] by (auto simp: image_iff)
    then have Rb: "?R pre ?b = R ?b" and Ra: "?R pre ?a = 0"
      using R(2) t n(2) by (auto simp: unpinned_def)
    have le: "?R pre x \<le> R x" for x by (simp add: unpinned_def)
    have k': "card {b. ?R pre b \<noteq> 0} \<le> card {b. R b \<noteq> 0}"
      by (rule card_ref_mono[OF referenced_finite(1)[OF cacheD[OF c]] le])
    have cond: "R ?b \<noteq> 0 \<or> card {b. ?R pre b \<noteq> 0} + 1 < NBUF" "\<not> rec \<longrightarrow> R ?b \<noteq> 0"
      using bl t(1) k' by (meson add_le_mono1 le_less_trans)+
    have R': "(if rec then ?R pre else (?R pre)(?b := ?R pre ?b - 1)) = ?R (pre @ [t])"
      using Rb by (auto simp: unpinned_def fun_eq_iff)
    have "wp (install_one rec t) (\<lambda>_ s''. wrote (log_dev s) s' (apply_writes v (map ?W pre)) [(?b, v ?a)] s''
        (if rec then ?R pre else (?R pre)(?b := ?R pre ?b - 1))) s'"
      unfolding v[symmetric]
    proof (rule install_one_ok[OF c'])
      show "?a = log_start s' + of_nat t + 1" "?b = lh_block (log_lh s') ! t" "log_dev s = log_dev s'"
        using fr bls(1) by (simp_all add: log_frame_def logblk_def)
      show "?a \<noteq> ?b" "?R pre ?a = 0" "\<not> rec \<longrightarrow> ?R pre ?b \<noteq> 0" "card {b. ?R pre b \<noteq> 0} < NBUF"
        "?R pre ?b \<noteq> 0 \<or> card {b. ?R pre b \<noteq> 0} + 1 < NBUF" "?R pre ?a + 1 < 2 ^ 32" "?R pre ?b + 1 < 2 ^ 32"
        using ab Ra cond k k' R(1) unfolding Rb Ra by (simp, simp, simp, linarith, simp, simp, blast)
    qed
    then show "wp (install_one rec t) (\<lambda>_ s''. wrote (log_dev s) s v (map ?W (pre @ [t])) s'' (?R (pre @ [t]))) s'"
      unfolding R' by (rule wp_mono) (use wrote_trans[OF w] in simp)
  qed
  moreover have e: "(\<lambda>t. bl ! t) ` set [0..<n] = set (take n bl)"
    using nth_image[OF bls(2)] by (simp add: lessThan_atLeast0)
  ultimately show ?thesis unfolding e by (simp add: install_trans_def wp_def n(1))
qed

lemma write_head_ok:
  assumes c: "cache (log_dev s) s v R {}" and k: "card {b. R b \<noteq> 0} < NBUF" and R: "R (log_start s) + 1 < 2 ^ 32"
  shows "wp write_head (\<lambda>_ s'. wrote (log_dev s) s v [(log_start s, encode_head (log_lh s) (v (log_start s)))] s' R) s"
proof -
  let ?dev = "log_dev s" and ?b = "log_start s"
  let ?e = "encode_head (log_lh s)"
  obtain i B where r: "bread ?dev ?b s = Ret i (s\<lparr>bufs := B\<rparr>)" and c1: "cache ?dev (s\<lparr>bufs := B\<rparr>) v (R(?b := Suc (R ?b))) {?b}"
    and sl: "slot ?dev (bufs (s\<lparr>bufs := B\<rparr>)) i ?b"
    using bread_ok[OF c _ disjI2[OF k] R] by auto
  let ?s2 = "upd_data i ?e (s\<lparr>bufs := B\<rparr>)"
  have c2: "cache ?dev ?s2 (v(?b := ?e (v ?b))) (R(?b := Suc (R ?b))) {?b}" and sl2: "slot ?dev (bufs ?s2) i ?b"
    using upd_data_ok(1,2)[OF c1 sl, of ?e] sl by simp_all
  let ?s3 = "?s2\<lparr>disk := (disk ?s2)(?b := ?e (v ?b)), wtrace := (?b, ?e (v ?b)) # wtrace ?s2\<rparr>"
  have w: "bwrite i ?s2 = Ret () ?s3" and c3: "cache ?dev ?s3 (v(?b := ?e (v ?b))) (R(?b := Suc (R ?b))) {?b}"
    using bwrite_ok[OF c2 sl2] by simp_all
  have sl3: "slot ?dev (bufs ?s3) i ?b" using sl2 by simp
  obtain B' where b: "brelse i ?s3 = Ret () ((wakeup (ChBufLock i) ?s3)\<lparr>bufs := B'\<rparr>)"
    and c4: "cache ?dev ((wakeup (ChBufLock i) ?s3)\<lparr>bufs := B'\<rparr>) (v(?b := ?e (v ?b))) ((R(?b := Suc (R ?b)))(?b := R ?b)) ({?b} - {?b})"
    using brelse_ok[OF c3 sl3] by auto
  have e: "(R(?b := Suc (R ?b)))(?b := R ?b) = R" "{?b} - {?b} = {}" by auto
  have "write_head s = Ret () ((wakeup (ChBufLock i) ?s3)\<lparr>bufs := B'\<rparr>)"
    using r w b by (simp add: write_head_def kernel_defs)
  then show ?thesis using c4 unfolding e by (intro wpI) (assumption | simp add: wrote_def)+
qed

lemma log_readyD:
  assumes "log_ready s v R" and n: "n = nat (lh_n (log_lh s))"
  shows "cache (log_dev s) s v R {}" "0 \<le> lh_n (log_lh s)" "n \<le> LOGBLOCKS" "length (lh_block (log_lh s)) = LOGBLOCKS"
    "distinct (take n (lh_block (log_lh s)))" "\<And>t. t < n \<Longrightarrow> lh_block (log_lh s) ! t \<notin> log_area (log_start s)"
    "\<And>t. t < n \<Longrightarrow> R (lh_block (log_lh s) ! t) \<noteq> 0"
    "\<And>b. b \<in> log_area (log_start s) \<Longrightarrow> R b = 0" "\<And>b. R b + 1 < 2 ^ 32" "length (v (log_start s)) = BSIZE" "hdr_n (v (log_start s)) = 0"
proof -
  have "lh_block (log_lh s) ! t \<in> set (take n (lh_block (log_lh s)))" if "t < n" for t
    using that assms by (auto simp: in_set_conv_nth log_ready_def intro!: exI[of _ t])
  then show "\<And>t. t < n \<Longrightarrow> lh_block (log_lh s) ! t \<notin> log_area (log_start s)" "\<And>t. t < n \<Longrightarrow> R (lh_block (log_lh s) ! t) \<noteq> 0"
    using assms unfolding log_ready_def by blast+
qed (use assms in \<open>auto simp: log_ready_def\<close>)

lemma write_log_view:
  assumes "n \<le> LOGBLOCKS" "t < n"
  shows "apply_writes v (map (\<lambda>t. (logblk st t, g t)) [0..<n]) (logblk st t) = g t"
  by (rule apply_writes_map[where f = "logblk st"])
    (use assms logblk_inj in \<open>auto simp: distinct_map inj_on_def\<close>)

lemma cache_lh [simp]: "cache dev (s\<lparr>log_lh := lh\<rparr>) v R L = cache dev s v R L"
  by (simp add: cache_def mypid_def split: option.split)

lemma commit_ok:
  assumes rdy: "log_ready s v R" and pos: "0 < lh_n (log_lh s)" and k: "card {b. R b \<noteq> 0} < NBUF"
  shows "wp commit (\<lambda>_ s'. cache (log_dev s) s' (apply_writes v (commit_writes (log_start s) (log_lh s) v))
       (unpinned False (set (take (nat (lh_n (log_lh s))) (lh_block (log_lh s)))) R) {} \<and>
     disk s' = apply_writes (disk s) (commit_writes (log_start s) (log_lh s) v) \<and>
     wtrace s' = rev (commit_writes (log_start s) (log_lh s) v) @ wtrace s \<and>
     log_dev s' = log_dev s \<and> log_start s' = log_start s \<and> log_lh s' = (log_lh s)\<lparr>lh_n := 0\<rparr>) s"
proof -
  let ?st = "log_start s" and ?lh = "log_lh s" and ?dev = "log_dev s"
  define n where "n = nat (lh_n ?lh)"
  note d = log_readyD[OF rdy n_def]
  let ?bl = "lh_block ?lh"
  let ?W1 = "log_writes ?st ?lh v"
  let ?v1 = "apply_writes v ?W1"
  let ?h = "encode_head ?lh (v ?st)"
  let ?v2 = "?v1(?st := ?h)"
  let ?R = "unpinned False (set (take n ?bl)) R"
  have v1st: "?v1 ?st = v ?st"
  proof (rule apply_writes_other)
    have "?st \<noteq> logblk ?st t" if "t < n" for t
      using logblk_start[of t ?st] that d(3) by simp
    then show "?st \<notin> fst ` set ?W1"
      by (auto simp: log_writes_def n_def[symmetric])
  qed
  have v2: "?v2 (logblk ?st t) = v (?bl ! t)" if "t < n" for t
    using that d(3) write_log_view[OF d(3) that, where st = ?st and g = "\<lambda>t. v (?bl ! t)"] logblk_start[of t ?st]
    by (simp add: log_writes_def n_def[symmetric])
  have w2: "map (\<lambda>t. (?bl ! t, ?v2 (logblk ?st t))) [0..<n] = home_writes ?lh v"
    unfolding home_writes_def n_def[symmetric] by (rule map_cong) (use v2 in auto)
  have le: "card {b. ?R b \<noteq> 0} < NBUF"
    by (rule le_less_trans[OF card_ref_mono[OF referenced_finite(1)[OF cacheD[OF d(1)]]] k]) (simp add: unpinned_def)
  have Rst: "?R ?st = 0" using d(8)[OF logblk_area(2)] by (simp add: unpinned_def)
  have v3: "apply_writes ?v2 (home_writes ?lh v) ?st = ?h"
    using d(6) logblk_area(2)[of ?st] by (subst apply_writes_other) (auto simp: home_writes_def n_def[symmetric])
  have s1: "wp write_log (\<lambda>_ s'. wrote ?dev s v ?W1 s' R) s"
    using write_log_ok[OF d(1) n_def d(3) _ k] d(6,7,9) by (simp add: log_writes_def n_def[symmetric])
  have fr: "log_dev s' = ?dev" "log_start s' = ?st" "log_lh s' = ?lh" "cache ?dev s' (apply_writes v W) R' {}"
    if "wrote ?dev s v W s' R'" for s' W R'
    using that by (simp_all add: wrote_def log_frame_def)
  have s2: "wp write_head (\<lambda>_ s''. wrote ?dev s v (?W1 @ [(?st, ?h)]) s'' R) s'" if w: "wrote ?dev s v ?W1 s' R" for s'
    using write_head_ok[of s' ?v1 R, unfolded fr[OF w] v1st, OF fr(4)[OF w] k d(9)]
    by (rule wp_mono) (rule wrote_trans[OF w])
  have s3: "wp (install_trans False) (\<lambda>_ s''. wrote ?dev s v ((?W1 @ [(?st, ?h)]) @ home_writes ?lh v) s'' ?R) s'"
    if w: "wrote ?dev s v (?W1 @ [(?st, ?h)]) s' R" for s'
  proof -
    have c: "cache ?dev s' ?v2 R {}" using fr(4)[OF w] by simp
    have "wp (install_trans False) (\<lambda>_ s''. wrote ?dev s' ?v2 (home_writes ?lh v) s'' ?R) s'"
      using install_trans_ok[of s' ?v2 R n ?bl False, unfolded fr[OF w] w2, OF c n_def d(3) _ refl _ d(5) k] d(4,6,7,8,9) d(3) logblk_area(1)
      by simp
    then show ?thesis
      by (rule wp_mono) (rule wrote_trans[OF w], simp)
  qed
  have s4: "wp write_head (\<lambda>_ s''. wrote ?dev (set_lh_n 0 s') (apply_writes ?v2 (home_writes ?lh v))
      [(?st, encode_head (?lh\<lparr>lh_n := 0\<rparr>) ?h)] s'' ?R) (set_lh_n 0 s')"
    if w: "wrote ?dev s v ((?W1 @ [(?st, ?h)]) @ home_writes ?lh v) s' ?R" for s'
    using write_head_ok[of "set_lh_n 0 s'" "apply_writes ?v2 (home_writes ?lh v)" ?R] fr[OF w] le Rst v3
    by (simp add: set_lh_n_def)
  have e: "wp commit Q s = wp (kthen write_log (kthen write_head (kthen (install_trans False) (kthen (kmod (set_lh_n 0)) write_head)))) Q s" for Q
    using pos by (simp add: commit_def wp_def)
  show ?thesis
    unfolding e wp_kthen wp_kmod
    apply (rule wp_mono[OF s1], rule wp_mono[OF s2], assumption, rule wp_mono[OF s3], assumption)
    apply (rule wp_mono[OF s4], assumption)
    subgoal for _ s1 _ s2 _ s3 _ s4
      by (simp add: wrote_def log_frame_def commit_writes_def set_lh_n_def n_def Let_def)
    done
qed

lemma read_blocks:
  assumes "length bl = LOGBLOCKS" "n \<le> LOGBLOCKS"
  shows "let bl' = foldl (\<lambda>bl i. bl[i := f i]) bl [0..<n] in length bl' = LOGBLOCKS \<and> (\<forall>i<n. bl' ! i = f i)"
  using assms(2)
proof (induction n)
  case 0
  then show ?case using assms(1) by simp
next
  case (Suc n)
  then show ?case by (auto simp: Let_def nth_list_update less_Suc_eq)
qed

lemma read_head_ok:
  assumes c: "cache (log_dev s) s v R {}" and k: "card {b. R b \<noteq> 0} < NBUF" and R: "R (log_start s) + 1 < 2 ^ 32"
    and len: "length (lh_block (log_lh s)) = LOGBLOCKS" and n: "nat (hdr_n (v (log_start s))) \<le> LOGBLOCKS"
  shows "wp read_head (\<lambda>_ s'. cache (log_dev s) s' v R {} \<and> disk s' = disk s \<and> wtrace s' = wtrace s \<and>
    log_dev s' = log_dev s \<and> log_start s' = log_start s \<and> lh_n (log_lh s') = hdr_n (v (log_start s)) \<and>
    length (lh_block (log_lh s')) = LOGBLOCKS \<and> (\<forall>i<nat (hdr_n (v (log_start s))). lh_block (log_lh s') ! i = hdr_block (v (log_start s)) i)) s"
proof -
  let ?dev = "log_dev s" and ?b = "log_start s" and ?d = "v (log_start s)"
  obtain i B where r: "bread ?dev ?b s = Ret i (s\<lparr>bufs := B\<rparr>)" and c1: "cache ?dev (s\<lparr>bufs := B\<rparr>) v (R(?b := Suc (R ?b))) {?b}"
    and sl: "slot ?dev (bufs (s\<lparr>bufs := B\<rparr>)) i ?b"
    using bread_ok[OF c _ disjI2[OF k] R] by auto
  have d: "buf_data i (s\<lparr>bufs := B\<rparr>) = ?d" using upd_data_ok(3)[OF c1 sl] by simp
  define bl where "bl = foldl (\<lambda>bl j. bl[j := hdr_block ?d j]) (lh_block (log_lh s)) [0..<nat (hdr_n ?d)]"
  have bl: "length bl = LOGBLOCKS" "\<forall>j<nat (hdr_n ?d). bl ! j = hdr_block ?d j"
    using read_blocks[OF len n, of "hdr_block ?d"] by (simp_all add: Let_def bl_def)
  let ?s2 = "s\<lparr>bufs := B\<rparr>\<lparr>log_lh := (log_lh s)\<lparr>lh_n := hdr_n ?d, lh_block := bl\<rparr>\<rparr>"
  have c2: "cache ?dev ?s2 v (R(?b := Suc (R ?b))) {?b}" using c1 by simp
  have sl2: "slot ?dev (bufs ?s2) i ?b" using sl by simp
  have cl: "R ?b = 0 \<Longrightarrow> v ?b = disk s ?b" using cachebD(5)[OF cacheD[OF c]] by blast
  obtain B' where b: "brelse i ?s2 = Ret () ((wakeup (ChBufLock i) ?s2)\<lparr>bufs := B'\<rparr>)"
    and c3: "cache ?dev ((wakeup (ChBufLock i) ?s2)\<lparr>bufs := B'\<rparr>) v ((R(?b := Suc (R ?b)))(?b := R ?b)) ({?b} - {?b})"
    using brelse_ok[OF c2 sl2] cl by auto
  have e: "(R(?b := Suc (R ?b)))(?b := R ?b) = R" "{?b} - {?b} = {}" by auto
  have rd: "read_head s = Ret () ((wakeup (ChBufLock i) ?s2)\<lparr>bufs := B'\<rparr>)"
    using r b d by (simp add: read_head_def kernel_defs Let_def bl_def)
  show ?thesis
    by (rule wpI[where m = read_head, OF rd]) (use c3[unfolded e] bl in \<open>simp add: wakeup_def\<close>)
qed

lemma recover_ok:
  assumes c: "cache (log_dev s) s v (\<lambda>_. 0) {}" and len: "length (lh_block (log_lh s)) = LOGBLOCKS"
    and ok: "committed_ok (log_start s) v"
  shows "\<exists>s'. recover_from_log s = Ret () s' \<and> (\<exists>h. length h = BSIZE \<and> hdr_n h = 0 \<and>
      disk s' = (apply_writes v (recover_writes (log_start s) v))(log_start s := h)) \<and>
    cache (log_dev s) s' (disk s') (\<lambda>_. 0) {} \<and> lh_n (log_lh s') = 0 \<and> log_dev s' = log_dev s \<and> log_start s' = log_start s"
proof -
  let ?st = "log_start s" and ?dev = "log_dev s"
  define n where "n = nat (hdr_n (v ?st))"
  have n: "n \<le> LOGBLOCKS" and blk: "\<forall>t<n. hdr_block (v ?st) t \<notin> log_area ?st" and ds: "distinct (map (hdr_block (v ?st)) [0..<n])"
    and vlen: "length (v ?st) = BSIZE"
    using ok by (auto simp: committed_ok_def n_def)
  have vd: "v = disk s" using cachebD(5)[OF cacheD[OF c]] by auto
  have k: "card {b :: u32. (0 :: nat) \<noteq> 0} = 0" by simp
  obtain s1 where r1: "read_head s = Ret () s1" and c1: "cache ?dev s1 v (\<lambda>_. 0) {}" "disk s1 = v"
    and f1: "log_dev s1 = ?dev" "log_start s1 = ?st" "lh_n (log_lh s1) = hdr_n (v ?st)" "length (lh_block (log_lh s1)) = LOGBLOCKS"
      "\<forall>i<n. lh_block (log_lh s1) ! i = hdr_block (v ?st) i"
    using wpE[OF read_head_ok[OF c _ _ len]] n vd by (auto simp: n_def)
  let ?bl = "lh_block (log_lh s1)"
  have tk: "take n ?bl = map (hdr_block (v ?st)) [0..<n]"
    using f1(4,5) n by (intro nth_equalityI) auto
  have w: "map (\<lambda>t. (?bl ! t, v (logblk ?st t))) [0..<n] = recover_writes ?st v"
    unfolding recover_writes_def n_def[symmetric] by (rule map_cong) (use f1(5) in auto)
  have st1: "wp (install_trans True) (\<lambda>_ s'. wrote ?dev s1 v (recover_writes ?st v) s' (\<lambda>_. 0)) s1"
    using install_trans_ok[of s1 v "\<lambda>_. 0" n ?bl True, unfolded f1(1,2) w unpinned_simps(2), OF c1(1) _ n _ refl _ _]
    using blk f1(3,4,5) n ds tk by (simp add: n_def)
  then obtain s2 where r2: "install_trans True s1 = Ret () s2" and w2: "wrote ?dev s1 v (recover_writes ?st v) s2 (\<lambda>_. 0)"
    by (auto elim: wpE)
  let ?v2 = "apply_writes v (recover_writes ?st v)"
  have c2: "cache ?dev (set_lh_n 0 s2) ?v2 (\<lambda>_. 0) {}" and f2: "log_dev (set_lh_n 0 s2) = ?dev" "log_start (set_lh_n 0 s2) = ?st"
    "log_lh (set_lh_n 0 s2) = (log_lh s1)\<lparr>lh_n := 0\<rparr>" "disk (set_lh_n 0 s2) = ?v2"
    using w2 c1(2) f1 by (simp_all add: wrote_def log_frame_def set_lh_n_def)
  have v2st: "?v2 ?st = v ?st"
    using blk logblk_area(2)[of ?st] by (intro apply_writes_other) (auto simp: recover_writes_def n_def)
  let ?h = "encode_head ((log_lh s1)\<lparr>lh_n := 0\<rparr>) (v ?st)"
  have "wp write_head (\<lambda>_ s'. wrote ?dev (set_lh_n 0 s2) ?v2 [(?st, ?h)] s' (\<lambda>_. 0)) (set_lh_n 0 s2)"
    using write_head_ok[of "set_lh_n 0 s2" ?v2 "\<lambda>_. 0", unfolded f2 v2st, OF c2] by simp
  then obtain s3 where r3: "write_head (set_lh_n 0 s2) = Ret () s3" and w3: "wrote ?dev (set_lh_n 0 s2) ?v2 [(?st, ?h)] s3 (\<lambda>_. 0)"
    by (auto elim: wpE)
  have "recover_from_log s = Ret () s3"
    using r1 r2 r3 by (simp add: recover_from_log_def kernel_defs)
  moreover have "length ?h = BSIZE" "hdr_n ?h = 0"
    using encode_head_ok[OF vlen, of "(log_lh s1)\<lparr>lh_n := 0\<rparr>"] by simp_all
  ultimately show ?thesis
    using w3 f2 by (auto simp: wrote_def log_frame_def)
qed

lemma map_nth_take_eq: "n \<le> length bl \<Longrightarrow> map (\<lambda>t. bl ! t) [0..<n] = take n bl"
  by (rule nth_equalityI) auto

lemma home_apply:
  assumes "distinct (take n bl)" "n \<le> length bl"
  shows "apply_writes d (map (\<lambda>t. (bl ! t, f (bl ! t))) [0..<n]) x = (if x \<in> set (take n bl) then f x else d x)"
proof (cases "x \<in> set (take n bl)")
  case True
  then obtain t where t: "t < n" "x = bl ! t" using assms(2) by (auto simp: in_set_conv_nth)
  have "distinct (map (\<lambda>t. bl ! t) [0..<n])"
    using assms map_nth_take_eq[OF assms(2)] by simp
  then show ?thesis
    using apply_writes_map[of "\<lambda>t. bl ! t" "[0..<n]" t d "\<lambda>t. f (bl ! t)"] t True by simp
next
  case False
  then have "x \<notin> fst ` set (map (\<lambda>t. (bl ! t, f (bl ! t))) [0..<n])"
    using assms(2) by (auto simp: in_set_conv_nth)
  then have "apply_writes d (map (\<lambda>t. (bl ! t, f (bl ! t))) [0..<n]) x = d x" by (rule apply_writes_other)
  then show ?thesis using False by simp
qed

lemma prefix_cases3:
  assumes "prefix P (A @ [h] @ B @ [z])"
  shows "prefix P A \<or> (\<exists>B'. prefix B' B \<and> P = A @ [h] @ B') \<or> P = A @ [h] @ B @ [z]"
  using assms by (auto simp: prefix_append prefix_Cons prefix_snoc)

lemma crash_disk:
  assumes n: "n = nat (lh_n lh)" "0 \<le> lh_n lh" "n \<le> LOGBLOCKS" "length (lh_block lh) = LOGBLOCKS" "distinct (take n (lh_block lh))"
    and bl: "\<forall>t<n. lh_block lh ! t \<notin> log_area st"
    and h: "v st = d0 st" "length (d0 st) = BSIZE" "hdr_n (d0 st) = 0"
    and P: "prefix P (commit_writes st lh v)" and d: "d = apply_writes d0 P"
  shows "committed_ok st d \<and> (\<forall>x. x \<notin> log_area st \<longrightarrow> apply_writes d (recover_writes st d) x =
    (if length P \<le> n then d0 x else if x \<in> set (take n (lh_block lh)) then v x else d0 x))"
proof -
  let ?h = "encode_head lh (v st)" and ?bl = "lh_block lh"
  let ?hz = "encode_head (lh\<lparr>lh_n := 0\<rparr>) ?h"
  note eh = encode_head_ok[of "v st" lh] and eh0 = encode_head_ok[of ?h "lh\<lparr>lh_n := 0\<rparr>"]
  have le: "lh_n lh \<le> int LOGBLOCKS" using n by linarith
  have hh: "length ?h = BSIZE" "hdr_n ?h = lh_n lh" "\<And>i. i < n \<Longrightarrow> hdr_block ?h i = ?bl ! i"
    using eh h n le by simp_all
  then have hz: "length ?hz = BSIZE" "hdr_n ?hz = 0"
    using eh0 by simp_all
  have lw: "fst ` set (log_writes st lh v) \<subseteq> log_area st - {st}"
  proof
    fix x assume "x \<in> fst ` set (log_writes st lh v)"
    then obtain t where "t < n" "x = logblk st t" by (auto simp: log_writes_def n(1))
    then show "x \<in> log_area st - {st}" using logblk_area(1)[of t st] logblk_start[of t st] n(3) by simp
  qed
  have home: "apply_writes e (home_writes lh v) x = (if x \<in> set (take n ?bl) then v x else e x)" for e x
    unfolding home_writes_def n(1)[symmetric] by (rule home_apply) (use n in simp_all)
  have hs: "fst ` set (home_writes lh v) = set (take n ?bl)"
    using nth_image[of n ?bl] n by (simp add: home_writes_def image_image lessThan_atLeast0)
  have hw: "fst ` set (home_writes lh v) \<inter> log_area st = {}"
    using bl by (auto simp: home_writes_def n(1)[symmetric])
  have la: "logblk st t \<in> log_area st" if "t < n" for t
    using logblk_area(1)[of t st] that n(3) by simp
  have blst: "st \<notin> fst ` set (home_writes lh v)" "\<And>t. t < n \<Longrightarrow> logblk st t \<notin> fst ` set (home_writes lh v)"
    using hw la logblk_area(2)[of st] by blast+
  have nohdr: "committed_ok st e" "recover_writes st e = []" if "hdr_n (e st) = 0" "length (e st) = BSIZE" for e
    using that by (simp_all add: committed_ok_def recover_writes_def)
  let ?d1 = "(apply_writes d0 (log_writes st lh v))(st := ?h)"
  have d1x: "?d1 x = d0 x" if "x \<notin> log_area st" for x
    using that lw logblk_area(2)[of st] apply_writes_other[of x "log_writes st lh v" d0] by auto
  have d1l: "?d1 (logblk st t) = v (?bl ! t)" if "t < n" for t
    using write_log_view[OF n(3) that, where st = st and g = "\<lambda>t. v (?bl ! t)"] logblk_start[of t st] that n(3)
    by (simp add: log_writes_def n(1)[symmetric])
  from prefix_cases3[OF P[unfolded commit_writes_def Let_def]] show ?thesis
  proof (elim disjE exE conjE)
    assume p: "prefix P (log_writes st lh v)"
    then have sub: "fst ` set P \<subseteq> log_area st - {st}" and len: "length P \<le> n"
      using image_mono[OF set_mono_prefix[OF p], of fst] lw prefix_length_le[OF p]
      by (blast, simp add: log_writes_def n(1))
    have "d st = d0 st" "\<And>x. x \<notin> log_area st \<Longrightarrow> d x = d0 x"
      unfolding d using sub by (auto intro!: apply_writes_other)
    then show ?thesis using nohdr[of d] h len by simp
  next
    fix B' assume B': "prefix B' (home_writes lh v)" and "P = log_writes st lh v @ [(st, ?h)] @ B'"
    then have d: "d = apply_writes ?d1 B'" and len: "\<not> length P \<le> n" using d by (simp_all add: log_writes_def n(1))
    have s: "fst ` set B' \<subseteq> fst ` set (home_writes lh v)" using set_mono_prefix[OF B'] by blast
    have "st \<notin> fst ` set B'" "\<And>t. t < n \<Longrightarrow> logblk st t \<notin> fst ` set B'" using blst s by blast+
    then have dst: "d st = ?h" and dl: "\<And>t. t < n \<Longrightarrow> d (logblk st t) = v (?bl ! t)"
      unfolding d using d1l by (simp_all add: apply_writes_other)
    have rw: "recover_writes st d = home_writes lh v"
      unfolding recover_writes_def home_writes_def dst hh(2) n(1)[symmetric] by (rule map_cong) (use hh(3) dl in auto)
    have "map (hdr_block ?h) [0..<n] = take n ?bl"
      using map_nth_take_eq[of n ?bl] n hh(3) by (metis (no_types, lifting) atLeastLessThan_iff map_eq_conv set_upt)
    then have ok: "committed_ok st d"
      using hh(1,2,3) n(1,5) le bl unfolding committed_ok_def dst hh(2) n(1)[symmetric] by simp
    have dx: "d x = d0 x" if "x \<notin> set (take n ?bl)" "x \<notin> log_area st" for x
      using that s hs apply_writes_other[of x B' ?d1] d1x[of x] unfolding d by auto
    show ?thesis
      using ok len dx unfolding rw home by simp
  next
    assume "P = log_writes st lh v @ [(st, ?h)] @ home_writes lh v @ [(st, ?hz)]"
    then have d: "d = (apply_writes ?d1 (home_writes lh v))(st := ?hz)" and len: "\<not> length P \<le> n" using d by (simp_all add: log_writes_def n(1))
    have "d st = ?hz" by (simp add: d)
    then have z: "committed_ok st d" "recover_writes st d = []" using nohdr[of d] hz by simp_all
    have "d x = (if x \<in> set (take n ?bl) then v x else d0 x)" if "x \<notin> log_area st" for x
    proof -
      have "x \<noteq> st" using that logblk_area(2)[of st] by auto
      then show ?thesis using d1x[OF that] by (simp add: d home)
    qed
    then show ?thesis using z len by simp
  qed
qed

lemma take_Suc_update: "n < length xs \<Longrightarrow> take (Suc n) (xs[n := x]) = take n xs @ [x]"
  by (simp add: take_Suc_conv_app_nth)

lemma log_write_new:
  assumes sl: "b_blockno (bufs s ! b) = bno" and n: "0 \<le> lh_n (log_lh s)" "lh_n (log_lh s) < int LOGBLOCKS" "0 < log_outstanding s"
    and new: "bno \<notin> set (take (nat (lh_n (log_lh s))) (lh_block (log_lh s)))"
  shows "log_write b s = Ret () ((bpin b s)\<lparr>log_lh := \<lparr>lh_n = lh_n (log_lh s) + 1,
    lh_block = (lh_block (log_lh s))[nat (lh_n (log_lh s)) := bno]\<rparr>\<rparr>)"
proof -
  have "first_index (\<lambda>x. x = bno) (take (nat (lh_n (log_lh s))) (lh_block (log_lh s))) = None"
    using new by auto
  then show ?thesis
    using sl n by (simp add: log_write_def Let_def set_lh_n_def bpin_def upd_buf_def del: first_index_None)
qed

lemma log_write_absorb:
  assumes sl: "b_blockno (bufs s ! b) = bno" and n: "0 \<le> lh_n (log_lh s)" "lh_n (log_lh s) < int LOGBLOCKS" "0 < log_outstanding s"
    and old: "bno \<in> set (take (nat (lh_n (log_lh s))) (lh_block (log_lh s)))"
  shows "log_write b s = Ret () s"
proof -
  let ?l = "take (nat (lh_n (log_lh s))) (lh_block (log_lh s))"
  obtain i where i: "first_index (\<lambda>x. x = bno) ?l = Some i"
    using old by (metis (mono_tags) first_index_None not_Some_eq)
  note f = first_index_SomeD[OF i]
  have "(lh_block (log_lh s))[i := bno] = lh_block (log_lh s)" "i \<noteq> nat (lh_n (log_lh s))"
    using f by (auto simp: list_update_same_conv)
  then show ?thesis
    using sl n by (simp add: log_write_def Let_def i)
qed

lemma log_put_ok:
  assumes rdy: "log_ready s v R" and n: "lh_n (log_lh s) < int LOGBLOCKS" "0 < log_outstanding s"
    and b: "bno \<notin> log_area (log_start s)" and k: "card {b. R b \<noteq> 0} < NBUF" and R: "R bno + 3 < 2 ^ 32"
    and clean: "R bno \<noteq> 0 \<longrightarrow> bno \<in> set (take (nat (lh_n (log_lh s))) (lh_block (log_lh s)))"
  shows "\<exists>s'. log_put bno f s = Ret () s' \<and> disk s' = disk s \<and> log_outstanding s' = log_outstanding s \<and>
    log_start s' = log_start s \<and> log_dev s' = log_dev s \<and>
    (if bno \<in> set (take (nat (lh_n (log_lh s))) (lh_block (log_lh s)))
     then log_ready s' (v(bno := f (v bno))) R \<and> log_lh s' = log_lh s
     else log_ready s' (v(bno := f (v bno))) (R(bno := 1)) \<and> lh_n (log_lh s') = lh_n (log_lh s) + 1 \<and>
       take (nat (lh_n (log_lh s'))) (lh_block (log_lh s')) = take (nat (lh_n (log_lh s))) (lh_block (log_lh s)) @ [bno])"
proof -
  let ?dev = "log_dev s" and ?lh = "log_lh s" and ?v = "v(bno := f (v bno))"
  define m where "m = nat (lh_n ?lh)"
  note d = log_readyD[OF rdy m_def]
  let ?old = "bno \<in> set (take m (lh_block ?lh))"
  have R1: "R bno + 1 < 2 ^ 32" using R by simp
  obtain i B where r: "bread ?dev bno s = Ret i (s\<lparr>bufs := B\<rparr>)" and c1: "cache ?dev (s\<lparr>bufs := B\<rparr>) v (R(bno := Suc (R bno))) {bno}"
    and sl: "slot ?dev (bufs (s\<lparr>bufs := B\<rparr>)) i bno"
    using bread_ok[OF d(1) _ disjI2[OF k] R1] by auto
  let ?s2 = "upd_data i f (s\<lparr>bufs := B\<rparr>)"
  have c2: "cache ?dev ?s2 ?v (R(bno := Suc (R bno))) {bno}" and sl2: "slot ?dev (bufs ?s2) i bno"
    using upd_data_ok(1,2)[OF c1 sl, of f] sl by simp_all
  have lh2: "log_lh ?s2 = ?lh" "log_outstanding ?s2 = log_outstanding s" "log_dev ?s2 = ?dev" "log_start ?s2 = log_start s" "disk ?s2 = disk s"
    by (simp_all add: upd_data_def upd_buf_def)
  define R3 where "R3 = (if ?old then R(bno := Suc (R bno)) else R(bno := Suc (Suc (R bno))))"
  define s3 where "s3 = (if ?old then ?s2 else (bpin i ?s2)\<lparr>log_lh := \<lparr>lh_n = lh_n ?lh + 1, lh_block = (lh_block ?lh)[m := bno]\<rparr>\<rparr>)"
  have R0: "\<not> ?old \<Longrightarrow> R bno = 0" using clean by (auto simp: m_def)
  have lw: "log_write i ?s2 = Ret () s3"
    using log_write_absorb[of ?s2 i bno] log_write_new[of ?s2 i bno] slotD(3)[OF sl2] n d(2) unfolding lh2 m_def[symmetric] s3_def by auto
  have c3: "cache ?dev s3 ?v R3 {bno}"
    using c2 bpin_ok(1)[OF c2 sl2] R by (simp add: s3_def R3_def)
  have sl3: "slot ?dev (bufs s3) i bno"
    using sl2 bpin_ok(2)[OF c2 sl2] R by (simp add: s3_def)
  have R3: "R3 bno \<noteq> 1" using R0 d(7) by (auto simp: R3_def in_set_conv_nth)
  obtain B' where b: "brelse i s3 = Ret () ((wakeup (ChBufLock i) s3)\<lparr>bufs := B'\<rparr>)"
    and c4: "cache ?dev ((wakeup (ChBufLock i) s3)\<lparr>bufs := B'\<rparr>) ?v (R3(bno := R3 bno - 1)) {}"
    using brelse_ok[OF c3 sl3] R3 by auto
  let ?s4 = "(wakeup (ChBufLock i) s3)\<lparr>bufs := B'\<rparr>"
  have R4: "R3(bno := R3 bno - 1) = (if ?old then R else R(bno := 1))" using R0 by (auto simp: R3_def)
  have f4: "log_dev ?s4 = ?dev" "log_start ?s4 = log_start s" "log_outstanding ?s4 = log_outstanding s" "disk ?s4 = disk s"
    "log_lh ?s4 = (if ?old then ?lh else \<lparr>lh_n = lh_n ?lh + 1, lh_block = (lh_block ?lh)[m := bno]\<rparr>)"
    using lh2 by (simp_all add: s3_def wakeup_def bpin_def upd_buf_def)
  have st: "?v (log_start s) = v (log_start s)" using b logblk_area(2)[of "log_start s"] assms(4) by auto
  have put: "log_put bno f s = Ret () ?s4"
    using r lw b by (simp add: log_put_def kernel_defs)
  have m: "m < length (lh_block ?lh)" "nat (lh_n ?lh + 1) = Suc m" using n d(2,4) by (simp_all add: m_def)
  show ?thesis
  proof (cases ?old)
    case True
    have "log_ready ?s4 ?v R"
      using rdy c4 True unfolding log_ready_def R4 f4 st by simp
    then show ?thesis using put f4 True by (auto simp: m_def)
  next
    case False
    have "log_ready ?s4 ?v (R(bno := 1))"
      using rdy c4 False n assms(4) m unfolding log_ready_def R4 f4 st
      by (auto simp: take_Suc_update m_def)
    then show ?thesis using put f4 False m by (auto simp: m_def take_Suc_update)
  qed
qed

section \<open>Properties\<close>

text \<open>
  C21: Crash atomicity of a transaction. Let a transaction of at least one block be ready to commit. \<^verbatim>\<open>commit\<close> returns,
  having written the blocks \<open>W\<close> to the disk in this order. Suppose the machine stops after any prefix \<open>P\<close> of these
  writes and boots with an empty cache on the disk as it is then. Recovery returns, and every block outside the log holds
  either what it held before the transaction (if the header had not been written) or what the transaction wrote
  to it (if it had): all blocks the old contents, or all blocks the new contents. The log is empty again.
\<close>

theorem commit_crash_atomic:
  assumes "log_ready s v R" "0 < lh_n (log_lh s)" "card {b. R b \<noteq> 0} < NBUF"
  shows "\<exists>s1 W. commit s = Ret () s1 \<and> wtrace s1 = rev W @ wtrace s \<and> disk s1 = apply_writes (disk s) W \<and>
    (\<forall>P r. prefix P W \<longrightarrow> cache (log_dev s) r (apply_writes (disk s) P) (\<lambda>_. 0) {} \<longrightarrow> log_dev r = log_dev s \<longrightarrow>
       log_start r = log_start s \<longrightarrow> length (lh_block (log_lh r)) = LOGBLOCKS \<longrightarrow>
       (\<exists>r'. recover_from_log r = Ret () r' \<and> hdr_n (disk r' (log_start s)) = 0 \<and>
          (\<forall>x. x \<notin> log_area (log_start s) \<longrightarrow> disk r' x =
             (if length P \<le> nat (lh_n (log_lh s)) then disk s x
              else if x \<in> set (take (nat (lh_n (log_lh s))) (lh_block (log_lh s))) then v x else disk s x))))"
proof -
  let ?st = "log_start s"
  let ?W = "commit_writes ?st (log_lh s) v"
  note d = log_readyD[OF assms(1) refl]
  obtain s1 where c: "commit s = Ret () s1" "wtrace s1 = rev ?W @ wtrace s" "disk s1 = apply_writes (disk s) ?W"
    using commit_ok[OF assms] by (auto elim: wpE)
  have vst: "v ?st = disk s ?st"
    using cachebD(5)[OF cacheD[OF d(1)] d(8)[OF logblk_area(2)]] .
  have main: "\<exists>r'. recover_from_log r = Ret () r' \<and> hdr_n (disk r' ?st) = 0 \<and>
      (\<forall>x. x \<notin> log_area ?st \<longrightarrow> disk r' x = (if length P \<le> nat (lh_n (log_lh s)) then disk s x
         else if x \<in> set (take (nat (lh_n (log_lh s))) (lh_block (log_lh s))) then v x else disk s x))"
    if P: "prefix P ?W" and r: "cache (log_dev s) r (apply_writes (disk s) P) (\<lambda>_. 0) {}" "log_dev r = log_dev s" "log_start r = ?st"
      "length (lh_block (log_lh r)) = LOGBLOCKS" for P r
  proof -
    have ok: "committed_ok ?st (apply_writes (disk s) P)"
      and x: "\<And>x. x \<notin> log_area ?st \<Longrightarrow> apply_writes (apply_writes (disk s) P) (recover_writes ?st (apply_writes (disk s) P)) x =
        (if length P \<le> nat (lh_n (log_lh s)) then disk s x
         else if x \<in> set (take (nat (lh_n (log_lh s))) (lh_block (log_lh s))) then v x else disk s x)"
      using crash_disk[where st = ?st and v = v and ?d0.0 = "disk s" and lh = "log_lh s" and P = P, OF refl d(2,3,4,5) _ vst _ _ P refl]
        d(6,10,11) vst by auto
    obtain r' h where "recover_from_log r = Ret () r'" "hdr_n h = 0"
      "disk r' = (apply_writes (apply_writes (disk s) P) (recover_writes ?st (apply_writes (disk s) P)))(?st := h)"
      using recover_ok[of r "apply_writes (disk s) P"] r ok by auto
    then show ?thesis
      using x logblk_area(2)[of ?st] by auto
  qed
  show ?thesis
    by (intro exI[of _ s1] exI[of _ ?W] conjI c allI impI main)
qed

lemma demo_log_ready: "log_ready demo_log (\<lambda>_. replicate BSIZE 0) (\<lambda>_. 0)"
proof -
  have "cache 1 demo_log (\<lambda>_. replicate BSIZE 0) (\<lambda>_. 0) {}"
    using boot_bio_cache by (simp add: demo_log_def bio.extend_def cache_def mypid_def split: option.split)
      (simp add: binit_def boot_bio_def Let_def)
  moreover have "hdr_n (replicate BSIZE 0) = 0"
    by (simp add: hdr_n_def rd32_def)
  ultimately show ?thesis
    by (simp add: log_ready_def) (simp add: demo_log_def bio.extend_def)
qed

theorem commit_crash_atomic_witness:
  "\<exists>(s :: log) s1 W. disk s 77 = replicate BSIZE 0 \<and> commit s = Ret () s1 \<and> wtrace s1 = rev W @ wtrace s \<and> disk s1 = apply_writes (disk s) W"
proof -
  have "(77 :: u32) = 2 + of_nat k \<longrightarrow> \<not> k \<le> LOGBLOCKS" for k
  proof
    assume "(77 :: u32) = 2 + of_nat k"
    then have "(of_nat k :: u32) = of_nat 75" by (simp add: algebra_simps)
    then show "\<not> k \<le> LOGBLOCKS" using of_nat_u32_inj[of k 75] by auto
  qed
  then have a: "77 \<notin> log_area (log_start demo_log)"
    by (auto simp: log_area_def demo_log_def bio.extend_def)
  have n: "lh_n (log_lh demo_log) < int LOGBLOCKS" "0 < log_outstanding demo_log"
    "log_lh demo_log = \<lparr>lh_n = 0, lh_block = replicate LOGBLOCKS 0\<rparr>" "disk demo_log = (\<lambda>_. replicate BSIZE 0)"
    by (simp_all add: demo_log_def bio.extend_def binit_def Let_def boot_bio_def)
  obtain s' :: log where s: "disk s' = disk demo_log" "log_ready s' ((\<lambda>_. replicate BSIZE 0)(77 := replicate BSIZE 1)) ((\<lambda>_. 0)(77 := 1))"
    "lh_n (log_lh s') = 1"
    using log_put_ok[OF demo_log_ready n(1,2) a, of "\<lambda>_. replicate BSIZE 1"] n(3) by auto
  have k: "card {b. ((\<lambda>_. 0)(77 := 1)) (b :: u32) \<noteq> (0 :: nat)} < NBUF"
    by (simp add: card_insert_if)
  obtain s1 W where "commit s' = Ret () s1" "wtrace s1 = rev W @ wtrace s'" "disk s1 = apply_writes (disk s') W"
    using commit_crash_atomic[OF s(2) _ k] s(3) by auto
  then show ?thesis
    using s(1) n(4) by (intro exI[of _ s'] exI[of _ s1] exI[of _ W]) simp
qed

lemma log_full_referenced:
  assumes "log_ready s v R" "lh_n (log_lh s) = int LOGBLOCKS"
  shows "card {b. R b \<noteq> 0} = NBUF"
proof -
  note d = log_readyD[OF assms(1) refl]
  let ?l = "take LOGBLOCKS (lh_block (log_lh s))"
  have l: "distinct ?l" "length ?l = LOGBLOCKS" using d(4,5) assms(2) by simp_all
  have "set ?l \<subseteq> {b. R b \<noteq> 0}"
    using d(7) assms(2) by (auto simp: in_set_conv_nth)
  then have "LOGBLOCKS \<le> card {b. R b \<noteq> 0}"
    using card_mono[OF referenced_finite(1)[OF cacheD[OF d(1)]]] distinct_card[OF l(1)] l(2) by metis
  then show ?thesis
    using referenced_finite(2)[OF cacheD[OF d(1)]] by simp
qed

lemma log_full_panic:
  assumes "log_ready s v R" "lh_n (log_lh s) = int LOGBLOCKS"
  shows "commit s = Panic ''bget: no buffers''"
proof -
  note d = log_readyD[OF assms(1) refl]
  let ?b = "logblk (log_start s) 0"
  have n: "card {b. R b \<noteq> 0} = NBUF" by (rule log_full_referenced[OF assms])
  have R: "R ?b = 0" using d(8) logblk_area(1)[of 0] by simp
  have "bread (log_dev s) ?b s = Panic ''bget: no buffers''"
    by (rule bread_full[OF d(1)]) (use n R full_not_cached[OF d(1) n, of _ ?b] in auto)
  then have "write_one 0 s = Panic ''bget: no buffers''"
    by (simp add: write_one_def logblk_def)
  moreover have "[0..<LOGBLOCKS] = 0 # [1..<LOGBLOCKS]"
    by (subst upt_conv_Cons) simp_all
  ultimately show ?thesis
    using assms(2) by (simp add: commit_def write_log_def kthen_def del: upt.simps)
qed

text \<open>A transaction of \<open>k\<close> blocks, from the empty log.\<close>

lemma txn_exists:
  assumes "k \<le> LOGBLOCKS"
  shows "\<exists>(s :: log) v. log_ready s v (\<lambda>x. if x \<in> (\<lambda>i. 100 + of_nat i) ` {..<k} then 1 else 0) \<and> lh_n (log_lh s) = int k \<and>
    set (take k (lh_block (log_lh s))) = (\<lambda>i. 100 + of_nat i) ` {..<k} \<and> 0 < log_outstanding s \<and> log_start s = 2"
  using assms
proof (induction k)
  case 0
  have "log_lh demo_log = \<lparr>lh_n = 0, lh_block = replicate LOGBLOCKS 0\<rparr>" "0 < log_outstanding demo_log" "log_start demo_log = 2"
    by (simp_all add: demo_log_def bio.extend_def)
  then show ?case using demo_log_ready by (intro exI[of _ demo_log] exI) auto
next
  case (Suc k)
  let ?X = "(\<lambda>i. 100 + of_nat i) ` {..<k} :: u32 set" and ?b = "100 + of_nat k :: u32"
  obtain s :: log and v where s: "log_ready s v (\<lambda>x. if x \<in> ?X then 1 else 0)" "lh_n (log_lh s) = int k"
    "set (take k (lh_block (log_lh s))) = ?X" "0 < log_outstanding s" "log_start s = 2"
    using Suc by auto
  have new: "?b \<notin> ?X"
  proof
    assume "?b \<in> ?X"
    then obtain i where "i < k" "(of_nat k :: u32) = of_nat i" by auto
    then show False using of_nat_u32_inj[of k i] Suc.prems by simp
  qed
  have "?b \<notin> log_area 2"
  proof
    assume "?b \<in> log_area 2"
    then obtain j where j: "j \<le> LOGBLOCKS" "100 + of_nat k = (2 + of_nat j :: u32)" by (auto simp: log_area_def)
    then have "(of_nat (98 + k) :: u32) = of_nat j" by (simp add: algebra_simps)
    then show False using of_nat_u32_inj[of "98 + k" j] j Suc.prems by simp
  qed
  then have area: "?b \<notin> log_area (log_start s)" using s(5) by simp
  have "{b. (if b \<in> ?X then 1 else 0 :: nat) \<noteq> 0} = ?X" by auto
  then have kk: "card {b. (if b \<in> ?X then 1 else 0 :: nat) \<noteq> 0} < NBUF"
    using card_image_le[of "{..<k}" "\<lambda>i. 100 + of_nat i :: u32"] Suc.prems by (simp add: le_less_trans)
  have R': "(\<lambda>x. if x \<in> ?X then 1 else 0)(?b := 1) = (\<lambda>x. if x \<in> (\<lambda>i. 100 + of_nat i) ` {..<Suc k} then 1 else (0 :: nat))"
    by (auto simp: lessThan_Suc)
  have "\<exists>s' :: log. log_ready s' (v(?b := v ?b)) ((\<lambda>x. if x \<in> ?X then 1 else 0)(?b := 1)) \<and> lh_n (log_lh s') = int (Suc k) \<and>
     set (take (Suc k) (lh_block (log_lh s'))) = insert ?b ?X \<and> 0 < log_outstanding s' \<and> log_start s' = 2"
    using log_put_ok[OF s(1) _ s(4) area kk, of "\<lambda>x. x"] s new Suc.prems by (auto simp: add.commute nat_add_distrib)
  then show ?case unfolding R' by (auto simp: lessThan_Suc)
qed

text \<open>
  C22: Writing through the log. Reading a block, changing it, logging it with \<^verbatim>\<open>log_write\<close> and releasing it leaves the
  disk untouched, shows the change to every later reader, keeps the log ready to commit, and appends the block to the
  transaction unless it is in it already (absorption): a block that is logged twice occupies one log slot.
\<close>

theorem log_write_absorption:
  assumes "log_ready s v R" "lh_n (log_lh s) < int LOGBLOCKS" "0 < log_outstanding s"
    and "bno \<notin> log_area (log_start s)" "card {b. R b \<noteq> 0} < NBUF" "R bno + 3 < 2 ^ 32"
    and "R bno \<noteq> 0 \<longrightarrow> bno \<in> set (take (nat (lh_n (log_lh s))) (lh_block (log_lh s)))"
  shows "\<exists>s'. log_put bno f s = Ret () s' \<and> disk s' = disk s \<and>
    (if bno \<in> set (take (nat (lh_n (log_lh s))) (lh_block (log_lh s)))
     then log_ready s' (v(bno := f (v bno))) R \<and> log_lh s' = log_lh s
     else log_ready s' (v(bno := f (v bno))) (R(bno := 1)) \<and> lh_n (log_lh s') = lh_n (log_lh s) + 1 \<and>
       take (nat (lh_n (log_lh s'))) (lh_block (log_lh s')) = take (nat (lh_n (log_lh s))) (lh_block (log_lh s)) @ [bno])"
  using log_put_ok[OF assms, of f] by blast

theorem log_write_absorption_witness:
  "\<exists>(s :: log) s' v R. log_ready s v R \<and> log_put 100 (\<lambda>d. d) s = Ret () s' \<and> lh_n (log_lh s) = 1 \<and> log_lh s' = log_lh s"
proof -
  let ?R = "\<lambda>x :: u32. if x \<in> (\<lambda>i. 100 + of_nat i) ` {..<1 :: nat} then 1 else (0 :: nat)"
  obtain s :: log and v where s: "log_ready s v ?R" "lh_n (log_lh s) = 1"
    "set (take 1 (lh_block (log_lh s))) = {100}" "0 < log_outstanding s" "log_start s = 2"
    using txn_exists[of 1] by auto
  have "{b. ?R b \<noteq> 0} = {100}" by (auto split: if_splits)
  then have k: "card {b. ?R b \<noteq> 0} < NBUF" by simp
  have a: "100 \<notin> log_area (log_start s)"
  proof
    assume "100 \<in> log_area (log_start s)"
    then obtain j where j: "j \<le> LOGBLOCKS" "100 = (2 + of_nat j :: u32)" using s(5) by (auto simp: log_area_def)
    then have "(of_nat 98 :: u32) = of_nat j" by (simp add: algebra_simps)
    then show False using of_nat_u32_inj[of 98 j] j by simp
  qed
  show ?thesis
    using log_write_absorption[OF s(1) _ s(4) a k, of "\<lambda>d. d"] s by auto
qed

text \<open>
  C23: A transaction that fills the log cannot be committed. The log and the cache both have \<^verbatim>\<open>MAXOPBLOCKS * 3\<close> = 30
  blocks. When a transaction has logged 30 blocks, every buffer is pinned, and the first \<^verbatim>\<open>bread\<close> of \<^verbatim>\<open>write_log\<close>
  panics with "bget: no buffers"; \<^verbatim>\<open>begin_op\<close> and \<^verbatim>\<open>log_write\<close> accept such a transaction.
\<close>

theorem full_transaction_panics:
  assumes "log_ready s v R" "lh_n (log_lh s) = int LOGBLOCKS"
  shows "commit s = Panic ''bget: no buffers''"
  by (rule log_full_panic[OF assms])

theorem full_transaction_panics_witness:
  "\<exists>s :: log. lh_n (log_lh s) = int LOGBLOCKS \<and> commit s = Panic ''bget: no buffers''"
  using txn_exists[of LOGBLOCKS] full_transaction_panics by auto

end
