(* ===== verification/Fs.thy ===== *)
theory Fs
  imports Log
begin

text \<open>
  The file system, \<^verbatim>\<open>kernel/fs.c\<close> and \<^verbatim>\<open>kernel/fs.h\<close>: the superblock, the block bitmap, on-disk and in-memory
  inodes, file contents, directories and path names.

  A pointer to a \<^verbatim>\<open>struct inode\<close> is an index into \<^verbatim>\<open>itable.inode\<close>; the null pointer is \<^const>\<open>None\<close>. A \<^verbatim>\<open>short\<close> is a
  16-bit word. A path is the characters of its string without the final NUL.

  \<^verbatim>\<open>readi\<close> copies to a kernel or a user destination with \<^verbatim>\<open>either_copyout\<close>, and \<^verbatim>\<open>writei\<close> from one with
  \<^verbatim>\<open>either_copyin\<close>. The copying is an argument of the model: \<open>co d bs\<close> copies the bytes \<open>bs\<close> to the destination \<open>d\<close> and
  gives the destination behind them, or \<^const>\<open>None\<close> for \<^verbatim>\<open>-1\<close>; \<open>ci d m\<close> gives the bytes it read, at most \<open>m\<close>, and
  the source behind them or \<^const>\<open>None\<close>. The callers pass a local variable, or the user copy of \<^verbatim>\<open>vm.c\<close>.
  The messages \<^verbatim>\<open>printf\<close> writes are not part of the state.
\<close>

section \<open>Data\<close>

abbreviation (input) ROOTINO :: u32 where "ROOTINO \<equiv> 1"
abbreviation (input) FSMAGIC :: u32 where "FSMAGIC \<equiv> 0x10203040"
abbreviation (input) NDIRECT :: nat where "NDIRECT \<equiv> 12"
abbreviation (input) NINDIRECT :: nat where "NINDIRECT \<equiv> 256"
abbreviation (input) MAXFILE :: nat where "MAXFILE \<equiv> 268"
abbreviation (input) IPB :: nat where "IPB \<equiv> 16"
abbreviation (input) BPB :: nat where "BPB \<equiv> 8192"
abbreviation (input) DIRSIZ :: nat where "DIRSIZ \<equiv> 14"
abbreviation (input) T_DIR :: u16 where "T_DIR \<equiv> 1"
abbreviation (input) T_FILE :: u16 where "T_FILE \<equiv> 2"
abbreviation (input) T_DEVICE :: u16 where "T_DEVICE \<equiv> 3"

record superblock =
  sb_magic :: u32
  sb_size :: u32
  sb_nblocks :: u32
  sb_ninodes :: u32
  sb_nlog :: u32
  sb_logstart :: u32
  sb_inodestart :: u32
  sb_bmapstart :: u32

record dinode =
  d_type :: u16
  d_major :: u16
  d_minor :: u16
  d_nlink :: u16
  d_size :: u32
  d_addrs :: "u32 list"

record inode =
  i_dev :: u32
  i_inum :: u32
  i_ref :: int
  i_lock :: sleeplock
  i_valid :: int
  i_type :: u16
  i_major :: u16
  i_minor :: u16
  i_nlink :: u16
  i_size :: u32
  i_addrs :: "u32 list"

record stat =
  st_dev :: int
  st_ino :: u32
  st_type :: u16
  st_nlink :: u16
  st_size :: u64

record fs = log +
  sb :: superblock
  itable :: "inode list"

definition IBLOCK :: "u32 \<Rightarrow> superblock \<Rightarrow> u32" where
  "IBLOCK i x = i div of_nat IPB + sb_inodestart x"

definition BBLOCK :: "u32 \<Rightarrow> superblock \<Rightarrow> u32" where
  "BBLOCK b x = b div of_nat BPB + sb_bmapstart x"

definition upd_inode :: "nat \<Rightarrow> (inode \<Rightarrow> inode) \<Rightarrow> 'a fs_scheme \<Rightarrow> 'a fs_scheme" where
  "upd_inode i f s = s\<lparr>itable := (itable s)[i := f (itable s ! i)]\<rparr>"

section \<open>Superblock and inodes as bytes\<close>

definition decode_sb :: "u8 list \<Rightarrow> superblock" where
  "decode_sb d = \<lparr>sb_magic = rd32 d 0, sb_size = rd32 d 4, sb_nblocks = rd32 d 8, sb_ninodes = rd32 d 12,
     sb_nlog = rd32 d 16, sb_logstart = rd32 d 20, sb_inodestart = rd32 d 24, sb_bmapstart = rd32 d 28\<rparr>"

text \<open>The inode at index \<open>k\<close> of an inode block, read and stored field by field.\<close>

definition rd_dinode :: "u8 list \<Rightarrow> nat \<Rightarrow> dinode" where
  "rd_dinode d k = (let a = 64 * k in
     \<lparr>d_type = rd16 d a, d_major = rd16 d (a + 2), d_minor = rd16 d (a + 4), d_nlink = rd16 d (a + 6),
      d_size = rd32 d (a + 8), d_addrs = map (\<lambda>i. rd32 d (a + 12 + 4 * i)) [0..<NDIRECT + 1]\<rparr>)"

definition wr_dinode :: "u8 list \<Rightarrow> nat \<Rightarrow> dinode \<Rightarrow> u8 list" where
  "wr_dinode d k di = (let a = 64 * k;
     d = wr16 d a (d_type di);
     d = wr16 d (a + 2) (d_major di);
     d = wr16 d (a + 4) (d_minor di);
     d = wr16 d (a + 6) (d_nlink di);
     d = wr32 d (a + 8) (d_size di)
   in foldl (\<lambda>d i. wr32 d (a + 12 + 4 * i) (d_addrs di ! i)) d [0..<NDIRECT + 1])"

section \<open>Blocks\<close>

text \<open>\<^verbatim>\<open>bzero\<close>, \<^verbatim>\<open>balloc\<close> and \<^verbatim>\<open>bfree\<close>; \<open>balloc_in b\<close> is one turn of \<^verbatim>\<open>balloc\<close>'s outer loop.\<close>

definition bzero :: "u32 \<Rightarrow> u32 \<Rightarrow> ('a log_scheme, unit) kmon" where
  "bzero dev bno = kbind (bread dev bno) (\<lambda>bp.
     kthen (kmod (upd_data bp (\<lambda>d. replicate (length d) 0))) (kthen (log_write bp) (brelse bp)))"

definition bit_free :: "u8 list \<Rightarrow> nat \<Rightarrow> bool" where
  "bit_free d bi \<longleftrightarrow> d ! (bi div 8) AND push_bit (bi mod 8) 1 = 0"

definition bit_mark :: "nat \<Rightarrow> u8 list \<Rightarrow> u8 list" where
  "bit_mark bi d = d[bi div 8 := d ! (bi div 8) OR push_bit (bi mod 8) 1]"

definition bit_clear :: "nat \<Rightarrow> u8 list \<Rightarrow> u8 list" where
  "bit_clear bi d = d[bi div 8 := d ! (bi div 8) AND NOT (push_bit (bi mod 8) 1)]"

definition balloc_in :: "u32 \<Rightarrow> nat \<Rightarrow> ('a fs_scheme, u32 option) kmon" where
  "balloc_in dev b = (\<lambda>s. kbind (bread dev (BBLOCK (of_nat b) (sb s))) (\<lambda>bp. \<lambda>s.
     case first_index (bit_free (buf_data bp s)) [0..<min BPB (unat (sb_size (sb s)) - b)] of
       Some bi \<Rightarrow>
         kthen (kmod (upd_data bp (bit_mark bi)))
        (kthen (log_write bp)
        (kthen (brelse bp)
        (kthen (bzero dev (of_nat (b + bi)))
               (kret (Some (of_nat (b + bi))))))) s
     | None \<Rightarrow> kthen (brelse bp) (kret None) s) s)"

definition balloc :: "u32 \<Rightarrow> ('a fs_scheme, u32) kmon" where
  "balloc dev = (\<lambda>s.
     kbind (kfirst (balloc_in dev) (map ((*) BPB) [0..<(unat (sb_size (sb s)) + BPB - 1) div BPB]))
       (\<lambda>r. kret (case r of Some b \<Rightarrow> b | None \<Rightarrow> 0)) s)"

definition bfree :: "u32 \<Rightarrow> u32 \<Rightarrow> ('a fs_scheme, unit) kmon" where
  "bfree dev b = (\<lambda>s. kbind (bread dev (BBLOCK b (sb s))) (\<lambda>bp. \<lambda>s.
     let bi = unat b mod BPB in
     if bit_free (buf_data bp s) bi then Panic ''freeing free block''
     else kthen (kmod (upd_data bp (bit_clear bi))) (kthen (log_write bp) (brelse bp)) s) s)"

section \<open>Inodes\<close>

definition iinit :: "'a fs_scheme \<Rightarrow> 'a fs_scheme" where
  "iinit s = foldl (\<lambda>s i. upd_inode i (\<lambda>ip. ip\<lparr>i_lock := initsleeplock\<rparr>) s) s [0..<NINODE]"

definition iget :: "u32 \<Rightarrow> u32 \<Rightarrow> ('a fs_scheme, nat) kmon" where
  "iget dev inum s =
     (case first_index (\<lambda>ip. i_ref ip > 0 \<and> i_dev ip = dev \<and> i_inum ip = inum) (itable s) of
        Some i \<Rightarrow> Ret i (upd_inode i (\<lambda>ip. ip\<lparr>i_ref := i_ref ip + 1\<rparr>) s)
      | None \<Rightarrow>
          (case first_index (\<lambda>ip. i_ref ip = 0) (itable s) of
             None \<Rightarrow> Panic ''iget: no inodes''
           | Some i \<Rightarrow> Ret i (upd_inode i (\<lambda>ip. ip\<lparr>i_dev := dev, i_inum := inum, i_ref := 1, i_valid := 0\<rparr>) s)))"

definition ialloc_try :: "u32 \<Rightarrow> u16 \<Rightarrow> nat \<Rightarrow> ('a fs_scheme, nat option) kmon" where
  "ialloc_try dev type inum = (\<lambda>s. kbind (bread dev (IBLOCK (of_nat inum) (sb s))) (\<lambda>bp. \<lambda>s.
     if d_type (rd_dinode (buf_data bp s) (inum mod IPB)) = 0
     then kthen (kmod (upd_data bp (\<lambda>d. wr_dinode d (inum mod IPB)
             \<lparr>d_type = type, d_major = 0, d_minor = 0, d_nlink = 0, d_size = 0, d_addrs = replicate (NDIRECT + 1) 0\<rparr>)))
         (kthen (log_write bp)
         (kthen (brelse bp)
         (kbind (iget dev (of_nat inum)) (\<lambda>ip. kret (Some ip))))) s
     else kthen (brelse bp) (kret None) s) s)"

definition ialloc :: "u32 \<Rightarrow> u16 \<Rightarrow> ('a fs_scheme, nat option) kmon" where
  "ialloc dev type = (\<lambda>s. kfirst (ialloc_try dev type) [1..<unat (sb_ninodes (sb s))] s)"

definition iupdate :: "nat \<Rightarrow> ('a fs_scheme, unit) kmon" where
  "iupdate i = (\<lambda>s. let ip = itable s ! i in
     kbind (bread (i_dev ip) (IBLOCK (i_inum ip) (sb s))) (\<lambda>bp.
       kthen (\<lambda>s. let ip = itable s ! i in
          Ret () (upd_data bp (\<lambda>d. wr_dinode d (unat (i_inum ip) mod IPB)
            \<lparr>d_type = i_type ip, d_major = i_major ip, d_minor = i_minor ip, d_nlink = i_nlink ip,
             d_size = i_size ip, d_addrs = i_addrs ip\<rparr>) s))
      (kthen (log_write bp) (brelse bp))) s)"

definition idup :: "nat \<Rightarrow> ('a fs_scheme, nat) kmon" where
  "idup i s = Ret i (upd_inode i (\<lambda>ip. ip\<lparr>i_ref := i_ref ip + 1\<rparr>) s)"

definition inode_lock :: "nat \<Rightarrow> 'a fs_scheme \<Rightarrow> sleeplock" where
  "inode_lock i s = i_lock (itable s ! i)"

definition set_inode_lock :: "nat \<Rightarrow> sleeplock \<Rightarrow> 'a fs_scheme \<Rightarrow> 'a fs_scheme" where
  "set_inode_lock i lk = upd_inode i (\<lambda>ip. ip\<lparr>i_lock := lk\<rparr>)"

definition ilock :: "nat \<Rightarrow> ('a fs_scheme, unit) kmon" where
  "ilock i s =
     (if i_ref (itable s ! i) < 1 then Panic ''ilock''
      else kthen (acquiresleep (ChInodeLock i) (inode_lock i) (set_inode_lock i)) (\<lambda>s.
        let ip = itable s ! i in
        if i_valid ip = 0
        then kbind (bread (i_dev ip) (IBLOCK (i_inum ip) (sb s))) (\<lambda>bp.
               kthen (\<lambda>s. let di = rd_dinode (buf_data bp s) (unat (i_inum ip) mod IPB) in
                  Ret () (upd_inode i (\<lambda>ip. ip\<lparr>i_type := d_type di, i_major := d_major di, i_minor := d_minor di,
                    i_nlink := d_nlink di, i_size := d_size di, i_addrs := d_addrs di\<rparr>) s))
              (kthen (brelse bp)
              (kthen (kmod (upd_inode i (\<lambda>ip. ip\<lparr>i_valid := 1\<rparr>)))
                     (\<lambda>s. if i_type (itable s ! i) = 0 then Panic ''ilock: no type'' else Ret () s)))) s
        else Ret () s) s)"

definition iunlock :: "nat \<Rightarrow> ('a fs_scheme, unit) kmon" where
  "iunlock i s =
     (if \<not> holdingsleep (inode_lock i) s \<or> i_ref (itable s ! i) < 1 then Panic ''iunlock''
      else Ret () (releasesleep (ChInodeLock i) (set_inode_lock i) s))"

section \<open>Inode content\<close>

definition bmap :: "nat \<Rightarrow> u32 \<Rightarrow> ('a fs_scheme, u32) kmon" where
  "bmap i bn s =
     (let ip = itable s ! i in
      if unat bn < NDIRECT then
        if i_addrs ip ! unat bn = 0
        then kbind (balloc (i_dev ip)) (\<lambda>addr.
               if addr = 0 then kret 0
               else kthen (kmod (upd_inode i (\<lambda>ip. ip\<lparr>i_addrs := (i_addrs ip)[unat bn := addr]\<rparr>))) (kret addr)) s
        else Ret (i_addrs ip ! unat bn) s
      else let k = unat bn - NDIRECT in
        if k < NINDIRECT then
          kbind (if i_addrs ip ! NDIRECT = 0
                 then kbind (balloc (i_dev ip)) (\<lambda>addr.
                        if addr = 0 then kret 0
                        else kthen (kmod (upd_inode i (\<lambda>ip. ip\<lparr>i_addrs := (i_addrs ip)[NDIRECT := addr]\<rparr>))) (kret addr))
                 else kret (i_addrs ip ! NDIRECT))
          (\<lambda>ind. if ind = 0 then kret 0
             else kbind (bread (i_dev ip) ind) (\<lambda>bp. \<lambda>s.
               let addr = rd32 (buf_data bp s) (4 * k) in
               if addr = 0
               then kbind (balloc (i_dev ip)) (\<lambda>addr.
                      kthen (kwhen (addr \<noteq> 0) (kthen (kmod (upd_data bp (\<lambda>d. wr32 d (4 * k) addr))) (log_write bp)))
                     (kthen (brelse bp) (kret addr))) s
               else kthen (brelse bp) (kret addr) s)) s
        else Panic ''bmap: out of range'')"

definition itrunc_direct :: "nat \<Rightarrow> nat \<Rightarrow> ('a fs_scheme, unit) kmon" where
  "itrunc_direct i k = (\<lambda>s. let ip = itable s ! i in
     if i_addrs ip ! k \<noteq> 0
     then kthen (bfree (i_dev ip) (i_addrs ip ! k))
            (kmod (upd_inode i (\<lambda>ip. ip\<lparr>i_addrs := (i_addrs ip)[k := 0]\<rparr>))) s
     else Ret () s)"

definition itrunc :: "nat \<Rightarrow> ('a fs_scheme, unit) kmon" where
  "itrunc i =
     kthen (kforeach (itrunc_direct i) [0..<NDIRECT])
    (kthen (\<lambda>s. let ip = itable s ! i in
       if i_addrs ip ! NDIRECT \<noteq> 0
       then kbind (bread (i_dev ip) (i_addrs ip ! NDIRECT)) (\<lambda>bp.
              kthen (kforeach (\<lambda>j. \<lambda>s. let a = rd32 (buf_data bp s) (4 * j) in
                       if a \<noteq> 0 then bfree (i_dev ip) a s else Ret () s) [0..<NINDIRECT])
             (kthen (brelse bp)
             (kthen (bfree (i_dev ip) (i_addrs ip ! NDIRECT))
                    (kmod (upd_inode i (\<lambda>ip. ip\<lparr>i_addrs := (i_addrs ip)[NDIRECT := 0]\<rparr>)))))) s
       else Ret () s)
    (kthen (kmod (upd_inode i (\<lambda>ip. ip\<lparr>i_size := 0\<rparr>)))
           (iupdate i)))"

definition iput :: "nat \<Rightarrow> ('a fs_scheme, unit) kmon" where
  "iput i = kthen (\<lambda>s. let ip = itable s ! i in
       if i_ref ip = 1 \<and> i_valid ip \<noteq> 0 \<and> i_nlink ip = 0
       then kthen (acquiresleep (ChInodeLock i) (inode_lock i) (set_inode_lock i))
           (kthen (itrunc i)
           (kthen (kmod (upd_inode i (\<lambda>ip. ip\<lparr>i_type := 0\<rparr>)))
           (kthen (iupdate i)
           (kthen (kmod (upd_inode i (\<lambda>ip. ip\<lparr>i_valid := 0\<rparr>)))
                  (kmod (releasesleep (ChInodeLock i) (set_inode_lock i))))))) s
       else Ret () s)
     (kmod (upd_inode i (\<lambda>ip. ip\<lparr>i_ref := i_ref ip - 1\<rparr>)))"

definition iunlockput :: "nat \<Rightarrow> ('a fs_scheme, unit) kmon" where
  "iunlockput i = kthen (iunlock i) (iput i)"

definition ireclaim :: "u32 \<Rightarrow> ('a fs_scheme, unit) kmon" where
  "ireclaim dev = (\<lambda>s. kforeach (\<lambda>inum. \<lambda>s.
     kbind (bread dev (IBLOCK (of_nat inum) (sb s))) (\<lambda>bp. \<lambda>s.
       let di = rd_dinode (buf_data bp s) (inum mod IPB) in
       if d_type di \<noteq> 0 \<and> d_nlink di = 0
       then kbind (iget dev (of_nat inum)) (\<lambda>ip.
              kthen (brelse bp)
             (kthen begin_op
             (kthen (ilock ip)
             (kthen (iunlock ip)
             (kthen (iput ip)
                    end_op))))) s
       else brelse bp s) s) [1..<unat (sb_ninodes (sb s))] s)"

definition readsb :: "u32 \<Rightarrow> ('a fs_scheme, unit) kmon" where
  "readsb dev = kbind (bread dev 1) (\<lambda>bp.
     kthen (\<lambda>s. Ret () (s\<lparr>sb := decode_sb (buf_data bp s)\<rparr>)) (brelse bp))"

definition fsinit :: "u32 \<Rightarrow> ('a fs_scheme, unit) kmon" where
  "fsinit dev = kthen (readsb dev) (\<lambda>s.
     kthen (kguard (sb_magic (sb s) = FSMAGIC) ''invalid file system'')
    (kthen (initlog dev (sb_logstart (sb s)))
           (ireclaim dev)) s)"

definition stati :: "nat \<Rightarrow> 'a fs_scheme \<Rightarrow> stat" where
  "stati i s = (let ip = itable s ! i in
     \<lparr>st_dev = sint (i_dev ip), st_ino = i_inum ip, st_type = i_type ip, st_nlink = i_nlink ip, st_size = ucast (i_size ip)\<rparr>)"

text \<open>
  The loop of \<^verbatim>\<open>readi\<close> copies at least one byte in every turn but the last, so \<open>n + 1\<close> turns are enough;
  likewise for \<^verbatim>\<open>writei\<close>.
\<close>

primrec readi_loop :: "nat \<Rightarrow> ('k \<Rightarrow> u8 list \<Rightarrow> ('a fs_scheme, 'k option) kmon) \<Rightarrow> nat \<Rightarrow> u32 \<Rightarrow> u32 \<Rightarrow> u32 \<Rightarrow> 'k \<Rightarrow>
    ('a fs_scheme, int \<times> 'k) kmon" where
  "readi_loop 0 co i tot n off d = kret (sint tot, d)"
| "readi_loop (Suc f) co i tot n off d =
     (if \<not> tot < n then kret (sint tot, d)
      else kbind (bmap i (off div 1024)) (\<lambda>addr.
        if addr = 0 then kret (sint tot, d)
        else kbind (\<lambda>s. bread (i_dev (itable s ! i)) addr s) (\<lambda>bp.
          let m = min (n - tot) (1024 - off mod 1024) in
          kbind (\<lambda>s. co d (take (unat m) (drop (unat (off mod 1024)) (buf_data bp s))) s) (\<lambda>r.
            case r of
              None \<Rightarrow> kthen (brelse bp) (kret (- 1, d))
            | Some d' \<Rightarrow> kthen (brelse bp) (readi_loop f co i (tot + m) n (off + m) d')))))"

definition readi :: "('k \<Rightarrow> u8 list \<Rightarrow> ('a fs_scheme, 'k option) kmon) \<Rightarrow> nat \<Rightarrow> 'k \<Rightarrow> u32 \<Rightarrow> u32 \<Rightarrow>
    ('a fs_scheme, int \<times> 'k) kmon" where
  "readi co i d off n s =
     (let size = i_size (itable s ! i) in
      if off > size \<or> off + n < off then Ret (0, d) s
      else let n = (if off + n > size then size - off else n)
           in readi_loop (unat n + 1) co i 0 n off d s)"

text \<open>The loop of \<^verbatim>\<open>writei\<close> returns \<^verbatim>\<open>tot\<close> and the \<^verbatim>\<open>off\<close> it has reached.\<close>

primrec writei_loop :: "nat \<Rightarrow> ('k \<Rightarrow> nat \<Rightarrow> ('a fs_scheme, u8 list \<times> 'k option) kmon) \<Rightarrow> nat \<Rightarrow> u32 \<Rightarrow> u32 \<Rightarrow> u32 \<Rightarrow> 'k \<Rightarrow>
    ('a fs_scheme, u32 \<times> u32 \<times> 'k) kmon" where
  "writei_loop 0 ci i tot n off d = kret (tot, off, d)"
| "writei_loop (Suc f) ci i tot n off d =
     (if \<not> tot < n then kret (tot, off, d)
      else kbind (bmap i (off div 1024)) (\<lambda>addr.
        if addr = 0 then kret (tot, off, d)
        else kbind (\<lambda>s. bread (i_dev (itable s ! i)) addr s) (\<lambda>bp.
          let m = min (n - tot) (1024 - off mod 1024); o' = unat (off mod 1024) in
          kbind (ci d (unat m)) (\<lambda>(bs, r).
            kthen (kmod (upd_data bp (\<lambda>x. take o' x @ bs @ drop (o' + length bs) x)))
           (case r of
              None \<Rightarrow> kthen (brelse bp) (kret (tot, off, d))
            | Some d' \<Rightarrow> kthen (log_write bp) (kthen (brelse bp) (writei_loop f ci i (tot + m) n (off + m) d')))))))"

definition writei :: "('k \<Rightarrow> nat \<Rightarrow> ('a fs_scheme, u8 list \<times> 'k option) kmon) \<Rightarrow> nat \<Rightarrow> 'k \<Rightarrow> u32 \<Rightarrow> u32 \<Rightarrow>
    ('a fs_scheme, int) kmon" where
  "writei ci i d off n s =
     (let size = i_size (itable s ! i) in
      if off > size \<or> off + n < off then Ret (- 1) s
      else if off + n > of_nat (MAXFILE * BSIZE) then Ret (- 1) s
      else kbind (writei_loop (unat n + 1) ci i 0 n off d) (\<lambda>(tot, off', d').
             kthen (\<lambda>s. if off' > i_size (itable s ! i) then Ret () (upd_inode i (\<lambda>ip. ip\<lparr>i_size := off'\<rparr>) s) else Ret () s)
            (kthen (iupdate i)
                   (kret (sint tot)))) s)"

section \<open>Directories\<close>

text \<open>A copy to and from a local variable: \<^verbatim>\<open>&de\<close>.\<close>

definition co_local :: "u8 list \<Rightarrow> u8 list \<Rightarrow> ('s, u8 list option) kmon" where
  "co_local d bs = kret (Some (d @ bs))"

definition ci_local :: "u8 list \<Rightarrow> nat \<Rightarrow> ('s, u8 list \<times> u8 list option) kmon" where
  "ci_local d m = kret (take m d, Some (drop m d))"

record dirent =
  de_inum :: u16
  de_name :: "u8 list"

definition decode_dirent :: "u8 list \<Rightarrow> dirent" where
  "decode_dirent d = \<lparr>de_inum = rd16 d 0, de_name = take DIRSIZ (drop 2 d)\<rparr>"

definition encode_dirent :: "dirent \<Rightarrow> u8 list" where
  "encode_dirent de = wr16 [0, 0] 0 (de_inum de) @ de_name de"

definition namecmp :: "u8 list \<Rightarrow> u8 list \<Rightarrow> int option" where
  "namecmp s t = strncmp s t DIRSIZ"

text \<open>The offsets a scan over the entries of a directory of the given size visits.\<close>

definition dir_offsets :: "u32 \<Rightarrow> u32 list" where
  "dir_offsets sz = map (\<lambda>k. of_nat (16 * k)) [0..<(unat sz + 15) div 16]"

definition read_dirent :: "nat \<Rightarrow> string \<Rightarrow> u32 \<Rightarrow> ('a fs_scheme, dirent) kmon" where
  "read_dirent dp msg off = kbind (readi co_local dp [] off 16) (\<lambda>(r, d).
     kthen (kguard (r = 16) msg) (kret (decode_dirent d)))"

definition dirlookup :: "nat \<Rightarrow> u8 list \<Rightarrow> ('a fs_scheme, (nat \<times> u32) option) kmon" where
  "dirlookup dp name s =
     (if i_type (itable s ! dp) \<noteq> T_DIR then Panic ''dirlookup not DIR''
      else kfirst (\<lambda>off. kbind (read_dirent dp ''dirlookup read'' off) (\<lambda>de. \<lambda>s.
             if de_inum de = 0 then Ret None s
             else if namecmp name (de_name de) = Some 0
             then kbind (iget (i_dev (itable s ! dp)) (ucast (de_inum de))) (\<lambda>ip. kret (Some (ip, off))) s
             else Ret None s)) (dir_offsets (i_size (itable s ! dp))) s)"

definition dirlink :: "nat \<Rightarrow> u8 list \<Rightarrow> u32 \<Rightarrow> ('a fs_scheme, int) kmon" where
  "dirlink dp name inum = kbind (dirlookup dp name) (\<lambda>r. case r of
       Some (ip, off) \<Rightarrow> kthen (iput ip) (kret (- 1))
     | None \<Rightarrow> \<lambda>s.
         kbind (kfirst (\<lambda>off. kbind (read_dirent dp ''dirlink read'' off) (\<lambda>de.
                  kret (if de_inum de = 0 then Some off else None))) (dir_offsets (i_size (itable s ! dp))))
         (\<lambda>f. \<lambda>s. let off = (case f of Some off \<Rightarrow> off
                | None \<Rightarrow> of_nat (16 * length (dir_offsets (i_size (itable s ! dp)))));
             de = \<lparr>de_inum = ucast inum, de_name = the (strncpy_bytes name DIRSIZ)\<rparr>
           in kbind (writei ci_local dp (encode_dirent de) off 16) (\<lambda>r. kret (if r \<noteq> 16 then - 1 else 0)) s) s)"

section \<open>Paths\<close>

abbreviation (input) SLASH :: u8 where "SLASH \<equiv> 47"

text \<open>The bytes \<^verbatim>\<open>skipelem\<close> stores in \<^verbatim>\<open>name\<close>, and the rest of the path; \<^const>\<open>None\<close> when there is no element.\<close>

definition skipelem :: "u8 list \<Rightarrow> (u8 list \<times> u8 list) option" where
  "skipelem path =
     (let path = dropWhile (\<lambda>c. c = SLASH) path in
      if path = [] then None
      else let s = takeWhile (\<lambda>c. c \<noteq> SLASH) path;
               name = (if length s \<ge> DIRSIZ then take DIRSIZ s else s @ [0])
           in Some (name, dropWhile (\<lambda>c. c = SLASH) (drop (length s) path)))"

text \<open>The successive values of \<^verbatim>\<open>name\<close> and \<^verbatim>\<open>path\<close> in the loop of \<^verbatim>\<open>namex\<close>.\<close>

function skipelems :: "u8 list \<Rightarrow> (u8 list \<times> u8 list) list" where
  "skipelems path = (case skipelem path of None \<Rightarrow> [] | Some (name, rest) \<Rightarrow> (name, rest) # skipelems rest)"
  by auto
termination
proof (relation "measure length")
  fix path name rest :: "u8 list" and x2 :: "u8 list \<times> u8 list"
  assume a: "skipelem path = Some x2" "(name, rest) = x2"
  let ?p = "dropWhile (\<lambda>c. c = SLASH) path"
  let ?s = "takeWhile (\<lambda>c. c \<noteq> SLASH) ?p"
  have p: "?p \<noteq> []" and r: "rest = dropWhile (\<lambda>c. c = SLASH) (drop (length ?s) ?p)"
    using a by (auto simp: skipelem_def Let_def split: if_splits)
  have "?s \<noteq> []" using p hd_dropWhile[of "\<lambda>c. c = SLASH" path] by (cases ?p) auto
  then have "length (drop (length ?s) ?p) < length ?p"
    using p by (simp add: diff_less length_greater_0_conv)
  moreover have "length rest \<le> length (drop (length ?s) ?p)" "length ?p \<le> length path"
    unfolding r by (rule length_dropWhile_le)+
  ultimately show "(rest, path) \<in> measure length" by simp
qed simp

text \<open>
  The loop of \<^verbatim>\<open>namex\<close> over these values. A null \<^verbatim>\<open>cwd\<close> makes \<^verbatim>\<open>idup\<close> fault in the kernel. The result is the inode and, for \<^verbatim>\<open>nameiparent\<close>, the final element.
\<close>

primrec namex_loop :: "bool \<Rightarrow> nat \<Rightarrow> (u8 list \<times> u8 list) list \<Rightarrow> ('a fs_scheme, (nat \<times> u8 list) option) kmon" where
  "namex_loop parent i [] =
     (if parent then kthen (iput i) (kret None) else kret (Some (i, [])))"
| "namex_loop parent i (e # es) = kthen (ilock i) (\<lambda>s.
     if i_type (itable s ! i) \<noteq> T_DIR then kthen (iunlockput i) (kret None) s
     else if parent \<and> snd e = [] then kthen (iunlock i) (kret (Some (i, fst e))) s
     else kbind (dirlookup i (fst e)) (\<lambda>r. case r of
            None \<Rightarrow> kthen (iunlockput i) (kret None)
          | Some (next, off) \<Rightarrow> kthen (iunlockput i) (namex_loop parent next es)) s)"

definition namex :: "u8 list \<Rightarrow> bool \<Rightarrow> ('a fs_scheme, (nat \<times> u8 list) option) kmon" where
  "namex path parent = (\<lambda>s.
     kbind (if path \<noteq> [] \<and> hd path = SLASH then iget ROOTDEV ROOTINO
            else (case curproc s of
                Some p \<Rightarrow> (case p_cwd (procs s ! p) of Some c \<Rightarrow> idup c | None \<Rightarrow> kpanic ''kerneltrap'')
              | None \<Rightarrow> kpanic ''kerneltrap''))
       (\<lambda>ip. namex_loop parent ip (skipelems path)) s)"

definition namei :: "u8 list \<Rightarrow> ('a fs_scheme, nat option) kmon" where
  "namei path = kbind (namex path False) (\<lambda>r. kret (map_option fst r))"

definition nameiparent :: "u8 list \<Rightarrow> ('a fs_scheme, (nat \<times> u8 list) option) kmon" where
  "nameiparent path = namex path True"

end
