(* ===== verification/File.thy ===== *)
theory File
  imports Fs
begin

text \<open>
  Open files and the life of a pipe: \<^verbatim>\<open>kernel/file.h\<close>, the table functions of \<^verbatim>\<open>kernel/file.c\<close>, and \<^verbatim>\<open>pipealloc\<close> and
  \<^verbatim>\<open>pipeclose\<close> of \<^verbatim>\<open>kernel/pipe.c\<close>.

  A pointer to a \<^verbatim>\<open>struct file\<close> is an index into \<^verbatim>\<open>ftable.file\<close>, the null pointer is \<^const>\<open>None\<close>. A pipe lives in a page of
  its own and is named by the address of that page; \<open>pipes\<close> gives the contents of the page read as a \<^verbatim>\<open>struct pipe\<close>.
\<close>

section \<open>Data\<close>

datatype ftype = FD_NONE | FD_PIPE | FD_INODE | FD_DEVICE

record kfile =
  f_type :: ftype
  f_ref :: int
  f_readable :: bool
  f_writable :: bool
  f_pipe :: u64
  f_ip :: "nat option"
  f_off :: u32
  f_major :: u16

abbreviation (input) PIPESIZE :: nat where "PIPESIZE \<equiv> 512"

record pipe =
  pi_data :: "u8 list"
  pi_nread :: u32
  pi_nwrite :: u32
  pi_readopen :: bool
  pi_writeopen :: bool

record files = fs +
  ftable :: "kfile list"
  pipes :: "u64 \<Rightarrow> pipe"

definition upd_file :: "nat \<Rightarrow> (kfile \<Rightarrow> kfile) \<Rightarrow> 'a files_scheme \<Rightarrow> 'a files_scheme" where
  "upd_file f g s = s\<lparr>ftable := (ftable s)[f := g (ftable s ! f)]\<rparr>"

definition upd_pipe :: "u64 \<Rightarrow> (pipe \<Rightarrow> pipe) \<Rightarrow> 'a files_scheme \<Rightarrow> 'a files_scheme" where
  "upd_pipe p g s = s\<lparr>pipes := (pipes s)(p := g (pipes s p))\<rparr>"

text \<open>A null pointer that the source dereferences faults in the kernel.\<close>

definition knonnull :: "'x option \<Rightarrow> ('x \<Rightarrow> ('s, 'a) kmon) \<Rightarrow> ('s, 'a) kmon" where
  "knonnull x f = (case x of None \<Rightarrow> kpanic ''kerneltrap'' | Some y \<Rightarrow> f y)"

definition kcur :: "(nat \<Rightarrow> ('a ptable_scheme, 'b) kmon) \<Rightarrow> ('a ptable_scheme, 'b) kmon" where
  "kcur f = (\<lambda>s. knonnull (curproc s) f s)"

section \<open>The file table\<close>

definition filealloc :: "('a files_scheme, nat option) kmon" where
  "filealloc s = (case first_index (\<lambda>f. f_ref f = 0) (ftable s) of
     Some f \<Rightarrow> Ret (Some f) (upd_file f (\<lambda>x. x\<lparr>f_ref := 1\<rparr>) s)
   | None \<Rightarrow> Ret None s)"

definition filedup :: "nat \<Rightarrow> ('a files_scheme, nat) kmon" where
  "filedup f s = (if f_ref (ftable s ! f) < 1 then Panic ''filedup''
     else Ret f (upd_file f (\<lambda>x. x\<lparr>f_ref := f_ref x + 1\<rparr>) s))"

definition pipeclose :: "u64 \<Rightarrow> bool \<Rightarrow> ('a files_scheme, unit) kmon" where
  "pipeclose p writable = (\<lambda>s.
     let s = (if writable then wakeup (ChPipeRead p) (upd_pipe p (\<lambda>x. x\<lparr>pi_writeopen := False\<rparr>) s)
              else wakeup (ChPipeWrite p) (upd_pipe p (\<lambda>x. x\<lparr>pi_readopen := False\<rparr>) s))
     in if \<not> pi_readopen (pipes s p) \<and> \<not> pi_writeopen (pipes s p) then kfree p s else Ret () s)"

definition fileclose :: "nat \<Rightarrow> ('a files_scheme, unit) kmon" where
  "fileclose f s =
     (let ff = (ftable s ! f)\<lparr>f_ref := f_ref (ftable s ! f) - 1\<rparr> in
      if f_ref (ftable s ! f) < 1 then Panic ''fileclose''
      else if f_ref ff > 0 then Ret () (upd_file f (\<lambda>_. ff) s)
      else let s = upd_file f (\<lambda>_. ff\<lparr>f_ref := 0, f_type := FD_NONE\<rparr>) s in
        case f_type ff of
          FD_PIPE \<Rightarrow> pipeclose (f_pipe ff) (f_writable ff) s
        | FD_INODE \<Rightarrow> knonnull (f_ip ff) (\<lambda>ip. kthen begin_op (kthen (iput ip) end_op)) s
        | FD_DEVICE \<Rightarrow> knonnull (f_ip ff) (\<lambda>ip. kthen begin_op (kthen (iput ip) end_op)) s
        | FD_NONE \<Rightarrow> Ret () s)"

section \<open>Creating a pipe\<close>

text \<open>
  \<^verbatim>\<open>pipealloc\<close> gives the two files it stores in \<^verbatim>\<open>*f0\<close> and \<^verbatim>\<open>*f1\<close>, or \<^const>\<open>None\<close> for \<^verbatim>\<open>-1\<close>. The page \<^verbatim>\<open>kalloc\<close> returns is filled
  with 5.
\<close>

definition pipe_file :: "u64 \<Rightarrow> bool \<Rightarrow> kfile \<Rightarrow> kfile" where
  "pipe_file p wr f = f\<lparr>f_type := FD_PIPE, f_readable := \<not> wr, f_writable := wr, f_pipe := p\<rparr>"

definition pipealloc :: "('a files_scheme, (nat \<times> nat) option) kmon" where
  "pipealloc = kbind filealloc (\<lambda>f0. case f0 of
       None \<Rightarrow> kret None
     | Some f0 \<Rightarrow> kbind filealloc (\<lambda>f1. case f1 of
           None \<Rightarrow> kthen (fileclose f0) (kret None)
         | Some f1 \<Rightarrow> kbind kalloc (\<lambda>p.
             if p = 0 then kthen (fileclose f0) (kthen (fileclose f1) (kret None))
             else kthen (kmod (upd_pipe p (\<lambda>_. \<lparr>pi_data = replicate PIPESIZE 5, pi_nread = 0, pi_nwrite = 0,
                           pi_readopen = True, pi_writeopen = True\<rparr>)))
                 (kthen (kmod (upd_file f0 (pipe_file p False)))
                 (kthen (kmod (upd_file f1 (pipe_file p True)))
                        (kret (Some (f0, f1))))))))"

end
