(* ===== verification/Mmap.thy ===== *)
theory Mmap
  imports File
begin

text \<open>
  Memory mappings, page faults and the copying between kernel and user memory: the second half of \<^verbatim>\<open>kernel/vm.c\<close>, and
  \<^verbatim>\<open>either_copyout\<close> and \<^verbatim>\<open>either_copyin\<close> of \<^verbatim>\<open>kernel/proc.c\<close>.

  The bytes a kernel buffer holds are a list. A copy into a kernel buffer gives the bytes it has stored so far
  along with its result, since a failing copy leaves them behind. \<^verbatim>\<open>sfence_vma\<close> has no effect on the model's state.

  Every loop over the pages of a range makes its source's test in each turn and is bounded by the number of pages
  of the range; the loop of \<^verbatim>\<open>mmapfreeproc\<close> takes one area out of the table in every turn, so as many turns as the
  table has entries are enough.
\<close>

section \<open>Data\<close>

record mmap_area =
  a_f :: "nat option"
  a_addr :: u64
  a_length :: int
  a_offset :: int
  a_prot :: int
  a_flags :: int
  a_p :: "nat option"

record mm = files +
  mmaptable :: "mmap_area list"

definition area_zero :: mmap_area where
  "area_zero = \<lparr>a_f = None, a_addr = 0, a_length = 0, a_offset = 0, a_prot = 0, a_flags = 0, a_p = None\<rparr>"

section \<open>The table of mappings\<close>

definition mmap_valid_prot :: "int \<Rightarrow> bool" where
  "mmap_valid_prot prot \<longleftrightarrow> prot = PROT_READ \<or> prot = (PROT_READ OR PROT_WRITE)"

definition mmap_pte_perm :: "int \<Rightarrow> u64" where
  "mmap_pte_perm prot = (PTE_R OR PTE_U) OR (if prot AND PROT_WRITE \<noteq> 0 then PTE_W else 0)"

definition area_covers :: "nat \<Rightarrow> u64 \<Rightarrow> mmap_area \<Rightarrow> bool" where
  "area_covers p va a \<longleftrightarrow> a_p a = Some p \<and> va \<ge> a_addr a \<and> va < a_addr a + u64_of_int (a_length a)"

definition mmap_lookup :: "nat \<Rightarrow> u64 \<Rightarrow> 'a mm_scheme \<Rightarrow> mmap_area option" where
  "mmap_lookup p va s = map_option ((!) (mmaptable s)) (first_index (area_covers p va) (mmaptable s))"

definition mmap_take :: "(mmap_area \<Rightarrow> bool) \<Rightarrow> ('a mm_scheme, mmap_area option) kmon" where
  "mmap_take P s = (case first_index P (mmaptable s) of
     Some i \<Rightarrow> Ret (Some (mmaptable s ! i)) (s\<lparr>mmaptable := (mmaptable s)[i := area_zero]\<rparr>)
   | None \<Rightarrow> Ret None s)"

definition mmap_take_start :: "nat \<Rightarrow> u64 \<Rightarrow> ('a mm_scheme, mmap_area option) kmon" where
  "mmap_take_start p addr = mmap_take (\<lambda>a. a_p a = Some p \<and> a_addr a = addr)"

definition mmap_take_any :: "nat \<Rightarrow> ('a mm_scheme, mmap_area option) kmon" where
  "mmap_take_any p = mmap_take (\<lambda>a. a_p a = Some p)"

definition mmap_copy_index :: "nat \<Rightarrow> nat \<Rightarrow> 'a mm_scheme \<Rightarrow> mmap_area option" where
  "mmap_copy_index p index s =
     (if index < length (mmaptable s) \<and> a_p (mmaptable s ! index) = Some p then Some (mmaptable s ! index) else None)"

definition mmap_insert :: "mmap_area \<Rightarrow> ('a mm_scheme, int) kmon" where
  "mmap_insert a s = (case first_index (\<lambda>b. a_p b = None) (mmaptable s) of
     Some i \<Rightarrow> Ret 0 (s\<lparr>mmaptable := (mmaptable s)[i := a]\<rparr>)
   | None \<Rightarrow> Ret (- 1) s)"

definition mmap_file_ok :: "nat option \<Rightarrow> int \<Rightarrow> 'a mm_scheme \<Rightarrow> bool" where
  "mmap_file_ok f prot s = (case f of
     None \<Rightarrow> False
   | Some f \<Rightarrow> let x = ftable s ! f in
       f_type x = FD_INODE \<and> (prot AND PROT_READ \<noteq> 0 \<longrightarrow> f_readable x) \<and> (prot AND PROT_WRITE \<noteq> 0 \<longrightarrow> f_writable x))"

section \<open>Pages of a mapping\<close>

text \<open>\<^verbatim>\<open>readi\<close> into physical memory.\<close>

definition co_mem :: "u64 \<Rightarrow> u8 list \<Rightarrow> ('a kmem_scheme, u64 option) kmon" where
  "co_mem d bs = kthen (kmod (upd_mem (\<lambda>m. wrbytes m d bs))) (kret (Some (d + of_nat (length bs))))"

text \<open>The part of \<^verbatim>\<open>mmap_map_page\<close> that fills a page from the mapped file: \<^const>\<open>True\<close> unless it fails.\<close>

definition mmap_fill_page :: "mmap_area \<Rightarrow> u64 \<Rightarrow> u64 \<Rightarrow> ('a mm_scheme, bool) kmon" where
  "mmap_fill_page area va mm =
     (if a_flags area AND MAP_ANONYMOUS \<noteq> 0 then kret True
      else let off = word_of_int (a_offset area) + ucast (va - a_addr area) in
        case a_f area of
          None \<Rightarrow> kret False
        | Some f \<Rightarrow> (\<lambda>s. if f_type (ftable s ! f) \<noteq> FD_INODE then Ret False s
            else knonnull (f_ip (ftable s ! f)) (\<lambda>ip.
              kthen (ilock ip)
             (kbind (readi co_mem ip mm off 4096) (\<lambda>(n, _).
              kthen (iunlock ip) (kret (n \<ge> 0))))) s))"

definition mmap_map_page :: "mmap_area \<Rightarrow> u64 \<Rightarrow> u64 \<Rightarrow> ('a mm_scheme, int) kmon" where
  "mmap_map_page area pagetable va =
     (let va = PGROUNDDOWN va; start = a_addr area in
      if va < start \<or> va \<ge> start + u64_of_int (a_length area) then kret (- 1)
      else kbind (ismapped pagetable va) (\<lambda>mapped.
        if mapped then kret (- 1)
        else kbind kalloc (\<lambda>mm.
          if mm = 0 then kret (- 1)
          else kthen (kmod (upd_mem (memset mm 0 4096)))
              (kbind (mmap_fill_page area va mm) (\<lambda>ok.
                 if \<not> ok then kthen (kfree mm) (kret (- 1))
                 else kbind (mappages pagetable va PGSIZE mm (mmap_pte_perm (a_prot area))) (\<lambda>r.
                   if r \<noteq> 0 then kthen (kfree mm) (kret (- 1)) else kret 0))))))"

primrec mmap_populate :: "nat \<Rightarrow> mmap_area \<Rightarrow> u64 \<Rightarrow> u64 \<Rightarrow> u64 \<Rightarrow> ('a mm_scheme, int) kmon" where
  "mmap_populate 0 area pagetable va stop = kret 0"
| "mmap_populate (Suc n) area pagetable va stop =
     (if \<not> va < stop then kret 0
      else kbind (mmap_map_page area pagetable va) (\<lambda>r.
        if r < 0 then kret (- 1) else mmap_populate n area pagetable (va + PGSIZE) stop))"

section \<open>The system calls\<close>

definition kmmap_file :: "nat \<Rightarrow> int \<Rightarrow> int \<Rightarrow> int \<Rightarrow> int \<Rightarrow> ('a mm_scheme, nat option option) kmon" where
  "kmmap_file p prot flags fd offset s =
     (if flags AND MAP_ANONYMOUS \<noteq> 0 then Ret (if fd \<noteq> - 1 \<or> offset \<noteq> 0 then None else Some None) s
      else if fd = - 1 \<or> fd < 0 \<or> fd \<ge> int NOFILE then Ret None s
      else let f = p_ofile (procs s ! p) ! nat fd in
        if \<not> mmap_file_ok f prot s then Ret None s
        else knonnull f (\<lambda>f. kbind (filedup f) (\<lambda>_. kret (Some (Some f)))) s)"

definition kmmap :: "u64 \<Rightarrow> int \<Rightarrow> int \<Rightarrow> int \<Rightarrow> int \<Rightarrow> int \<Rightarrow> ('a mm_scheme, u64) kmon" where
  "kmmap addr len prot flags fd offset = kcur (\<lambda>p.
     if addr mod PGSIZE \<noteq> 0 \<or> len \<le> 0 \<or> len mod 4096 \<noteq> 0 then kret 0
     else if \<not> mmap_valid_prot prot then kret 0
     else if offset < 0 then kret 0
     else let start = MMAPBASE + addr in
       kbind (kmmap_file p prot flags fd offset) (\<lambda>r. case r of
         None \<Rightarrow> kret 0
       | Some f \<Rightarrow>
         let area = \<lparr>a_f = f, a_addr = start, a_length = len, a_offset = offset, a_prot = prot,
                     a_flags = flags, a_p = Some p\<rparr>
         in kbind (mmap_insert area) (\<lambda>i.
           if i < 0
           then kthen (case f of Some f \<Rightarrow> fileclose f | None \<Rightarrow> kret ()) (kret 0)
           else if flags AND MAP_POPULATE \<noteq> 0
           then (\<lambda>s. kbind (mmap_populate (nat len div 4096) area (p_pagetable (procs s ! p)) start
                               (start + u64_of_int len))
                  (\<lambda>r. kret (if r < 0 then 0 else start)) s)
           else kret start)))"

text \<open>What \<^verbatim>\<open>kmunmap\<close> and \<^verbatim>\<open>mmapfreeproc\<close> do with the pages and with the file of an area they have taken out.\<close>

definition mmap_unmap_pages :: "mmap_area \<Rightarrow> u64 \<Rightarrow> ('a mm_scheme, unit) kmon" where
  "mmap_unmap_pages area pagetable =
     kthen (uvmunmap pagetable (a_addr area) (u64_of_int (a_length area div 4096)) True)
           (free_empty_mmap_pagetables pagetable (a_addr area) (u64_of_int (a_length area)))"

definition mmap_close :: "mmap_area \<Rightarrow> ('a mm_scheme, unit) kmon" where
  "mmap_close area = (case a_f area of Some f \<Rightarrow> fileclose f | None \<Rightarrow> kret ())"

definition kmunmap :: "u64 \<Rightarrow> ('a mm_scheme, int) kmon" where
  "kmunmap addr = kcur (\<lambda>p.
     if addr mod PGSIZE \<noteq> 0 then kret 0
     else kbind (mmap_take_start p addr) (\<lambda>r. case r of
         None \<Rightarrow> kret (- 1)
       | Some area \<Rightarrow>
           kthen (\<lambda>s. mmap_unmap_pages area (p_pagetable (procs s ! p)) s)
          (kthen (mmap_close area)
                 (kret 1))))"

primrec mmapfreeproc_loop :: "nat \<Rightarrow> nat \<Rightarrow> ('a mm_scheme, unit) kmon" where
  "mmapfreeproc_loop 0 p = kret ()"
| "mmapfreeproc_loop (Suc n) p = kbind (mmap_take_any p) (\<lambda>r. case r of
       None \<Rightarrow> kret ()
     | Some area \<Rightarrow>
         kthen (\<lambda>s. if p_pagetable (procs s ! p) \<noteq> 0 then mmap_unmap_pages area (p_pagetable (procs s ! p)) s else Ret () s)
        (kthen (mmap_close area)
               (mmapfreeproc_loop n p)))"

definition mmapfreeproc :: "nat \<Rightarrow> ('a mm_scheme, unit) kmon" where
  "mmapfreeproc p = (\<lambda>s. mmapfreeproc_loop (length (mmaptable s)) p s)"

primrec mmap_copy_pages_loop :: "nat \<Rightarrow> u64 \<Rightarrow> u64 \<Rightarrow> u64 \<Rightarrow> u64 \<Rightarrow> ('a mm_scheme, int) kmon" where
  "mmap_copy_pages_loop 0 old new va stop = kret 0"
| "mmap_copy_pages_loop (Suc n) old new va stop =
     (if \<not> va < stop then kret 0
      else kbind (walk old va False) (\<lambda>pte. \<lambda>s.
        let e = ld64 (mem s) pte in
        if pte = 0 \<or> e AND PTE_V = 0 then mmap_copy_pages_loop n old new (va + PGSIZE) stop s
        else if e AND (PTE_R OR PTE_W OR PTE_X) = 0 then mmap_copy_pages_loop n old new (va + PGSIZE) stop s
        else let pa = PTE2PA e; flags = PTE_FLAGS e in
          kthen (kaddref pa)
         (kbind (mappages new va PGSIZE pa flags) (\<lambda>r.
            if r \<noteq> 0 then kthen (kfree pa) (kret (- 1))
            else mmap_copy_pages_loop n old new (va + PGSIZE) stop)) s))"

definition mmap_copy_pages :: "mmap_area \<Rightarrow> nat \<Rightarrow> nat \<Rightarrow> ('a mm_scheme, int) kmon" where
  "mmap_copy_pages area oldp newp = (\<lambda>s.
     mmap_copy_pages_loop ((nat (a_length area) + 4095) div 4096) (p_pagetable (procs s ! oldp)) (p_pagetable (procs s ! newp))
       (a_addr area) (a_addr area + u64_of_int (a_length area)) s)"

text \<open>One turn of \<^verbatim>\<open>mmapfork\<close>'s loop; \<^const>\<open>Some\<close> is its \<^verbatim>\<open>return -1\<close>.\<close>

definition mmapfork_area :: "nat \<Rightarrow> nat \<Rightarrow> nat \<Rightarrow> ('a mm_scheme, unit option) kmon" where
  "mmapfork_area oldp newp i = (\<lambda>s. case mmap_copy_index oldp i s of
       None \<Rightarrow> Ret None s
     | Some area \<Rightarrow> let child = area\<lparr>a_p := Some newp\<rparr> in
         kthen (case a_f child of Some f \<Rightarrow> kbind (filedup f) (\<lambda>_. kret ()) | None \<Rightarrow> kret ())
        (kbind (mmap_insert child) (\<lambda>r.
           if r < 0 then kthen (mmap_close child) (kthen (mmapfreeproc newp) (kret (Some ())))
           else kbind (mmap_copy_pages area oldp newp) (\<lambda>r.
             if r < 0 then kthen (mmapfreeproc newp) (kret (Some ())) else kret None))) s)"

definition mmapfork :: "nat \<Rightarrow> nat \<Rightarrow> ('a mm_scheme, int) kmon" where
  "mmapfork oldp newp = kbind (kfirst (mmapfork_area oldp newp) [0..<NMMAPAREA])
     (\<lambda>r. kret (case r of Some _ \<Rightarrow> - 1 | None \<Rightarrow> 0))"

section \<open>Page faults\<close>

definition vmfault :: "u64 \<Rightarrow> u64 \<Rightarrow> bool \<Rightarrow> ('a mm_scheme, int) kmon" where
  "vmfault pagetable va read = kcur (\<lambda>p. \<lambda>s.
     let va = PGROUNDDOWN va in
     case mmap_lookup p va s of
       Some area \<Rightarrow>
         (if \<not> read \<and> a_prot area AND PROT_WRITE = 0 then Ret (- 1) s
          else kbind (ismapped pagetable va) (\<lambda>m.
            if m then kret (- 1)
            else kbind (mmap_map_page area pagetable va) (\<lambda>r. kret (if r < 0 then - 1 else 1))) s)
     | None \<Rightarrow>
         if va \<ge> MMAPBASE then Ret (- 1) s
         else if va \<ge> p_sz (procs s ! p) then Ret (- 1) s
         else kbind (ismapped pagetable va) (\<lambda>m.
           if m then kret (- 1)
           else kbind kalloc (\<lambda>mm.
             if mm = 0 then kret (- 1)
             else kthen (kmod (upd_mem (memset mm 0 4096)))
                 (kbind (mappages pagetable va PGSIZE mm (PTE_W OR PTE_U OR PTE_R)) (\<lambda>r.
                    if r \<noteq> 0 then kthen (kfree mm) (kret (- 1)) else kret 1)))) s)"

section \<open>Copying between kernel and user memory\<close>

text \<open>The page a copy needs, faulted in when it is not there; 0 when the copy fails.\<close>

definition copy_page :: "u64 \<Rightarrow> u64 \<Rightarrow> bool \<Rightarrow> ('a mm_scheme, u64) kmon" where
  "copy_page pagetable va0 read = kbind (walkaddr pagetable va0) (\<lambda>pa0.
     if pa0 = 0
     then kbind (vmfault pagetable va0 read) (\<lambda>r. if r < 0 then kret 0 else walkaddr pagetable va0)
     else kret pa0)"

primrec copyout_loop :: "nat \<Rightarrow> u64 \<Rightarrow> u64 \<Rightarrow> u8 list \<Rightarrow> ('a mm_scheme, int) kmon" where
  "copyout_loop 0 pagetable dstva src = kret 0"
| "copyout_loop (Suc k) pagetable dstva src =
     (if src = [] then kret 0
      else let va0 = PGROUNDDOWN dstva in
        if va0 \<ge> MAXVA then kret (- 1)
        else kbind (copy_page pagetable va0 False) (\<lambda>pa0.
          if pa0 = 0 then kret (- 1)
          else kbind (walk pagetable va0 False) (\<lambda>pte. \<lambda>s.
            if ld64 (mem s) pte AND PTE_W = 0 then Ret (- 1) s
            else let n = min (unat (PGSIZE - (dstva - va0))) (length src) in
              kthen (kmod (upd_mem (\<lambda>m. wrbytes m (pa0 + (dstva - va0)) (take n src))))
                    (copyout_loop k pagetable (va0 + PGSIZE) (drop n src)) s)))"

definition copyout :: "u64 \<Rightarrow> u64 \<Rightarrow> u8 list \<Rightarrow> ('a mm_scheme, int) kmon" where
  "copyout pagetable dstva src = copyout_loop (length src) pagetable dstva src"

primrec copyin_loop :: "nat \<Rightarrow> u64 \<Rightarrow> u64 \<Rightarrow> nat \<Rightarrow> u8 list \<Rightarrow> ('a mm_scheme, u8 list \<times> int) kmon" where
  "copyin_loop 0 pagetable srcva len dst = kret (dst, 0)"
| "copyin_loop (Suc k) pagetable srcva len dst =
     (if len = 0 then kret (dst, 0)
      else let va0 = PGROUNDDOWN srcva in
        kbind (copy_page pagetable va0 True) (\<lambda>pa0.
          if pa0 = 0 then kret (dst, - 1)
          else let n = min (unat (PGSIZE - (srcva - va0))) len in
            kbind (kget (\<lambda>s. rdbytes (mem s) (pa0 + (srcva - va0)) n)) (\<lambda>bs.
              copyin_loop k pagetable (va0 + PGSIZE) (len - n) (dst @ bs))))"

definition copyin :: "u64 \<Rightarrow> u64 \<Rightarrow> nat \<Rightarrow> ('a mm_scheme, u8 list \<times> int) kmon" where
  "copyin pagetable srcva len = copyin_loop len pagetable srcva len []"

text \<open>\<^verbatim>\<open>copyinstr\<close> gives the string without its NUL, or \<^const>\<open>None\<close> for \<^verbatim>\<open>-1\<close>.\<close>

primrec copyinstr_loop :: "nat \<Rightarrow> u64 \<Rightarrow> u64 \<Rightarrow> nat \<Rightarrow> u8 list \<Rightarrow> ('a mm_scheme, u8 list option) kmon" where
  "copyinstr_loop 0 pagetable srcva mx dst = kret None"
| "copyinstr_loop (Suc k) pagetable srcva mx dst =
     (if mx = 0 then kret None
      else let va0 = PGROUNDDOWN srcva in
        kbind (copy_page pagetable va0 True) (\<lambda>pa0.
          if pa0 = 0 then kret None
          else let n = min (unat (PGSIZE - (srcva - va0))) mx in
            kbind (kget (\<lambda>s. rdbytes (mem s) (pa0 + (srcva - va0)) n)) (\<lambda>bs.
              if 0 \<in> set bs then kret (Some (dst @ takeWhile (\<lambda>c. c \<noteq> 0) bs))
              else copyinstr_loop k pagetable (va0 + PGSIZE) (mx - n) (dst @ bs))))"

definition copyinstr :: "u64 \<Rightarrow> u64 \<Rightarrow> nat \<Rightarrow> ('a mm_scheme, u8 list option) kmon" where
  "copyinstr pagetable srcva mx = copyinstr_loop mx pagetable srcva mx []"

text \<open>
  \<^verbatim>\<open>either_copyout\<close> and \<^verbatim>\<open>either_copyin\<close> with a user address, as the copying arguments of \<^const>\<open>readi\<close> and \<^const>\<open>writei\<close>; with
  a kernel address they are \<^const>\<open>co_mem\<close> or a copy to a local variable.
\<close>

definition co_user :: "u64 \<Rightarrow> u8 list \<Rightarrow> ('a mm_scheme, u64 option) kmon" where
  "co_user dst bs = kcur (\<lambda>p. \<lambda>s. kbind (copyout (p_pagetable (procs s ! p)) dst bs)
     (\<lambda>r. kret (if r = - 1 then None else Some (dst + of_nat (length bs)))) s)"

definition ci_user :: "u64 \<Rightarrow> nat \<Rightarrow> ('a mm_scheme, u8 list \<times> u64 option) kmon" where
  "ci_user src n = kcur (\<lambda>p. \<lambda>s. kbind (copyin (p_pagetable (procs s ! p)) src n)
     (\<lambda>(bs, r). kret (bs, if r = - 1 then None else Some (src + of_nat n))) s)"

end
