(* ===== verification/FsRead.thy ===== *)
theory FsRead
  imports Fs
begin

text \<open>
  Reading the file system: what \<^verbatim>\<open>bmap\<close>, \<^verbatim>\<open>readi\<close>, \<^verbatim>\<open>iget\<close> and \<^verbatim>\<open>dirlookup\<close> of \<^verbatim>\<open>kernel/fs.c\<close> return over a correct buffer
  cache, in terms of the content of a file and the entries of a directory.

  \<open>copier\<close> is the interface between \<^verbatim>\<open>readi\<close> and \<^verbatim>\<open>either_copyout\<close>: a destination, how a copy advances it, and what it means
  that there is room at a destination and that bytes were stored there. The correctness of \<^verbatim>\<open>readi\<close> is proved once for every
  such destination, and used for a local variable here and for user memory in \<open>UserCopy\<close>.
\<close>

section \<open>What reading leaves alone\<close>

text \<open>
  A read changes buffers, the destination's memory, and the scheduling state of processes it wakes up; \<open>quiet\<close> steps keep
  the memory too.
\<close>

definition pcore :: "proc \<Rightarrow> proc" where
  "pcore p = p\<lparr>p_state := UNUSED, p_vdeadline := 0, p_remain_slice := 0\<rparr>"

definition moved :: "'a bio_scheme \<Rightarrow> 'a bio_scheme \<Rightarrow> bool" where
  "moved s s' \<longleftrightarrow> (\<exists>B P m. s' = s\<lparr>bufs := B, procs := P, mem := m\<rparr> \<and> map pcore P = map pcore (procs s))"

definition quiet :: "'a bio_scheme \<Rightarrow> 'a bio_scheme \<Rightarrow> bool" where
  "quiet s s' \<longleftrightarrow> moved s s' \<and> mem s' = mem s"

section \<open>Files\<close>

text \<open>
  The number of the disk block that holds block \<open>bn\<close> of a file, and the bytes of a file, over the blocks' contents \<open>v\<close>;
  files whose blocks are all allocated, and a cache with room for one more block.
\<close>

definition file_block :: "(u32 \<Rightarrow> u8 list) \<Rightarrow> inode \<Rightarrow> nat \<Rightarrow> u32" where
  "file_block v ip bn = (if bn < NDIRECT then i_addrs ip ! bn
     else if i_addrs ip ! NDIRECT = 0 then 0 else rd32 (v (i_addrs ip ! NDIRECT)) (4 * (bn - NDIRECT)))"

definition file_byte :: "(u32 \<Rightarrow> u8 list) \<Rightarrow> inode \<Rightarrow> nat \<Rightarrow> u8" where
  "file_byte v ip k = v (file_block v ip (k div BSIZE)) ! (k mod BSIZE)"

definition file_data :: "(u32 \<Rightarrow> u8 list) \<Rightarrow> inode \<Rightarrow> u8 list" where
  "file_data v ip = map (file_byte v ip) [0..<unat (i_size ip)]"

definition file_ok :: "(u32 \<Rightarrow> u8 list) \<Rightarrow> inode \<Rightarrow> bool" where
  "file_ok v ip \<longleftrightarrow> unat (i_size ip) \<le> MAXFILE * BSIZE \<and>
     (\<forall>bn. bn * BSIZE < unat (i_size ip) \<longrightarrow> file_block v ip bn \<noteq> 0 \<and> length (v (file_block v ip bn)) = BSIZE)"

definition cache_room :: "(u32 \<Rightarrow> nat) \<Rightarrow> bool" where
  "cache_room R \<longleftrightarrow> card {b. R b \<noteq> 0} < NBUF \<and> (\<forall>b. R b + 1 < 2 ^ 32)"

text \<open>
  A local variable as a destination: always ready, and the memory does not change.
\<close>

definition local_ready :: "'a fs_scheme \<Rightarrow> u8 list \<Rightarrow> nat \<Rightarrow> bool" where
  "local_ready s d n \<longleftrightarrow> True"

definition local_stored :: "'a fs_scheme \<Rightarrow> u8 list \<Rightarrow> u8 list \<Rightarrow> memory \<Rightarrow> bool" where
  "local_stored s d bs m \<longleftrightarrow> m = mem s"

section \<open>Directories\<close>

text \<open>
  The entries of a directory, the entries a name stands for, and an inode table with at most one slot for every inode.
\<close>

definition dir_entries :: "(u32 \<Rightarrow> u8 list) \<Rightarrow> inode \<Rightarrow> dirent list" where
  "dir_entries v ip = map (\<lambda>k. decode_dirent (take 16 (drop (16 * k) (file_data v ip)))) [0..<unat (i_size ip) div 16]"

definition entry_named :: "u8 list \<Rightarrow> dirent \<Rightarrow> bool" where
  "entry_named name de \<longleftrightarrow> de_inum de \<noteq> 0 \<and> cstr (take DIRSIZ name) = cstr (de_name de)"

definition itable_ok :: "inode list \<Rightarrow> bool" where
  "itable_ok is \<longleftrightarrow> (\<forall>i<length is. 0 \<le> i_ref (is ! i)) \<and>
     (\<forall>i<length is. \<forall>j<length is. 0 < i_ref (is ! i) \<longrightarrow> 0 < i_ref (is ! j) \<longrightarrow>
        i_dev (is ! i) = i_dev (is ! j) \<longrightarrow> i_inum (is ! i) = i_inum (is ! j) \<longrightarrow> i = j)"

text \<open>
  One turn of a scan over a directory, and what \<^verbatim>\<open>dirlookup\<close> does with the entry it was looking for.
\<close>

definition scan_entry :: "nat \<Rightarrow> string \<Rightarrow> (dirent \<Rightarrow> bool) \<Rightarrow> (u32 \<Rightarrow> dirent \<Rightarrow> ('a fs_scheme, 'b) kmon) \<Rightarrow> u32 \<Rightarrow> ('a fs_scheme, 'b option) kmon" where
  "scan_entry i msg P h off = kbind (read_dirent i msg off) (\<lambda>e s. if P e then kbind (h off e) (\<lambda>x. kret (Some x)) s else Ret None s)"

definition dir_hit :: "nat \<Rightarrow> u32 \<Rightarrow> dirent \<Rightarrow> ('a fs_scheme, nat \<times> u32) kmon" where
  "dir_hit dp off de = kbind (\<lambda>s. iget (i_dev (itable s ! dp)) (ucast (de_inum de)) s) (\<lambda>ip. kret (ip, off))"

text \<open>
  A file system with a root directory of two entries, \<^verbatim>\<open>.\<close> and \<^verbatim>\<open>ls\<close>.
\<close>

definition demo_dir_bytes :: "u8 list" where
  "demo_dir_bytes = [1, 0, 46, 0, 0, 0, 0, 0, 0, 0, 0, 0, 0, 0, 0, 0, 7, 0, 108, 115, 0, 0, 0, 0, 0, 0, 0, 0, 0, 0, 0, 0]"

definition demo_dir_disk :: "u32 \<Rightarrow> u8 list" where
  "demo_dir_disk b = (if b = 100 then demo_dir_bytes @ replicate 992 0 else replicate BSIZE 0)"

definition demo_dir :: fs where
  "demo_dir = log.extend (bio.extend (binit (boot_bio\<lparr>disk := demo_dir_disk\<rparr>))
       \<lparr>log_start = 2, log_outstanding = 0, log_committing = False, log_dev = 1, log_lh = \<lparr>lh_n = 0, lh_block = replicate LOGBLOCKS 0\<rparr>\<rparr>)
     \<lparr>sb = \<lparr>sb_magic = FSMAGIC, sb_size = 2000, sb_nblocks = 1953, sb_ninodes = 200, sb_nlog = 31, sb_logstart = 2, sb_inodestart = 33,
              sb_bmapstart = 46\<rparr>,
      itable = [\<lparr>i_dev = 1, i_inum = 1, i_ref = 1, i_lock = initsleeplock, i_valid = 1, i_type = T_DIR, i_major = 0, i_minor = 0,
                  i_nlink = 1, i_size = 32, i_addrs = 100 # replicate NDIRECT 0\<rparr>,
                \<lparr>i_dev = 0, i_inum = 0, i_ref = 0, i_lock = initsleeplock, i_valid = 0, i_type = 0, i_major = 0, i_minor = 0,
                  i_nlink = 0, i_size = 0, i_addrs = replicate (NDIRECT + 1) 0\<rparr>]\<rparr>"

section \<open>Reading blocks\<close>

lemma moved_refl [simp]: "moved s s"
  unfolding moved_def by (intro exI [of _ "bufs s"] exI [of _ "procs s"] exI [of _ "mem s"]) simp

lemma moved_trans [trans]:
  assumes "moved s t" "moved t u" shows "moved s u"
proof -
  obtain B P m where t: "t = s\<lparr>bufs := B, procs := P, mem := m\<rparr>" "map pcore P = map pcore (procs s)"
    using assms(1) unfolding moved_def by blast
  obtain B' P' m' where u: "u = t\<lparr>bufs := B', procs := P', mem := m'\<rparr>" "map pcore P' = map pcore (procs t)"
    using assms(2) unfolding moved_def by blast
  show ?thesis unfolding moved_def using t u by (intro exI [of _ B'] exI [of _ P'] exI [of _ m']) simp
qed

lemma moved_mem: "moved s (s\<lparr>mem := m\<rparr>)"
  unfolding moved_def by (intro exI [of _ "bufs s"] exI [of _ "procs s"] exI [of _ m]) simp

lemma moved_bufs: "moved s (s\<lparr>bufs := B\<rparr>)"
  unfolding moved_def by (intro exI [of _ B] exI [of _ "procs s"] exI [of _ "mem s"]) simp

lemma moved_wakeup: "moved s (wakeup ch s)"
proof -
  let ?P = "procs (wakeup ch s)"
  have "map pcore ?P = map pcore (procs s)"
    by (rule nth_equalityI) (auto simp: wakeup_def Let_def pcore_def wake_proc_def eevdf_refresh_deadline_def)
  then show ?thesis
    unfolding moved_def by (intro exI [of _ "bufs s"] exI [of _ ?P] exI [of _ "mem s"]) (simp add: wakeup_def)
qed

lemma quiet_refl [simp]: "quiet s s" by (simp add: quiet_def)

lemma quiet_trans [trans]: "quiet s t \<Longrightarrow> quiet t u \<Longrightarrow> quiet s u"
  by (auto simp: quiet_def intro: moved_trans)

lemma quiet_moved: "quiet s t \<Longrightarrow> moved s t"
  by (simp add: quiet_def)

lemma quiet_bufs: "quiet s (s\<lparr>bufs := B\<rparr>)"
  by (simp add: quiet_def moved_bufs)

lemma quiet_wakeup_bufs: "quiet s ((wakeup ch s)\<lparr>bufs := B\<rparr>)"
  unfolding quiet_def using moved_trans [OF moved_wakeup moved_bufs] by (simp add: wakeup_def)

lemma pcore_field:
  assumes "pcore p = pcore q"
  shows "p_pid p = p_pid q" "p_pagetable p = p_pagetable q" "p_killed p = p_killed q" "p_cwd p = p_cwd q" "p_ofile p = p_ofile q"
    "p_sz p = p_sz q" "p_trapframe p = p_trapframe q"
  using arg_cong [OF assms, of p_pid] arg_cong [OF assms, of p_pagetable] arg_cong [OF assms, of p_killed]
    arg_cong [OF assms, of p_cwd] arg_cong [OF assms, of p_ofile] arg_cong [OF assms, of p_sz] arg_cong [OF assms, of p_trapframe]
  by (simp_all add: pcore_def)

lemma movedD:
  assumes "moved s s'"
  shows "disk s' = disk s" "curproc s' = curproc s" "length (procs s') = length (procs s)"
    "r < length (procs s) \<Longrightarrow> pcore (procs s' ! r) = pcore (procs s ! r)"
proof -
  obtain B P m where s': "s' = s\<lparr>bufs := B, procs := P, mem := m\<rparr>" and P: "map pcore P = map pcore (procs s)"
    using assms unfolding moved_def by blast
  show "disk s' = disk s" "curproc s' = curproc s" by (simp_all add: s')
  have "length (map pcore P) = length (map pcore (procs s))" by (simp only: P)
  then show l: "length (procs s') = length (procs s)" by (simp add: s')
  show "r < length (procs s) \<Longrightarrow> pcore (procs s' ! r) = pcore (procs s ! r)"
    using arg_cong [OF P, of "\<lambda>l. l ! r"] l by (simp add: s')
qed

lemma moved_fs:
  fixes s :: "'a fs_scheme"
  assumes "moved s s'"
  shows "itable s' = itable s" "sb s' = sb s" "log_dev s' = log_dev s" "log_lh s' = log_lh s" "log_start s' = log_start s"
    "log_outstanding s' = log_outstanding s" "fs.more s' = fs.more s"
  using assms unfolding moved_def by auto

lemma bread_quiet:
  assumes "cache dev s v R L" "bno \<notin> L" "card {b. R b \<noteq> 0} < NBUF" "R bno + 1 < 2 ^ 32"
  obtains i s1 where "bread dev bno s = Ret i s1" "quiet s s1" "cache dev s1 v (R(bno := Suc (R bno))) (insert bno L)"
    "slot dev (bufs s1) i bno" "buf_data i s1 = v bno"
proof -
  obtain i B where b: "bread dev bno s = Ret i (s\<lparr>bufs := B\<rparr>)" "cache dev (s\<lparr>bufs := B\<rparr>) v (R(bno := Suc (R bno))) (insert bno L)"
      "slot dev B i bno"
    using bread_ok [OF assms(1,2) disjI2 [OF assms(3)] assms(4)] by blast
  have sl: "slot dev (bufs (s\<lparr>bufs := B\<rparr>)) i bno" using b(3) by simp
  have "buf_data i (s\<lparr>bufs := B\<rparr>) = v bno" by (rule upd_data_ok(3) [OF b(2) sl]) simp
  with b sl show thesis by (intro that [of i "s\<lparr>bufs := B\<rparr>"] quiet_bufs)
qed

lemma brelse_quiet:
  assumes "cache dev s v (R(bno := Suc (R bno))) (insert bno L)" "bno \<notin> L" "slot dev (bufs s) i bno" "R bno = 0 \<longrightarrow> v bno = disk s bno"
  obtains s1 where "brelse i s = Ret () s1" "quiet s s1" "cache dev s1 v R L"
proof -
  have one: "(R(bno := Suc (R bno))) bno = 1 \<longrightarrow> v bno = disk s bno" using assms(4) by simp
  have R: "(R(bno := Suc (R bno)))(bno := (R(bno := Suc (R bno))) bno - 1) = R" by auto
  have L: "insert bno L - {bno} = L" using assms(2) by auto
  obtain B where "brelse i s = Ret () ((wakeup (ChBufLock i) s)\<lparr>bufs := B\<rparr>)"
    "cache dev ((wakeup (ChBufLock i) s)\<lparr>bufs := B\<rparr>) v R L"
    using brelse_ok [OF assms(1,3) insertI1 one] unfolding R L by blast
  then show thesis by (intro that [OF _ quiet_wakeup_bufs])
qed

lemma cache_mem [simp]: "cache dev (s\<lparr>mem := m\<rparr>) v R L = cache dev s v R L"
  by (simp add: cache_def mypid_def split: option.split)

lemma cache_clean: "cache dev s v R L \<Longrightarrow> R bno = 0 \<longrightarrow> v bno = disk s bno"
  using cachebD(5) cacheD by blast

lemma quiet_mem:
  assumes "quiet s t" shows "quiet (s\<lparr>mem := m\<rparr>) (t\<lparr>mem := m\<rparr>)"
proof -
  obtain B P where "t = s\<lparr>bufs := B, procs := P\<rparr>" "map pcore P = map pcore (procs s)"
    using assms unfolding quiet_def moved_def by auto
  then show ?thesis unfolding quiet_def moved_def by (intro conjI exI [of _ B] exI [of _ P] exI [of _ m]) simp_all
qed

lemma moved_cache_clean: "cache dev s v R L \<Longrightarrow> moved s t \<Longrightarrow> R bno = 0 \<longrightarrow> v bno = disk t bno"
  using cache_clean movedD(1) by metis

section \<open>Reading a file\<close>

lemma bmap_read:
  assumes "cache (i_dev (itable s ! i)) s v R {}" "cache_room R" "bn < MAXFILE" "file_block v (itable s ! i) bn \<noteq> 0"
  obtains s1 where "bmap i (of_nat bn) s = Ret (file_block v (itable s ! i) bn) s1" "quiet s s1" "cache (i_dev (itable s ! i)) s1 v R {}"
proof (cases "bn < NDIRECT")
  case True
  have "unat (of_nat bn :: u32) = bn" using True by (simp add: unat_of_nat)
  then show thesis using that [of s] assms True by (simp add: bmap_def Let_def file_block_def)
next
  case False
  let ?dev = "i_dev (itable s ! i)" and ?ind = "i_addrs (itable s ! i) ! NDIRECT"
  have u: "unat (of_nat bn :: u32) = bn" using assms(3) by (simp add: unat_of_nat)
  have ind: "?ind \<noteq> 0" and fb: "file_block v (itable s ! i) bn = rd32 (v ?ind) (4 * (bn - NDIRECT))"
    using assms(4) False by (auto simp: file_block_def split: if_splits)
  obtain j s1 where b: "bread ?dev ?ind s = Ret j s1" "quiet s s1" "cache ?dev s1 v (R(?ind := Suc (R ?ind))) {?ind}"
      "slot ?dev (bufs s1) j ?ind" "buf_data j s1 = v ?ind"
    using bread_quiet [OF assms(1), of ?ind] assms(2) unfolding cache_room_def by auto
  obtain s2 where r: "brelse j s1 = Ret () s2" "quiet s1 s2" "cache ?dev s2 v R {}"
    by (rule brelse_quiet [OF b(3) _ b(4) moved_cache_clean [OF assms(1) quiet_moved [OF b(2)]]]) simp
  have "bmap i (of_nat bn) s = Ret (file_block v (itable s ! i) bn) s2"
    using False assms(3,4) ind b(1,5) r(1) unfolding fb
    by (simp add: bmap_def Let_def u kbind_def kthen_def kret_def)
  then show thesis using that [OF _ quiet_trans [OF b(2) r(2)] r(3)] by blast
qed

lemma block_div: "r < BSIZE \<Longrightarrow> (q * BSIZE + r) div BSIZE = q \<and> (q * BSIZE + r) mod BSIZE = r"
  by simp

lemma file_chunk:
  assumes "file_ok v ip" "k + m \<le> unat (i_size ip)" "k mod BSIZE + m \<le> BSIZE" "0 < m"
  shows "take m (drop (k mod BSIZE) (v (file_block v ip (k div BSIZE)))) = map (file_byte v ip) [k..<k + m]"
proof (rule nth_equalityI)
  have "k div BSIZE * BSIZE < unat (i_size ip)" using assms(2,4) div_times_less_eq_dividend [of k BSIZE] by linarith
  then have l: "length (v (file_block v ip (k div BSIZE))) = BSIZE" using assms(1) unfolding file_ok_def by blast
  then show "length (take m (drop (k mod BSIZE) (v (file_block v ip (k div BSIZE))))) = length (map (file_byte v ip) [k..<k + m])"
    using assms(3) by simp
  fix j assume "j < length (take m (drop (k mod BSIZE) (v (file_block v ip (k div BSIZE)))))"
  then have j: "j < m" by simp
  have e: "k + j = k div BSIZE * BSIZE + (k mod BSIZE + j)" by simp
  have lt: "k mod BSIZE + j < BSIZE" using j assms(3) by simp
  have "(k div BSIZE * BSIZE + (k mod BSIZE + j)) div BSIZE = k div BSIZE"
      "(k div BSIZE * BSIZE + (k mod BSIZE + j)) mod BSIZE = k mod BSIZE + j"
    using block_div [OF lt] by blast+
  then have "(k + j) div BSIZE = k div BSIZE" "(k + j) mod BSIZE = k mod BSIZE + j"
    unfolding e [symmetric] .
  then show "take m (drop (k mod BSIZE) (v (file_block v ip (k div BSIZE)))) ! j = map (file_byte v ip) [k..<k + m] ! j"
    using j l assms(3) by (simp add: file_byte_def)
qed

lemma unat_min: "unat (min a b) = min (unat a) (unat b)" for a b :: u32
  by (simp add: min_def word_le_nat_alt)

lemma chunk_words:
  assumes "k < 2 ^ 32" "t \<le> n" "n < 2 ^ 32"
  defines "m \<equiv> min (n - t) (BSIZE - k mod BSIZE)"
  shows "(of_nat k :: u32) div 1024 = of_nat (k div BSIZE)" "unat ((of_nat k :: u32) mod 1024) = k mod BSIZE"
    "min (of_nat n - of_nat t) (1024 - of_nat k mod 1024) = (of_nat m :: u32)" "unat (of_nat m :: u32) = m"
proof -
  have u: "unat (of_nat k :: u32) = k" "unat (of_nat t :: u32) = t" "unat (of_nat n :: u32) = n"
    using assms by (simp_all add: unat_of_nat)
  show d: "(of_nat k :: u32) div 1024 = of_nat (k div BSIZE)"
    using assms(1) by (simp add: word_unat_eq_iff unat_div u unat_of_nat less_imp_diff_less)
  show r: "unat ((of_nat k :: u32) mod 1024) = k mod BSIZE" by (simp add: unat_mod u)
  have "m < 2 ^ 32" using assms(3) unfolding m_def by linarith
  then show um: "unat (of_nat m :: u32) = m" by (simp add: unat_of_nat)
  have a: "unat (of_nat n - of_nat t :: u32) = n - t"
    using assms(2) by (subst unat_sub) (simp_all add: word_le_nat_alt u)
  have b: "unat (1024 - of_nat k mod 1024 :: u32) = BSIZE - k mod BSIZE"
    by (subst unat_sub) (simp_all add: word_le_nat_alt r)
  have "unat (min (of_nat n - of_nat t) (1024 - of_nat k mod 1024) :: u32) = m"
    unfolding unat_min a b m_def ..
  then show "min (of_nat n - of_nat t) (1024 - of_nat k mod 1024) = (of_nat m :: u32)"
    using um by (simp only: word_unat_eq_iff)
qed

locale copier =
  fixes co :: "'k \<Rightarrow> u8 list \<Rightarrow> ('a fs_scheme, 'k option) kmon"
    and adv :: "'k \<Rightarrow> u8 list \<Rightarrow> 'k"
    and ready :: "'a fs_scheme \<Rightarrow> 'k \<Rightarrow> nat \<Rightarrow> bool"
    and stored :: "'a fs_scheme \<Rightarrow> 'k \<Rightarrow> u8 list \<Rightarrow> memory \<Rightarrow> bool"
  assumes copy: "ready s d (length bs + n) \<Longrightarrow>
      \<exists>m. co d bs s = Ret (Some (adv d bs)) (s\<lparr>mem := m\<rparr>) \<and> stored s d bs m \<and> ready (s\<lparr>mem := m\<rparr>) (adv d bs) n"
    and stored_Nil: "stored s d [] (mem s)"
    and stored_append: "\<lbrakk>ready s d (length xs + length ys); stored s d xs m; stored (s\<lparr>mem := m\<rparr>) (adv d xs) ys m'\<rbrakk> \<Longrightarrow>
      stored s d (xs @ ys) m'"
    and adv: "adv d [] = d" "adv (adv d xs) ys = adv d (xs @ ys)"
    and quiet_ready: "quiet s t \<Longrightarrow> ready t d n = ready s d n"
    and quiet_stored: "quiet s t \<Longrightarrow> stored t d bs m = stored s d bs m"
begin

lemma read_step:
  assumes "cache (i_dev (itable s ! i)) s v R {}" "cache_room R" "file_ok v (itable s ! i)"
    and "k + (n - t) \<le> unat (i_size (itable s ! i))" "t < n" "n \<le> 274432" "ready s d (n - t)"
  defines "m \<equiv> min (n - t) (BSIZE - k mod BSIZE)"
  defines "bs \<equiv> map (file_byte v (itable s ! i)) [k..<k + m]"
  shows "\<exists>s'. readi_loop (Suc f) co i (of_nat t) (of_nat n) (of_nat k) d s =
      readi_loop f co i (of_nat (t + m)) (of_nat n) (of_nat (k + m)) (adv d bs) s' \<and>
    moved s s' \<and> cache (i_dev (itable s ! i)) s' v R {} \<and> stored s d bs (mem s') \<and> ready s' (adv d bs) (n - (t + m)) \<and> 0 < m \<and> t + m \<le> n \<and>
    quiet (s\<lparr>mem := mem s'\<rparr>) s'"
proof -
  let ?ip = "itable s ! i" let ?dev = "i_dev ?ip" and ?b = "file_block v ?ip (k div BSIZE)"
  have m: "0 < m" "t + m \<le> n" "k mod BSIZE + m \<le> BSIZE" "k + m \<le> unat (i_size ?ip)"
    using assms(4,5) unfolding m_def by auto
  have size: "unat (i_size ?ip) \<le> 274432" using assms(3) by (simp add: file_ok_def)
  have k: "k < 274432" "k div BSIZE < MAXFILE" using m(1,4) size by auto
  have k': "k < 2 ^ 32" "t \<le> n" "n < 2 ^ 32" using k assms(5,6) by simp_all
  note w = chunk_words [OF k', folded m_def]
  have lt: "(of_nat t :: u32) < of_nat n" using assms(5,6) by (simp add: word_less_nat_alt unat_of_nat)
  have "k div BSIZE * BSIZE < unat (i_size ?ip)" using m(1,4) div_times_less_eq_dividend [of k BSIZE] by linarith
  then have fb: "?b \<noteq> 0" using assms(3) unfolding file_ok_def by blast
  obtain s1 where s1: "bmap i (of_nat (k div BSIZE)) s = Ret ?b s1" "quiet s s1" "cache ?dev s1 v R {}"
    by (rule bmap_read [OF assms(1,2) k(2) fb])
  have it: "itable s1 = itable s" by (rule moved_fs(1) [OF quiet_moved [OF s1(2)]])
  obtain j s2 where s2: "bread ?dev ?b s1 = Ret j s2" "quiet s1 s2" "cache ?dev s2 v (R(?b := Suc (R ?b))) {?b}"
      "slot ?dev (bufs s2) j ?b" "buf_data j s2 = v ?b"
    using bread_quiet [OF s1(3), of ?b] assms(2) unfolding cache_room_def by auto
  have q2: "quiet s s2" by (rule quiet_trans [OF s1(2) s2(2)])
  have bs: "take m (drop (k mod BSIZE) (v ?b)) = bs" unfolding bs_def by (rule file_chunk [OF assms(3) m(4,3,1)])
  have lb: "length bs = m" by (simp add: bs_def)
  have "ready s2 d (length bs + (n - (t + m)))" using assms(7) m lb unfolding quiet_ready [OF q2] by simp
  from copy [OF this] obtain mm where c: "co d bs s2 = Ret (Some (adv d bs)) (s2\<lparr>mem := mm\<rparr>)" "stored s2 d bs mm"
      "ready (s2\<lparr>mem := mm\<rparr>) (adv d bs) (n - (t + m))" by blast
  let ?s3 = "s2\<lparr>mem := mm\<rparr>"
  have c3: "cache ?dev ?s3 v (R(?b := Suc (R ?b))) {?b}" "slot ?dev (bufs ?s3) j ?b" using s2(3,4) by simp_all
  have cl: "R ?b = 0 \<longrightarrow> v ?b = disk ?s3 ?b" using moved_cache_clean [OF assms(1) quiet_moved [OF q2]] by simp
  obtain s4 where s4: "brelse j ?s3 = Ret () s4" "quiet ?s3 s4" "cache ?dev s4 v R {}"
    by (rule brelse_quiet [OF c3(1) _ c3(2) cl]) simp
  have mem4: "mem s4 = mm" using s4(2) by (simp add: quiet_def)
  have q4: "quiet (s\<lparr>mem := mm\<rparr>) s4" by (rule quiet_trans [OF quiet_mem [OF q2] s4(2)])
  have "readi_loop (Suc f) co i (of_nat t) (of_nat n) (of_nat k) d s =
      readi_loop f co i (of_nat (t + m)) (of_nat n) (of_nat (k + m)) (adv d bs) s4"
    using lt fb s1(1) s2(1,5) s4(1) c(1) bs it by (simp add: w kbind_def kthen_def Let_def)
  moreover have "moved s s4" using moved_trans [OF moved_mem quiet_moved [OF q4]] .
  moreover have "ready s4 (adv d bs) (n - (t + m))" using c(3) quiet_ready [OF s4(2)] by simp
  ultimately show ?thesis using s4(3) c(2) quiet_stored [OF q2] m q4 mem4 by (intro exI [of _ s4]) simp
qed

lemma readi_loop_ok:
  assumes "cache_room R" "n \<le> 274432"
  shows "\<lbrakk>cache (i_dev (itable s ! i)) s v R {}; file_ok v (itable s ! i); t \<le> n; k + (n - t) \<le> unat (i_size (itable s ! i));
      n - t < f; ready s d (n - t)\<rbrakk> \<Longrightarrow>
    \<exists>s'. readi_loop f co i (of_nat t) (of_nat n) (of_nat k) d s =
        Ret (int n, adv d (map (file_byte v (itable s ! i)) [k..<k + (n - t)])) s' \<and>
      moved s s' \<and> cache (i_dev (itable s ! i)) s' v R {} \<and>
      stored s d (map (file_byte v (itable s ! i)) [k..<k + (n - t)]) (mem s')"
proof (induction f arbitrary: s t k d)
  case (Suc f)
  let ?ip = "itable s ! i" and ?bytes = "\<lambda>k n. map (file_byte v (itable s ! i)) [k..<k + n]"
  show ?case
  proof (cases "t = n")
    case True
    have "sint (of_nat n :: u32) = int n"
      using assms(2) by (simp add: signed_of_nat signed_take_bit_int_eq_self)
    then show ?thesis using True Suc.prems(1) by (intro exI [of _ s]) (simp add: kret_def stored_Nil adv)
  next
    case False
    then have tn: "t < n" using Suc.prems(3) by simp
    define m where "m = min (n - t) (BSIZE - k mod BSIZE)"
    obtain s1 where s1: "readi_loop (Suc f) co i (of_nat t) (of_nat n) (of_nat k) d s =
        readi_loop f co i (of_nat (t + m)) (of_nat n) (of_nat (k + m)) (adv d (?bytes k m)) s1"
      "moved s s1" "cache (i_dev ?ip) s1 v R {}" "stored s d (?bytes k m) (mem s1)" "ready s1 (adv d (?bytes k m)) (n - (t + m))"
      "0 < m" "t + m \<le> n" "quiet (s\<lparr>mem := mem s1\<rparr>) s1"
      using read_step [OF Suc.prems(1) assms(1) Suc.prems(2,4) tn assms(2) Suc.prems(6), of f] unfolding m_def by blast
    have it: "itable s1 = itable s" by (rule moved_fs(1) [OF s1(2)])
    have pf: "k + m + (n - (t + m)) \<le> unat (i_size ?ip)" "n - (t + m) < f" using Suc.prems(4,5) s1(6,7) by linarith+
    let ?ys = "?bytes (k + m) (n - (t + m))"
    obtain s2 where s2: "readi_loop f co i (of_nat (t + m)) (of_nat n) (of_nat (k + m)) (adv d (?bytes k m)) s1 =
        Ret (int n, adv (adv d (?bytes k m)) ?ys) s2"
      "moved s1 s2" "cache (i_dev ?ip) s2 v R {}" "stored s1 (adv d (?bytes k m)) ?ys (mem s2)"
      using Suc.IH [of s1 "t + m" "k + m" "adv d (?bytes k m)", unfolded it, OF s1(3) Suc.prems(2) s1(7) pf s1(5)] by blast
    have e: "[k..<k + (n - t)] = [k..<k + m] @ [k + m..<k + m + (n - (t + m))]"
      using s1(7) upt_add_eq_append [of k "k + m" "n - (t + m)"] by (simp add: add.assoc)
    have "stored (s\<lparr>mem := mem s1\<rparr>) (adv d (?bytes k m)) ?ys (mem s2)" using s2(4) unfolding quiet_stored [OF s1(8)] .
    moreover have "length (?bytes k m) + length ?ys = n - t" using s1(7) by simp
    ultimately have "stored s d (?bytes k m @ ?ys) (mem s2)"
      using stored_append [OF _ s1(4)] Suc.prems(6) by metis
    then show ?thesis using s1(1) s2 moved_trans [OF s1(2) s2(2)] unfolding e map_append adv by auto
  qed
qed simp

lemma readi_ok:
  assumes "cache (i_dev (itable s ! i)) s v R {}" "cache_room R" "file_ok v (itable s ! i)"
    and "k \<le> unat (i_size (itable s ! i))" "k + n < 2 ^ 32" "ready s d (min n (unat (i_size (itable s ! i)) - k))"
  defines "bs \<equiv> take n (drop k (file_data v (itable s ! i)))"
  shows "\<exists>s'. readi co i d (of_nat k) (of_nat n) s = Ret (int (length bs), adv d bs) s' \<and>
    moved s s' \<and> cache (i_dev (itable s ! i)) s' v R {} \<and> stored s d bs (mem s')"
proof -
  let ?ip = "itable s ! i" let ?size = "unat (i_size ?ip)"
  define n' where "n' = min n (?size - k)"
  have size: "?size \<le> 274432" using assms(3) by (simp add: file_ok_def)
  have u: "unat (of_nat k :: u32) = k" "unat (of_nat n :: u32) = n" "unat (of_nat k + of_nat n :: u32) = k + n"
    using assms(5) by (simp_all add: unat_of_nat unat_word_ariths)
  have w: "\<not> (of_nat k :: u32) > i_size ?ip" "\<not> (of_nat k + of_nat n :: u32) < of_nat k"
    "(of_nat k + of_nat n :: u32) > i_size ?ip \<longleftrightarrow> k + n > ?size"
    using assms(4) by (simp_all add: word_less_nat_alt u)
  have n: "(if (of_nat k + of_nat n :: u32) > i_size ?ip then i_size ?ip - of_nat k else of_nat n) = of_nat n'"
    "unat (of_nat n' :: u32) = n'"
  proof -
    show un: "unat (of_nat n' :: u32) = n'" using size by (simp add: unat_of_nat n'_def)
    have "unat (i_size ?ip - of_nat k) = ?size - k" using assms(4) by (subst unat_sub) (simp_all add: word_le_nat_alt u)
    then have "k + n > ?size \<Longrightarrow> i_size ?ip - of_nat k = of_nat n'" by (simp add: word_unat_eq_iff un) (simp add: n'_def)
    moreover have "\<not> k + n > ?size \<Longrightarrow> n' = n" by (simp add: n'_def)
    ultimately show "(if (of_nat k + of_nat n :: u32) > i_size ?ip then i_size ?ip - of_nat k else of_nat n) = of_nat n'"
      unfolding w(3) by auto
  qed
  have bs: "bs = map (file_byte v ?ip) [k..<k + n']"
    unfolding bs_def file_data_def drop_map take_map drop_upt using assms(4) by (simp add: take_upt n'_def min_def)
  have "readi co i d (of_nat k) (of_nat n) s = readi_loop (n' + 1) co i (of_nat 0) (of_nat n') (of_nat k) d s"
    unfolding readi_def Let_def n using w(1,2) by simp
  moreover have "n' \<le> 274432" "k + (n' - 0) \<le> ?size" "ready s d (n' - 0)" using size assms(4,6) by (auto simp: n'_def)
  ultimately show ?thesis
    using readi_loop_ok [OF assms(2), of n' s i v 0 k "n' + 1" d] assms(1,3) by (simp add: bs)
qed

end

interpretation cl: copier co_local append local_ready local_stored
  by unfold_locales (auto simp: co_local_def kret_def local_ready_def local_stored_def quiet_def intro: exI [of _ "mem _"])

section \<open>Reading directories\<close>

lemma strncmp_eq:
  "\<lbrakk>n \<le> length p \<or> 0 \<in> set p; n \<le> length q\<rbrakk> \<Longrightarrow> strncmp p q n = Some 0 \<longleftrightarrow> cstr (take n p) = cstr (take n q)"
  by (induction p q n rule: strncmp.induct) (auto simp: word_uint_eq_iff)

lemma read_dirent_ok:
  assumes "cache (i_dev (itable s ! i)) s v R {}" "cache_room R" "file_ok v (itable s ! i)" "16 * k + 16 \<le> unat (i_size (itable s ! i))"
  obtains s1 where "read_dirent i msg (of_nat (16 * k)) s = Ret (decode_dirent (take 16 (drop (16 * k) (file_data v (itable s ! i))))) s1"
    "quiet s s1" "cache (i_dev (itable s ! i)) s1 v R {}"
proof -
  let ?bs = "take 16 (drop (16 * k) (file_data v (itable s ! i)))"
  have "unat (i_size (itable s ! i)) \<le> 274432" using assms(3) by (simp add: file_ok_def)
  then have lt: "16 * k + 16 < 2 ^ 32" using assms(4) by simp
  have l: "length ?bs = 16" using assms(4) by (simp add: file_data_def)
  obtain s1 where s1: "readi co_local i [] (of_nat (16 * k)) (of_nat 16) s = Ret (int (length ?bs), [] @ ?bs) s1"
      "moved s s1" "cache (i_dev (itable s ! i)) s1 v R {}" "local_stored s [] ?bs (mem s1)"
    using cl.readi_ok [OF assms(1-3) _ lt, of "[]"] assms(4) by (auto simp: local_ready_def)
  have "read_dirent i msg (of_nat (16 * k)) s = Ret (decode_dirent ?bs) s1"
    using s1(1) unfolding l by (simp add: read_dirent_def kbind_def kthen_def kguard_def kret_def)
  then show thesis using that s1(2-4) by (simp add: quiet_def local_stored_def)
qed

lemma kbind_Some:
  "kbind (kbind m (\<lambda>x. kret (Some x))) (\<lambda>r. case r of None \<Rightarrow> g | Some a \<Rightarrow> kret (Some a)) = kbind m (\<lambda>x. kret (Some x))"
  by (rule ext) (simp add: kbind_def kret_def split: outcome.split)

lemma dir_scan:
  assumes "cache_room R" "file_ok v ip"
  defines "de \<equiv> \<lambda>k. decode_dirent (take 16 (drop (16 * k) (file_data v ip)))"
  shows "\<lbrakk>list_all (\<lambda>k. 16 * k + 16 \<le> unat (i_size ip)) ks; cache (i_dev ip) s v R {}; itable s ! i = ip\<rbrakk> \<Longrightarrow>
    \<exists>s'. quiet s s' \<and> cache (i_dev ip) s' v R {} \<and>
      kfirst (scan_entry i msg P h) (map (\<lambda>k. of_nat (16 * k)) ks) s =
      (case first_index (\<lambda>k. P (de k)) ks of
         None \<Rightarrow> Ret None s'
       | Some j \<Rightarrow> kbind (h (of_nat (16 * (ks ! j))) (de (ks ! j))) (\<lambda>x. kret (Some x)) s')"
proof (induction ks arbitrary: s)
  case Nil
  then show ?case by (intro exI [of _ s]) (simp add: kret_def)
next
  case (Cons k ks)
  obtain s1 where s1: "read_dirent i msg (of_nat (16 * k)) s = Ret (de k) s1" "quiet s s1" "cache (i_dev ip) s1 v R {}"
    using read_dirent_ok [of s i v R k msg] Cons.prems assms(1,2) unfolding de_def by auto
  have it: "itable s1 ! i = ip" using moved_fs(1) [OF quiet_moved [OF s1(2)]] Cons.prems(3) by simp
  have e: "scan_entry i msg P h (of_nat (16 * k)) s =
      (if P (de k) then kbind (h (of_nat (16 * k)) (de k)) (\<lambda>x. kret (Some x)) s1 else Ret None s1)"
    unfolding scan_entry_def using s1(1) by (simp add: kbind_def [of "read_dirent i msg _"])
  show ?case
  proof (cases "P (de k)")
    case True
    have "kfirst (scan_entry i msg P h) (map (\<lambda>k. of_nat (16 * k)) (k # ks)) s =
        kbind (kbind (h (of_nat (16 * k)) (de k)) (\<lambda>x. kret (Some x)))
          (\<lambda>r. case r of None \<Rightarrow> kfirst (scan_entry i msg P h) (map (\<lambda>k. of_nat (16 * k)) ks) | Some a \<Rightarrow> kret (Some a)) s1"
      using e True by (simp add: kbind_def del: of_nat_mult)
    then show ?thesis using s1(2,3) True unfolding kbind_Some by (intro exI [of _ s1]) simp
  next
    case False
    obtain s2 where s2: "quiet s1 s2" "cache (i_dev ip) s2 v R {}"
      "kfirst (scan_entry i msg P h) (map (\<lambda>k. of_nat (16 * k)) ks) s1 =
       (case first_index (\<lambda>k. P (de k)) ks of None \<Rightarrow> Ret None s2
         | Some j \<Rightarrow> kbind (h (of_nat (16 * (ks ! j))) (de (ks ! j))) (\<lambda>x. kret (Some x)) s2)"
      using Cons.IH [OF _ s1(3) it] Cons.prems(1) by auto
    have "kfirst (scan_entry i msg P h) (map (\<lambda>k. of_nat (16 * k)) (k # ks)) s =
        kfirst (scan_entry i msg P h) (map (\<lambda>k. of_nat (16 * k)) ks) s1"
      using e False by (simp add: kbind_def del: of_nat_mult)
    then show ?thesis using s2 False quiet_trans [OF s1(2) s2(1)]
      by (intro exI [of _ s2], cases "first_index (\<lambda>k. P (de k)) ks") (simp_all del: of_nat_mult first_index_None kfirst.simps)
  qed
qed

lemma dir_offsets_eq:
  assumes "unat sz mod 16 = 0" shows "dir_offsets sz = map (\<lambda>k. of_nat (16 * k)) [0..<unat sz div 16]"
proof -
  obtain q where "unat sz = 16 * q" using assms by (auto simp: mod_eq_0_iff_dvd)
  then have "(unat sz + 15) div 16 = unat sz div 16" by simp
  then show ?thesis by (simp add: dir_offsets_def)
qed

lemma first_index_map: "first_index P (map f xs) = first_index (\<lambda>x. P (f x)) xs"
  by (induction xs) simp_all

lemma upd_inode_sel [simp]:
  "bufs (upd_inode i f s) = bufs s" "disk (upd_inode i f s) = disk s" "cache dev (upd_inode i f s) v R L = cache dev s v R L"
  "itable (upd_inode i f s) = (itable s)[i := f (itable s ! i)]"
  by (simp_all add: upd_inode_def cache_def mypid_def split: option.split)

lemma iget_ok:
  assumes "itable_ok (itable s)" "\<exists>i<length (itable s). i_ref (itable s ! i) = 0 \<or> (i_dev (itable s ! i) = dev \<and> i_inum (itable s ! i) = inum)"
  obtains j g where "iget dev inum s = Ret j (upd_inode j g s)" "j < length (itable s)" "itable_ok (itable (upd_inode j g s))"
    "i_dev (g (itable s ! j)) = dev" "i_inum (g (itable s ! j)) = inum" "i_ref (g (itable s ! j)) = i_ref (itable s ! j) + 1"
    "i_ref (itable s ! j) = 0 \<or> g (itable s ! j) = (itable s ! j)\<lparr>i_ref := i_ref (itable s ! j) + 1\<rparr>"
proof (cases "first_index (\<lambda>ip. i_ref ip > 0 \<and> i_dev ip = dev \<and> i_inum ip = inum) (itable s)")
  case (Some j)
  note j = first_index_SomeD [OF Some]
  let ?g = "\<lambda>ip :: inode. ip\<lparr>i_ref := i_ref ip + 1\<rparr>"
  have "itable_ok (itable (upd_inode j ?g s))"
    using assms(1) j unfolding itable_ok_def by (auto simp: nth_list_update)
  then show thesis using j by (intro that [of j ?g]) (simp_all add: iget_def Some)
next
  case None
  then have no: "\<not> (i_ref (itable s ! i) > 0 \<and> i_dev (itable s ! i) = dev \<and> i_inum (itable s ! i) = inum)" if "i < length (itable s)" for i
    using that by (simp add: all_set_conv_all_nth)
  obtain k where k: "k < length (itable s)"
      "i_ref (itable s ! k) = 0 \<or> (i_dev (itable s ! k) = dev \<and> i_inum (itable s ! k) = inum)" using assms(2) by blast
  moreover have "0 \<le> i_ref (itable s ! k)" using assms(1) k(1) unfolding itable_ok_def by blast
  ultimately have "i_ref (itable s ! k) = 0" using no [OF k(1)] by linarith
  then obtain j where J: "first_index (\<lambda>ip. i_ref ip = 0) (itable s) = Some j"
    using first_index_ex [OF k(1), of "\<lambda>ip. i_ref ip = 0"] by blast
  note j = first_index_SomeD [OF J]
  let ?g = "\<lambda>ip :: inode. ip\<lparr>i_dev := dev, i_inum := inum, i_ref := 1, i_valid := 0\<rparr>"
  have "itable_ok (itable (upd_inode j ?g s))"
    using assms(1) j no unfolding itable_ok_def by (auto simp: nth_list_update)
  then show thesis using j by (intro that [of j ?g]) (simp_all add: iget_def None J)
qed

lemma kbind_kret_Some: "kbind (kbind m (\<lambda>x. kret (f x))) (\<lambda>y. kret (Some y)) = kbind m (\<lambda>x. kret (Some (f x)))"
  by (rule ext) (simp add: kbind_def kret_def split: outcome.split)

lemma dirlookup_scan:
  fixes s :: "'a fs_scheme"
  assumes "i_type (itable s ! dp) = T_DIR"
  shows "dirlookup dp name s = kfirst (scan_entry dp ''dirlookup read''
     (\<lambda>de. de_inum de \<noteq> 0 \<and> namecmp name (de_name de) = Some 0) (dir_hit dp)) (dir_offsets (i_size (itable s ! dp))) s"
proof -
  have "(\<lambda>de (s :: 'a fs_scheme). if de_inum de = 0 then Ret None s
       else if namecmp name (de_name de) = Some 0
       then kbind (iget (i_dev (itable s ! dp)) (ucast (de_inum de))) (\<lambda>ip. kret (Some (ip, off))) s else Ret None s) =
     (\<lambda>de s. if de_inum de \<noteq> 0 \<and> namecmp name (de_name de) = Some 0 then kbind (dir_hit dp off de) (\<lambda>x. kret (Some x)) s else Ret None s)"
    for off :: u32
    unfolding dir_hit_def kbind_kret_Some by (intro ext) (simp add: kbind_def)
  then show ?thesis using assms unfolding dirlookup_def scan_entry_def [abs_def] by simp
qed

lemma first_index_cong: "(\<And>x. x \<in> set xs \<Longrightarrow> P x = Q x) \<Longrightarrow> first_index P xs = first_index Q xs"
  by (induction xs) simp_all

text \<open>
  C38: \<^verbatim>\<open>dirlookup\<close> finds the first entry of that name. For a directory whose blocks are allocated, it returns an in-core inode for
  the entry's inode number with its reference count one higher, and the entry's byte offset; without such an entry it
  returns none and changes no inode. The table keeps one slot per inode, the cache stays correct with no buffer left
  locked or referenced, and the disk is untouched.
\<close>

theorem dirlookup_finds:
  assumes T: "i_type (itable s ! dp) = T_DIR"
    and C: "cache (i_dev (itable s ! dp)) s v R {}" "cache_room R" "file_ok v (itable s ! dp)"
    and D: "unat (i_size (itable s ! dp)) mod 16 = 0" "DIRSIZ \<le> length name \<or> 0 \<in> set name"
    and I: "itable_ok (itable s)" "\<exists>i<length (itable s). i_ref (itable s ! i) = 0"
  shows "case first_index (entry_named name) (dir_entries v (itable s ! dp)) of
      None \<Rightarrow> \<exists>s'. dirlookup dp name s = Ret None s' \<and> itable s' = itable s \<and> disk s' = disk s \<and> cache (i_dev (itable s ! dp)) s' v R {}
    | Some k \<Rightarrow> \<exists>j s'. dirlookup dp name s = Ret (Some (j, of_nat (16 * k))) s' \<and>
        i_dev (itable s' ! j) = i_dev (itable s ! dp) \<and> i_inum (itable s' ! j) = ucast (de_inum (dir_entries v (itable s ! dp) ! k)) \<and>
        i_ref (itable s' ! j) = i_ref (itable s ! j) + 1 \<and> (\<forall>l. l \<noteq> j \<longrightarrow> itable s' ! l = itable s ! l) \<and>
        itable_ok (itable s') \<and> disk s' = disk s \<and> cache (i_dev (itable s ! dp)) s' v R {}"
proof -
  let ?ip = "itable s ! dp"
  let ?n = "unat (i_size ?ip) div 16" and ?de = "\<lambda>k. decode_dirent (take 16 (drop (16 * k) (file_data v ?ip)))"
  let ?P = "\<lambda>de. de_inum de \<noteq> 0 \<and> namecmp name (de_name de) = Some 0"
  have ks: "list_all (\<lambda>k. 16 * k + 16 \<le> unat (i_size ?ip)) [0..<?n]" by (auto simp: list_all_iff)
  have P: "?P (?de k) = entry_named name (?de k)" if "k \<in> set [0..<?n]" for k
  proof -
    have "length (de_name (?de k)) = DIRSIZ" using that by (auto simp: decode_dirent_def file_data_def)
    then show ?thesis using strncmp_eq [OF D(2), of "de_name (?de k)"] by (auto simp: entry_named_def namecmp_def)
  qed
  have fi: "first_index (\<lambda>k. ?P (?de k)) [0..<?n] = first_index (entry_named name) (dir_entries v ?ip)"
    unfolding dir_entries_def first_index_map using P by (rule first_index_cong)
  obtain s1 where s1: "quiet s s1" "cache (i_dev ?ip) s1 v R {}"
      "dirlookup dp name s = (case first_index (entry_named name) (dir_entries v ?ip) of None \<Rightarrow> Ret None s1
         | Some j \<Rightarrow> kbind (dir_hit dp (of_nat (16 * ([0..<?n] ! j))) (?de ([0..<?n] ! j))) (\<lambda>x. kret (Some x)) s1)"
    using dir_scan [OF C(2,3) ks C(1) refl, where P = ?P and h = "dir_hit dp" and msg = "''dirlookup read''"]
    unfolding dirlookup_scan [OF T] dir_offsets_eq [OF D(1)] fi by blast
  note M = moved_fs(1) [OF quiet_moved [OF s1(1)]] movedD(1) [OF quiet_moved [OF s1(1)]]
  show ?thesis
  proof (cases "first_index (entry_named name) (dir_entries v ?ip)")
    case None
    then show ?thesis using s1 M by (auto simp del: first_index_None)
  next
    case (Some k)
    have k: "k < ?n" using first_index_SomeD [OF Some] by (simp add: dir_entries_def)
    then have nk: "[0..<?n] ! k = k" and dk: "dir_entries v ?ip ! k = ?de k" by (simp_all add: dir_entries_def)
    have "\<exists>i<length (itable s1). i_ref (itable s1 ! i) = 0 \<or> (i_dev (itable s1 ! i) = i_dev ?ip \<and> i_inum (itable s1 ! i) = ucast (de_inum (?de k)))"
      using I(2) M(1) by auto
    then obtain j g where j: "iget (i_dev ?ip) (ucast (de_inum (?de k))) s1 = Ret j (upd_inode j g s1)" "j < length (itable s1)"
        "itable_ok (itable (upd_inode j g s1))" "i_dev (g (itable s1 ! j)) = i_dev ?ip"
        "i_inum (g (itable s1 ! j)) = ucast (de_inum (?de k))" "i_ref (g (itable s1 ! j)) = i_ref (itable s1 ! j) + 1"
      using iget_ok [of s1 "i_dev ?ip" "ucast (de_inum (?de k))"] I(1) M(1) by metis
    have "dirlookup dp name s = Ret (Some (j, of_nat (16 * k))) (upd_inode j g s1)"
      using s1(3) j(1) M(1) by (simp add: Some nk dir_hit_def kbind_def kret_def)
    then show ?thesis using j(2-6) M s1(2) dk unfolding Some option.case
      by (intro exI [of _ j] exI [of _ "upd_inode j g s1"]) simp
  qed
qed

lemma cacheb_pid:
  assumes "cacheb dev bs dk pid v R {}" shows "cacheb dev bs dk pid' v R {}"
proof -
  have "buf_ok dev pid v R {} b \<Longrightarrow> buf_ok dev pid' v R {} b" for b by (auto simp: buf_ok_def)
  then show ?thesis using assms unfolding cacheb_def by blast
qed

lemma demo_dir_cache: "cache 1 demo_dir demo_dir_disk (\<lambda>_. 0) {}"
proof -
  let ?b = "boot_bio\<lparr>disk := demo_dir_disk\<rparr>"
  have "\<forall>k\<le>NBUF. blank (bufs ?b ! k)"
    by (simp add: boot_bio_def blank_def zero_buf_def initsleeplock_def nth_replicate del: replicate_Suc)
  then have "cache 1 (binit ?b) demo_dir_disk (\<lambda>_. 0) {}"
    using binit_ok[of ?b 1] by (simp add: boot_bio_def)
  then show ?thesis
    unfolding cache_def by (auto simp: demo_dir_def log.defs bio.defs intro: cacheb_pid)
qed

lemma demo_dir_data: "file_data demo_dir_disk (itable demo_dir ! 0) = demo_dir_bytes"
proof -
  have l: "length demo_dir_bytes = 32" by (simp add: demo_dir_bytes_def)
  show ?thesis
    by (rule nth_equalityI) (simp_all add: file_data_def file_byte_def file_block_def demo_dir_def log.extend_def demo_dir_disk_def l nth_append)
qed

lemma demo_dir_entries: "dir_entries demo_dir_disk (itable demo_dir ! 0) =
    [\<lparr>de_inum = 1, de_name = [46, 0, 0, 0, 0, 0, 0, 0, 0, 0, 0, 0, 0, 0]\<rparr>, \<lparr>de_inum = 7, de_name = [108, 115, 0, 0, 0, 0, 0, 0, 0, 0, 0, 0, 0, 0]\<rparr>]"
proof -
  have n: "unat (i_size (itable demo_dir ! 0)) div 16 = Suc (Suc 0)" by (simp add: demo_dir_def log.extend_def)
  show ?thesis
    unfolding dir_entries_def demo_dir_data n by (simp add: demo_dir_bytes_def decode_dirent_def rd16_def)
qed

theorem dirlookup_finds_witness:
  "\<exists>j s'. dirlookup 0 [108, 115, 0] demo_dir = Ret (Some (j, 16)) s' \<and> i_inum (itable s' ! j) = 7 \<and> disk s' = demo_dir_disk"
proof -
  let ?ip = "itable demo_dir ! 0"
  have sel: "i_type ?ip = T_DIR" "i_dev ?ip = 1" "i_size ?ip = 32" "i_addrs ?ip = 100 # replicate NDIRECT 0"
    by (simp_all add: demo_dir_def log.extend_def)
  have ok: "file_ok demo_dir_disk ?ip"
    unfolding file_ok_def
  proof (intro conjI allI impI)
    fix bn assume "bn * BSIZE < unat (i_size ?ip)"
    then have "bn = 0" using sel(3) by (cases bn) auto
    then show "file_block demo_dir_disk ?ip bn \<noteq> 0" using sel(4) by (simp add: file_block_def)
  qed (simp_all add: sel demo_dir_disk_def demo_dir_bytes_def)
  have t: "itable_ok (itable demo_dir)" "\<exists>i<length (itable demo_dir). i_ref (itable demo_dir ! i) = 0"
    by (auto simp: itable_ok_def demo_dir_def log.extend_def less_Suc_eq intro: exI [of _ 1])
  have e: "first_index (entry_named [108, 115, 0]) (dir_entries demo_dir_disk ?ip) = Some 1"
    unfolding demo_dir_entries by (simp add: entry_named_def)
  have d: "disk demo_dir = demo_dir_disk" by (simp add: demo_dir_def log.extend_def bio.extend_def binit_def Let_def)
  show ?thesis
    using dirlookup_finds [of demo_dir 0 demo_dir_disk "\<lambda>_. 0" "[108, 115, 0]"] sel ok t demo_dir_cache d
    unfolding e unfolding demo_dir_entries by (auto simp: cache_room_def)
qed

end
