(* ===== verification/UserCopy.thy ===== *)
theory UserCopy
  imports Mmap PtTree FsRead
begin

text \<open>
  \<^verbatim>\<open>copyout\<close> and \<^verbatim>\<open>copyin\<close> on user memory that is mapped: what they read and write is the user's memory as the page table
  translates it, page by page, and nothing else changes.
\<close>

unbundle bit_operations_syntax

section \<open>User memory\<close>

text \<open>
  The last-level entry of the page of an address, the physical address of a byte, and the \<open>n\<close> bytes from a virtual address
  on.
\<close>

definition vpage_entry :: "memory \<Rightarrow> u64 \<Rightarrow> u64 \<Rightarrow> u64" where
  "vpage_entry m root va = pt_lookup m root (PGROUNDDOWN va)"

definition upa :: "memory \<Rightarrow> u64 \<Rightarrow> u64 \<Rightarrow> u64" where
  "upa m root va = PTE2PA (vpage_entry m root va) + (va - PGROUNDDOWN va)"

definition user_bytes :: "memory \<Rightarrow> u64 \<Rightarrow> u64 \<Rightarrow> nat \<Rightarrow> u8 list" where
  "user_bytes m root va n = map (\<lambda>k. m (upa m root (va + of_nat k))) [0..<n]"

text \<open>
  A mapped buffer: every page of it is present for the user, and for a write also writable and no page of the page
  table itself; different bytes of it are different bytes of memory.
\<close>

definition user_ok :: "memory \<Rightarrow> u64 \<Rightarrow> u64 \<Rightarrow> bool \<Rightarrow> u64 \<Rightarrow> bool" where
  "user_ok m ke root w va \<longleftrightarrow> (let e = vpage_entry m root va in
     e AND PTE_V \<noteq> 0 \<and> e AND PTE_U \<noteq> 0 \<and> page_ok ke (PTE2PA e) \<and>
     (w \<longrightarrow> e AND PTE_W \<noteq> 0 \<and> PTE2PA e \<notin> pt_pages m root))"

definition user_buf :: "memory \<Rightarrow> u64 \<Rightarrow> u64 \<Rightarrow> bool \<Rightarrow> u64 \<Rightarrow> nat \<Rightarrow> bool" where
  "user_buf m ke root w va n \<longleftrightarrow> pt_tree m ke root \<and> unat va + n \<le> 2 ^ 38 \<and>
     (\<forall>k<n. user_ok m ke root w (va + of_nat k)) \<and>
     (\<forall>j<n. \<forall>k<n. upa m root (va + of_nat j) = upa m root (va + of_nat k) \<longrightarrow> j = k)"

text \<open>
  A memory after the bytes \<open>src\<close> were stored at a virtual address.
\<close>

definition user_store :: "memory \<Rightarrow> u64 \<Rightarrow> u64 \<Rightarrow> u8 list \<Rightarrow> memory \<Rightarrow> bool" where
  "user_store m root va src m' \<longleftrightarrow>
     (\<forall>k<length src. m' (upa m root (va + of_nat k)) = src ! k) \<and>
     (\<forall>a. (\<forall>k<length src. a \<noteq> upa m root (va + of_nat k)) \<longrightarrow> m' a = m a)"

text \<open>
  User memory as the destination of \<^verbatim>\<open>readi\<close>: ready when a buffer of the current process is mapped.
\<close>

definition user_ready :: "'a mm_scheme \<Rightarrow> u64 \<Rightarrow> nat \<Rightarrow> bool" where
  "user_ready s d n \<longleftrightarrow> (case curproc s of None \<Rightarrow> False
     | Some p \<Rightarrow> p < length (procs s) \<and> user_buf (mem s) (kend s) (p_pagetable (procs s ! p)) True d n)"

definition user_stored :: "'a mm_scheme \<Rightarrow> u64 \<Rightarrow> u8 list \<Rightarrow> memory \<Rightarrow> bool" where
  "user_stored s d bs m \<longleftrightarrow> (case curproc s of None \<Rightarrow> bs = [] \<and> m = mem s
     | Some p \<Rightarrow> if p < length (procs s) then user_store (mem s) (p_pagetable (procs s ! p)) d bs m else bs = [] \<and> m = mem s)"

definition user_adv :: "u64 \<Rightarrow> u8 list \<Rightarrow> u64" where
  "user_adv d bs = d + of_nat (length bs)"

text \<open>
  A machine for examples: an empty file system, an empty log and idle pipes.
\<close>

definition demo_mm :: mm where
  "demo_mm = files.extend (fs.extend (log.extend demo_log
       \<lparr>sb = \<lparr>sb_magic = FSMAGIC, sb_size = 2000, sb_nblocks = 1953, sb_ninodes = 200, sb_nlog = 31, sb_logstart = 2, sb_inodestart = 33,
              sb_bmapstart = 46\<rparr>, itable = []\<rparr>)
       \<lparr>ftable = [], pipes = (\<lambda>_. \<lparr>pi_data = replicate PIPESIZE 5, pi_nread = 0, pi_nwrite = 0, pi_readopen = True, pi_writeopen = True\<rparr>)\<rparr>)
     \<lparr>mmaptable = []\<rparr>"

section \<open>Translating a buffer\<close>

lemma round_chunk:
  assumes "unat va + n \<le> 2 ^ 38" "k < n" "k < 4096 - unat (va - PGROUNDDOWN va)"
  shows "PGROUNDDOWN (va + of_nat k) = PGROUNDDOWN va"
    "va + of_nat k - PGROUNDDOWN va = va - PGROUNDDOWN va + of_nat k"
proof -
  have o: "unat (va - PGROUNDDOWN va) = unat va mod 4096"
    using unat_sub [OF PGROUNDDOWN_le [of va]] by (simp add: unat_PGROUNDDOWN minus_div_mult_eq_mod)
  have u: "unat (va + of_nat k) = unat va + k" by (rule unat_plus_nat) (use assms in simp)
  have "(unat va + k) div 4096 = unat va div 4096"
  proof -
    have "unat va + k = unat va div 4096 * 4096 + (unat va mod 4096 + k)" by simp
    moreover have "unat va mod 4096 + k < 4096" using assms(3) o by simp
    ultimately show ?thesis by (metis div_nat_eqI le_add1 nat_add_left_cancel_less mult.commute mult_Suc_right add.commute)
  qed
  then show "PGROUNDDOWN (va + of_nat k) = PGROUNDDOWN va"
    by (simp add: word_unat_eq_iff unat_PGROUNDDOWN u)
  show "va + of_nat k - PGROUNDDOWN va = va - PGROUNDDOWN va + of_nat k" by simp
qed

lemma chunk_next:
  assumes "unat va + len \<le> 2 ^ 38"
  defines "n \<equiv> min (unat (PGSIZE - (va - PGROUNDDOWN va))) len"
  shows "n < len \<Longrightarrow> PGROUNDDOWN va + PGSIZE = va + of_nat n" "0 < len \<Longrightarrow> 0 < n"
    "n \<le> len" "n \<le> 4096 - unat (va - PGROUNDDOWN va)" "unat (va - PGROUNDDOWN va) < 4096"
proof -
  have o: "unat (va - PGROUNDDOWN va) = unat va mod 4096"
    using unat_sub [OF PGROUNDDOWN_le [of va]] by (simp add: unat_PGROUNDDOWN minus_div_mult_eq_mod)
  then show l: "unat (va - PGROUNDDOWN va) < 4096" by simp
  have s: "unat (PGSIZE - (va - PGROUNDDOWN va)) = 4096 - unat (va - PGROUNDDOWN va)"
    by (subst unat_sub) (use l in \<open>simp_all add: word_le_nat_alt\<close>)
  show "0 < len \<Longrightarrow> 0 < n" "n \<le> len" "n \<le> 4096 - unat (va - PGROUNDDOWN va)" using l unfolding n_def s by auto
  assume "n < len"
  then have "n = unat (PGSIZE - (va - PGROUNDDOWN va))" unfolding n_def by auto
  then have "va + of_nat n = va + (PGSIZE - (va - PGROUNDDOWN va))" by simp
  then show "PGROUNDDOWN va + PGSIZE = va + of_nat n" by simp
qed

lemma length_user_bytes: "length (user_bytes m root va n) = n"
  by (simp add: user_bytes_def)

lemma user_bytes_append: "user_bytes m root va (a + b) = user_bytes m root va a @ user_bytes m root (va + of_nat a) b"
  by (rule nth_equalityI) (auto simp: user_bytes_def nth_append algebra_simps)

lemma upa_chunk:
  assumes "unat va + n \<le> 2 ^ 38" "k < n" "k < 4096 - unat (va - PGROUNDDOWN va)"
  shows "upa m root (va + of_nat k) = PTE2PA (vpage_entry m root va) + (va - PGROUNDDOWN va) + of_nat k"
  using round_chunk [OF assms] by (simp add: upa_def vpage_entry_def)

lemma user_bufD:
  assumes "user_buf m ke root w va n"
  shows "pt_tree m ke root" "unat va + n \<le> 2 ^ 38" "k < n \<Longrightarrow> user_ok m ke root w (va + of_nat k)"
    "\<lbrakk>j < n; k < n; upa m root (va + of_nat j) = upa m root (va + of_nat k)\<rbrakk> \<Longrightarrow> j = k"
  using assms unfolding user_buf_def by blast+

lemma user_buf_read: "user_buf m ke root True va n \<Longrightarrow> user_buf m ke root False va n"
  by (simp add: user_buf_def user_ok_def Let_def)

lemma user_buf_take:
  assumes "user_buf m ke root w va n" "k \<le> n" shows "user_buf m ke root w va k"
  using assms unfolding user_buf_def by auto

lemma user_buf_drop:
  assumes "user_buf m ke root w va (a + b)" shows "user_buf m ke root w (va + of_nat a) b"
proof -
  note D = user_bufD [OF assms]
  have e: "va + of_nat a + of_nat k = va + of_nat (a + k)" for k by simp
  have "unat (va + of_nat a) \<le> unat va + a" 
    using D(2) by (cases "unat va + a < 2 ^ 64") (simp_all add: unat_plus_nat)
  then show ?thesis unfolding user_buf_def e using D(1,2) D(3) [of "a + _"] D(4) [of "a + _" "a + _"] by auto
qed

lemma walkaddr_user:
  assumes "user_buf (mem s) ke root w va n" "0 < n"
  shows "walkaddr root (PGROUNDDOWN va) s = Ret (PTE2PA (vpage_entry (mem s) root va)) s"
    "PTE2PA (vpage_entry (mem s) root va) \<noteq> 0" "PGROUNDDOWN va < MAXVA"
    "walk root (PGROUNDDOWN va) False s = Ret (leaf_addr (mem s) root (PGROUNDDOWN va)) s"
    "ld64 (mem s) (leaf_addr (mem s) root (PGROUNDDOWN va)) = vpage_entry (mem s) root va"
proof -
  note D = user_bufD [OF assms(1)]
  have u: "user_ok (mem s) ke root w va" using D(3) [OF assms(2)] by simp
  show m: "PGROUNDDOWN va < MAXVA"
    using le_less_trans [OF PGROUNDDOWN_le [of va], of MAXVA] D(2) assms(2) by (simp add: word_less_nat_alt)
  show "walkaddr root (PGROUNDDOWN va) s = Ret (PTE2PA (vpage_entry (mem s) root va)) s"
    using u m by (simp add: walkaddr_eq [OF D(1)] user_ok_def Let_def vpage_entry_def)
  show "PTE2PA (vpage_entry (mem s) root va) \<noteq> 0"
    using u page_okD(2) [OF _ pt_treeD(1) [OF D(1)]] by (auto simp: user_ok_def Let_def)
  show "walk root (PGROUNDDOWN va) False s = Ret (leaf_addr (mem s) root (PGROUNDDOWN va)) s"
    by (rule walk_no_alloc [OF m])
  have "leaf_addr (mem s) root (PGROUNDDOWN va) \<noteq> 0"
    using u pt_lookup_no_table [OF _ D(1), of "PGROUNDDOWN va"] by (auto simp: user_ok_def Let_def vpage_entry_def)
  then show "ld64 (mem s) (leaf_addr (mem s) root (PGROUNDDOWN va)) = vpage_entry (mem s) root va"
    by (simp add: leaf_addr_lookup vpage_entry_def)
qed

lemma copy_page_user:
  assumes "user_buf (mem s) ke root w va n" "0 < n"
  shows "copy_page root (PGROUNDDOWN va) rd s = Ret (PTE2PA (vpage_entry (mem s) root va)) s"
  using walkaddr_user(1,2) [OF assms] by (simp add: copy_page_def kbind_def kret_def)

section \<open>Copying in\<close>

lemma rdbytes_chunk:
  assumes "unat va + len \<le> 2 ^ 38" "n \<le> len" "n \<le> 4096 - unat (va - PGROUNDDOWN va)"
  shows "rdbytes m (PTE2PA (vpage_entry m root va) + (va - PGROUNDDOWN va)) n = user_bytes m root va n"
  by (rule nth_equalityI) (use assms in \<open>simp_all add: user_bytes_def upa_chunk [of va len]\<close>)

lemma copyin_loop_user:
  "\<lbrakk>user_buf (mem s) ke root w va len; len \<le> k\<rbrakk> \<Longrightarrow>
     copyin_loop k root va len dst s = Ret (dst @ user_bytes (mem s) root va len, 0) s"
proof (induction k arbitrary: va len dst)
  case 0
  then show ?case by (simp add: kret_def user_bytes_def)
next
  case (Suc k)
  show ?case
  proof (cases "len = 0")
    case False
    let ?n = "min (unat (PGSIZE - (va - PGROUNDDOWN va))) len"
    note D = user_bufD [OF Suc.prems(1)]
    note C = chunk_next [OF D(2)]
    have b: "user_buf (mem s) ke root w (va + of_nat ?n) (len - ?n)"
      using Suc.prems(1) C(3) by (intro user_buf_drop) simp
    have "copyin_loop (Suc k) root va len dst s =
        copyin_loop k root (PGROUNDDOWN va + PGSIZE) (len - ?n) (dst @ user_bytes (mem s) root va ?n) s"
      using copy_page_user [OF Suc.prems(1)] walkaddr_user(2) [OF Suc.prems(1)] False
        rdbytes_chunk [OF D(2) C(3,4), of "mem s" root]
      by (simp add: kbind_def kget_def Let_def)
    also have "\<dots> = Ret (dst @ user_bytes (mem s) root va len, 0) s"
    proof (cases "?n < len")
      case True
      show ?thesis unfolding C(1) [OF True]
        using Suc.IH [OF b] C(2) False Suc.prems(2) user_bytes_append [of "mem s" root va ?n "len - ?n"] C(3) by simp
    next
      case False
      then have "len - ?n = 0" "?n = len" by auto
      then show ?thesis by (cases k) (simp_all add: kret_def)
    qed
    finally show ?thesis .
  qed (simp add: kret_def user_bytes_def)
qed

lemma copyin_user:
  "user_buf (mem s) ke root w va len \<Longrightarrow> copyin root va len s = Ret (user_bytes (mem s) root va len, 0) s"
  by (simp add: copyin_def copyin_loop_user)

section \<open>Copying out\<close>

lemma user_storeD:
  assumes "user_store m root va src m'"
  shows "k < length src \<Longrightarrow> m' (upa m root (va + of_nat k)) = src ! k"
    "(\<And>k. k < length src \<Longrightarrow> a \<noteq> upa m root (va + of_nat k)) \<Longrightarrow> m' a = m a"
  using assms unfolding user_store_def by blast+

lemma page_of_upa:
  assumes "user_ok m ke root w va" "KERNBASE \<le> ke"
  shows "page_of (upa m root va) = page_of (PTE2PA (vpage_entry m root va))"
proof -
  have "pg_aligned (PTE2PA (vpage_entry m root va))" using assms page_okD(1) by (auto simp: user_ok_def Let_def)
  moreover have "unat (va - PGROUNDDOWN va) < 4096"
    using unat_sub [OF PGROUNDDOWN_le [of va]] by (simp add: unat_PGROUNDDOWN minus_div_mult_eq_mod)
  ultimately show ?thesis
    using page_of_offset [of "PTE2PA (vpage_entry m root va)" "unat (va - PGROUNDDOWN va)"] by (simp add: upa_def)
qed

lemma user_store_tables:
  assumes B: "user_buf m ke root True va (length src)" and S: "user_store m root va src m'"
  shows "pt_tree m' ke root" "pt_pages m' root = pt_pages m root" "vpage_entry m' root x = vpage_entry m root x"
    "upa m' root x = upa m root x" "user_ok m' ke root w x = user_ok m ke root w x"
    "user_buf m' ke root w x n = user_buf m ke root w x n"
proof -
  note D = user_bufD [OF B]
  have "m' a = m a" if p: "p \<in> pt_pages m root" "page_of a = page_of p" for p a
  proof (rule user_storeD(2) [OF S])
    fix k assume k: "k < length src"
    have u: "user_ok m ke root True (va + of_nat k)" by (rule D(3) [OF k])
    then have f: "PTE2PA (vpage_entry m root (va + of_nat k)) \<noteq> p" "pg_aligned (PTE2PA (vpage_entry m root (va + of_nat k)))"
      using p page_okD(1) [OF _ pt_treeD(1) [OF D(1)]] by (auto simp: user_ok_def Let_def)
    then have "page_of (PTE2PA (vpage_entry m root (va + of_nat k))) \<noteq> page_of p"
      using page_of_inj [OF f(2) pt_page_aligned [OF D(1) p(1)]] by blast
    then show "a \<noteq> upa m root (va + of_nat k)" using page_of_upa [OF u pt_treeD(1) [OF D(1)]] p(2) by auto
  qed
  note F = pt_frame [OF D(1) this]
  show "pt_tree m' ke root" "pt_pages m' root = pt_pages m root" using F by auto
  show v: "vpage_entry m' root x = vpage_entry m root x" for x using F(3) by (simp add: vpage_entry_def)
  show u: "upa m' root x = upa m root x" for x using v by (simp add: upa_def)
  show o: "user_ok m' ke root w x = user_ok m ke root w x" for w x by (simp add: user_ok_def v F(1))
  show "user_buf m' ke root w x n = user_buf m ke root w x n"
    using F(2) D(1) by (simp add: user_buf_def u o)
qed

lemma wrbytes_cases:
  assumes "length bs \<le> 4096"
  shows "k < length bs \<Longrightarrow> wrbytes m b bs (b + of_nat k) = bs ! k"
    "(\<And>k. k < length bs \<Longrightarrow> a \<noteq> b + of_nat k) \<Longrightarrow> wrbytes m b bs a = m a"
proof -
  show "k < length bs \<Longrightarrow> wrbytes m b bs (b + of_nat k) = bs ! k"
    using assms by (simp add: wrbytes_def unat_of_nat)
  assume n: "\<And>k. k < length bs \<Longrightarrow> a \<noteq> b + of_nat k"
  have "\<not> unat (a - b) < length bs" using n [of "unat (a - b)"] by auto
  then show "wrbytes m b bs a = m a" by (simp add: wrbytes_def)
qed

lemma user_store_chunk:
  assumes "unat va + len \<le> 2 ^ 38" "length bs \<le> len" "length bs \<le> 4096 - unat (va - PGROUNDDOWN va)"
  shows "user_store m root va bs (wrbytes m (PTE2PA (vpage_entry m root va) + (va - PGROUNDDOWN va)) bs)"
proof -
  have l: "length bs \<le> 4096" using assms(3) by simp
  have u: "upa m root (va + of_nat k) = PTE2PA (vpage_entry m root va) + (va - PGROUNDDOWN va) + of_nat k"
    if "k < length bs" for k by (rule upa_chunk [OF assms(1)]) (use that assms in auto)
  show ?thesis unfolding user_store_def using wrbytes_cases [OF l] by (simp add: u)
qed

lemma user_store_append:
  assumes B: "user_buf m ke root True va (length xs + length ys)"
    and X: "user_store m root va xs m1" and Y: "user_store m1 root (va + of_nat (length xs)) ys m2"
  shows "user_store m root va (xs @ ys) m2"
proof -
  have "user_buf m ke root True va (length xs)" 
    using B user_bufD [OF B] unfolding user_buf_def by auto
  note T = user_store_tables(4) [OF this X]
  note D = user_bufD [OF B]
  have e: "va + of_nat (length xs) + of_nat k = va + of_nat (length xs + k)" for k by simp
  note Y1 = user_storeD(1) [OF Y, unfolded T e] and Y2 = user_storeD(2) [OF Y, unfolded T e]
  show ?thesis unfolding user_store_def
  proof (intro conjI allI impI)
    fix k assume k: "k < length (xs @ ys)"
    show "m2 (upa m root (va + of_nat k)) = (xs @ ys) ! k"
    proof (cases "k < length xs")
      case True
      have "m2 (upa m root (va + of_nat k)) = m1 (upa m root (va + of_nat k))"
      proof (rule Y2)
        fix j assume "j < length ys"
        then show "upa m root (va + of_nat k) \<noteq> upa m root (va + of_nat (length xs + j))"
          using D(4) [of k "length xs + j"] k True by auto
      qed
      then show ?thesis using user_storeD(1) [OF X True] True by (simp add: nth_append)
    next
      case False
      then show ?thesis using Y1 [of "k - length xs"] k by (simp add: nth_append)
    qed
  next
    fix a assume a: "\<forall>k<length (xs @ ys). a \<noteq> upa m root (va + of_nat k)"
    have "m2 a = m1 a" by (rule Y2) (use a in \<open>simp del: of_nat_add\<close>)
    also have "\<dots> = m a" by (rule user_storeD(2) [OF X]) (use a in simp)
    finally show "m2 a = m a" .
  qed
qed

lemma copyout_loop_user:
  "\<lbrakk>user_buf (mem s) ke root True va (length src); length src \<le> k\<rbrakk> \<Longrightarrow>
     \<exists>m'. copyout_loop k root va src s = Ret 0 (s\<lparr>mem := m'\<rparr>) \<and> user_store (mem s) root va src m'"
proof (induction k arbitrary: s va src)
  case 0
  then show ?case by (intro exI [of _ "mem s"]) (simp add: kret_def user_store_def)
next
  case (Suc k)
  show ?case
  proof (cases "src = []")
    case False
    let ?n = "min (unat (PGSIZE - (va - PGROUNDDOWN va))) (length src)"
    let ?m = "wrbytes (mem s) (PTE2PA (vpage_entry (mem s) root va) + (va - PGROUNDDOWN va)) (take ?n src)"
    note D = user_bufD [OF Suc.prems(1)]
    note C = chunk_next [OF D(2)]
    have l: "0 < length src" using False by simp
    note W = walkaddr_user [OF Suc.prems(1) l]
    have w: "vpage_entry (mem s) root va AND PTE_W \<noteq> 0" using D(3) [OF l] by (simp add: user_ok_def Let_def)
    have st: "user_store (mem s) root va (take ?n src) ?m"
      by (rule user_store_chunk [OF D(2)]) (use C(4) in simp_all)
    have sp: "length (take ?n src) + length (drop ?n src) = length src" by simp
    have "user_buf (mem s) ke root True va (length (take ?n src))"
      using Suc.prems(1) D unfolding user_buf_def by auto
    note T = user_store_tables [OF this st]
    have b: "user_buf ?m ke root True (va + of_nat ?n) (length (drop ?n src))"
      unfolding T(6) by (rule user_buf_drop) (use Suc.prems(1) in simp)
    have e: "copyout_loop (Suc k) root va src s =
        copyout_loop k root (PGROUNDDOWN va + PGSIZE) (drop ?n src) (s\<lparr>mem := ?m\<rparr>)"
      using copy_page_user [OF Suc.prems(1) l] W w False
      by (simp add: kbind_def kthen_def kmod_def Let_def upd_mem_def linorder_not_le [symmetric])
    have "length src - ?n \<le> k" using C(2) [OF l] Suc.prems(2) by linarith
    then have lk: "length (drop ?n src) \<le> k" by simp
    show ?thesis
    proof (cases "?n < length src")
      case True
      obtain m' where m': "copyout_loop k root (va + of_nat ?n) (drop ?n src) (s\<lparr>mem := ?m\<rparr>) = Ret 0 (s\<lparr>mem := m'\<rparr>)"
          "user_store ?m root (va + of_nat ?n) (drop ?n src) m'"
        using Suc.IH [of "s\<lparr>mem := ?m\<rparr>" "va + of_nat ?n" "drop ?n src"] b lk by auto
      have "user_store (mem s) root va (take ?n src @ drop ?n src) m'"
        by (rule user_store_append [OF _ st]) (use Suc.prems(1) m'(2) in \<open>simp_all add: sp\<close>)
      then show ?thesis using m'(1) unfolding e C(1) [OF True] by auto
    next
      case False
      then have "drop ?n src = []" "take ?n src = src" by auto
      then show ?thesis using st unfolding e by (cases k) (auto simp: kret_def)
    qed
  qed (intro exI [of _ "mem s"], simp add: kret_def user_store_def)
qed

lemma copyout_user:
  "user_buf (mem s) ke root True va (length src) \<Longrightarrow>
     \<exists>m'. copyout root va src s = Ret 0 (s\<lparr>mem := m'\<rparr>) \<and> user_store (mem s) root va src m'"
  by (simp add: copyout_def copyout_loop_user)

lemma user_bytes_store:
  assumes "user_buf m ke root True va (length src)" "user_store m root va src m'"
  shows "user_bytes m' root va (length src) = src"
  by (rule nth_equalityI)
    (use user_storeD(1) [OF assms(2)] in \<open>simp_all add: user_bytes_def user_store_tables(4) [OF assms]\<close>)

text \<open>
  C36: What the kernel copies to a mapped, writable user buffer with \<^verbatim>\<open>copyout\<close>, \<^verbatim>\<open>copyin\<close> from the same address reads back,
  for every length and alignment and across page boundaries, and no byte of physical memory outside the buffer's pages'
  images changes; in particular the page table and the allocator are untouched.
\<close>

theorem copyout_copyin:
  assumes "user_buf (mem s) ke root True va (length src)"
  shows "\<exists>m'. copyout root va src s = Ret 0 (s\<lparr>mem := m'\<rparr>) \<and>
     copyin root va (length src) (s\<lparr>mem := m'\<rparr>) = Ret (src, 0) (s\<lparr>mem := m'\<rparr>) \<and>
     (\<forall>a. (\<forall>k<length src. a \<noteq> upa (mem s) root (va + of_nat k)) \<longrightarrow> m' a = mem s a)"
proof -
  obtain m' where m': "copyout root va src s = Ret 0 (s\<lparr>mem := m'\<rparr>)" "user_store (mem s) root va src m'"
    using copyout_user [OF assms] by blast
  have b: "user_buf (mem (s\<lparr>mem := m'\<rparr>)) ke root True va (length src)"
    using user_store_tables(6) [OF assms m'(2)] assms by simp
  have "copyin root va (length src) (s\<lparr>mem := m'\<rparr>) = Ret (src, 0) (s\<lparr>mem := m'\<rparr>)"
    unfolding copyin_user [OF b]
    using user_bytes_store [OF assms m'(2)] by simp
  then show ?thesis using m' user_storeD(2) [OF m'(2)] by blast
qed

lemma demo_user_buf: "\<exists>m ke. user_buf m ke 0x87FFF000 True 0 4096"
proof -
  obtain s :: kmem and ys where s: "pt_inv s 0x87FFF000 ys" "length ys = 5" "\<forall>va. pt_lookup (mem s) 0x87FFF000 va = 0"
     "refs s 0x87FFE000 = 1" "0x87FFE000 \<notin> pt_pages (mem s) 0x87FFF000" using demo_space by blast
  let ?e = "PA2PTE 0x87FFE000 OR (PTE_R OR PTE_W OR PTE_U) OR PTE_V :: u64"
  obtain s' xs' where s': "pt_chg 0x87FFF000 s ys s' xs' ((pt_lookup (mem s) 0x87FFF000)(0 := ?e))"
    using mappages_one [OF s(1), where va = 0 and pa = "0x87FFE000" and perm = "PTE_R OR PTE_W OR PTE_U"] s(2,3)
    by (auto simp: pg_aligned_def)
  note D = pt_chgD [OF s']
  obtain zs where zs: "ys = zs @ xs'" "pt_pages (mem s') 0x87FFF000 = set zs \<union> pt_pages (mem s) 0x87FFF000" using D(2) by blast
  have "0x87FFE000 \<notin> set ys" using ka.inv_free [OF pt_invD(1) [OF s(1)]] s(4) by auto
  then have np: "0x87FFE000 \<notin> pt_pages (mem s') 0x87FFF000" using zs s(5) by auto
  have lk: "pt_lookup (mem s') 0x87FFF000 0 = ?e" using D(3) [of 0] by (simp add: pg_aligned_def)
  have e: "PTE2PA ?e = 0x87FFE000" "?e AND PTE_V \<noteq> 0" "?e AND PTE_U \<noteq> 0" "?e AND PTE_W \<noteq> 0"
    by (simp_all add: PTE2PA_def PA2PTE_def)
  have r: "PGROUNDDOWN (of_nat k) = 0" "unat (of_nat k :: u64) = k" if "k < 4096" for k
    using that by (simp_all add: word_unat_eq_iff unat_PGROUNDDOWN unat_of_nat)
  have ve: "vpage_entry (mem s') 0x87FFF000 (of_nat k) = ?e" if "k < 4096" for k
    using r(1) [OF that] lk by (simp add: vpage_entry_def)
  have up: "upa (mem s') 0x87FFF000 (of_nat k) = 0x87FFE000 + of_nat k" if "k < 4096" for k
    unfolding upa_def ve [OF that] e(1) using r(1) [OF that] by simp
  have "kend s' = kend s" using D(5) by auto
  then have ok: "page_ok (kend s') 0x87FFE000" using s(4) by (simp add: refs_def split: if_splits)
  have "user_ok (mem s') (kend s') 0x87FFF000 True (of_nat k)" if "k < 4096" for k
    unfolding user_ok_def Let_def ve [OF that] e(1) using e np ok by blast
  moreover have "j = k" if "j < 4096" "k < 4096" "upa (mem s') 0x87FFF000 (of_nat j) = upa (mem s') 0x87FFF000 (of_nat k)" for j k
  proof -
    have "(of_nat j :: u64) = of_nat k" using that(3) unfolding up [OF that(1)] up [OF that(2)] by simp
    then show ?thesis using r(2) that by metis
  qed
  ultimately have "user_buf (mem s') (kend s') 0x87FFF000 True 0 4096"
    using pt_invD(2) [OF D(1)] unfolding user_buf_def by simp
  then show ?thesis by blast
qed

theorem copyout_copyin_witness:
  "\<exists>m m'. copyout 0x87FFF000 1 [10, 20, 30] (demo_mm\<lparr>mem := m\<rparr>) = Ret 0 (demo_mm\<lparr>mem := m'\<rparr>) \<and>
     copyin 0x87FFF000 1 3 (demo_mm\<lparr>mem := m'\<rparr>) = Ret ([10, 20, 30], 0) (demo_mm\<lparr>mem := m'\<rparr>)"
proof -
  obtain m ke where "user_buf m ke 0x87FFF000 True 0 4096" using demo_user_buf by blast
  then have "user_buf m ke 0x87FFF000 True (0 + of_nat 1) 3"
    by (intro user_buf_drop user_buf_take [of m ke "0x87FFF000" True 0 4096 "1 + 3"]) simp_all
  moreover have l: "length [10, 20, 30 :: u8] = 3" by simp
  ultimately have "user_buf (mem (demo_mm\<lparr>mem := m\<rparr>)) ke 0x87FFF000 True 1 (length [10, 20, 30 :: u8])"
    unfolding l by simp
  from copyout_copyin [OF this, unfolded l] show ?thesis by auto
qed

section \<open>User memory as a destination\<close>

lemma moved_kend: "moved s t \<Longrightarrow> kend t = kend s"
  unfolding moved_def by auto

lemma quiet_user:
  assumes "quiet s t"
  shows "user_ready t d n = user_ready s d n" "user_stored t d bs m = user_stored s d bs m"
proof -
  note M = movedD [OF quiet_moved [OF assms]]
  have "p_pagetable (procs t ! p) = p_pagetable (procs s ! p)" if "p < length (procs s)" for p
    by (rule pcore_field(2) [OF M(4) [OF that]])
  then show "user_ready t d n = user_ready s d n" "user_stored t d bs m = user_stored s d bs m"
    using M(2,3) assms moved_kend [OF quiet_moved [OF assms]]
    by (auto simp: user_ready_def user_stored_def quiet_def split: option.splits)
qed

lemma user_store_Nil: "user_store m root va [] m"
  by (simp add: user_store_def)

interpretation cu: copier co_user user_adv user_ready user_stored
proof
  fix s :: "'a mm_scheme" and d and bs :: "u8 list" and n
  assume r: "user_ready s d (length bs + n)"
  then obtain p where p: "curproc s = Some p" "p < length (procs s)"
      and b: "user_buf (mem s) (kend s) (p_pagetable (procs s ! p)) True d (length bs + n)"
    by (auto simp: user_ready_def split: option.splits)
  have b': "user_buf (mem s) (kend s) (p_pagetable (procs s ! p)) True d (length bs)"
    by (rule user_buf_take [OF b]) simp
  obtain m where m: "copyout (p_pagetable (procs s ! p)) d bs s = Ret 0 (s\<lparr>mem := m\<rparr>)"
      "user_store (mem s) (p_pagetable (procs s ! p)) d bs m"
    using copyout_user [OF b'] by blast
  have "user_buf m (kend s) (p_pagetable (procs s ! p)) True (d + of_nat (length bs)) n"
    using user_buf_drop [OF b] unfolding user_store_tables(6) [OF b' m(2)] .
  then show "\<exists>m. co_user d bs s = Ret (Some (user_adv d bs)) (s\<lparr>mem := m\<rparr>) \<and> user_stored s d bs m \<and>
      user_ready (s\<lparr>mem := m\<rparr>) (user_adv d bs) n"
    using p m by (intro exI [of _ m])
      (simp add: co_user_def kcur_def knonnull_def kbind_def kret_def user_adv_def user_ready_def user_stored_def)
next
  fix s :: "'a mm_scheme" and d and xs ys :: "u8 list" and m m'
  assume "user_ready s d (length xs + length ys)" "user_stored s d xs m" "user_stored (s\<lparr>mem := m\<rparr>) (user_adv d xs) ys m'"
  then show "user_stored s d (xs @ ys) m'"
    by (auto simp: user_ready_def user_stored_def user_adv_def split: option.splits intro: user_store_append)
next
  fix s t :: "'a mm_scheme" and d n bs m
  assume "quiet s t"
  then show "user_ready t d n = user_ready s d n" "user_stored t d bs m = user_stored s d bs m" by (rule quiet_user)+
next
  fix s :: "'a mm_scheme" and d xs ys
  show "user_stored s d [] (mem s)" by (simp add: user_stored_def user_store_Nil split: option.splits)
  show "user_adv d [] = d" "user_adv (user_adv d xs) ys = user_adv d (xs @ ys)" by (simp_all add: user_adv_def)
qed

end
