(* ===== verification/Printf.thy ===== *)
theory Printf
  imports Riscv
begin

text \<open>
  Formatted output: \<^verbatim>\<open>kernel/printf.c\<close> and \<^verbatim>\<open>user/printf.c\<close>.

  Printing is the list of the bytes it sends to the console or to the file. A call's variable arguments are the list
  \<open>ap\<close>: a 64-bit argument slot, or a pointer to a string; \<^const>\<open>None\<close> is a \<^verbatim>\<open>va_arg\<close> that finds no argument of its
  kind, and a store behind the end of \<^verbatim>\<open>printint\<close>'s buffer. A format is the characters of its string without the
  final NUL.
\<close>

section \<open>Characters\<close>

definition ascii :: "string \<Rightarrow> u8 list" where
  "ascii s = map of_char s"

definition chr :: "char \<Rightarrow> u8" where
  "chr c = of_char c"

abbreviation (input) BACKSPACE :: int where "BACKSPACE \<equiv> 0x100"

text \<open>What \<^verbatim>\<open>consputc\<close> sends to the UART.\<close>

definition consputc :: "int \<Rightarrow> u8 list" where
  "consputc c = (if c = BACKSPACE then [8, 32, 8] else [word_of_int c])"

section \<open>Numbers\<close>

definition digits_lower :: "u8 list" where
  "digits_lower = ascii ''0123456789abcdef''"

definition digits_upper :: "u8 list" where
  "digits_upper = ascii ''0123456789ABCDEF''"

text \<open>
  The \<^verbatim>\<open>do\<close> loop of \<^verbatim>\<open>printint\<close>, which fills the buffer from the least significant digit; \<open>room\<close> is what is left of
  the buffer.
\<close>

primrec printint_digits :: "nat \<Rightarrow> u8 list \<Rightarrow> u64 \<Rightarrow> nat \<Rightarrow> u8 list option" where
  "printint_digits 0 digits x base = None"
| "printint_digits (Suc room) digits x base =
     (let c = digits ! (unat x mod base); x = x div of_nat base
      in if x \<noteq> 0 then map_option ((#) c) (printint_digits room digits x base) else Some [c])"

abbreviation (input) PRINTBUF :: nat where "PRINTBUF \<equiv> 20"

definition printint :: "u8 list \<Rightarrow> u64 \<Rightarrow> nat \<Rightarrow> bool \<Rightarrow> u8 list option" where
  "printint digits xx base sign =
     (let neg = (sign \<and> sint xx < 0); x = (if neg then - xx else xx)
      in case printint_digits PRINTBUF digits x base of
           None \<Rightarrow> None
         | Some buf \<Rightarrow> let buf = (if neg then buf @ [chr CHR ''-''] else buf)
             in if length buf \<le> PRINTBUF then Some (rev buf) else None)"

primrec printptr_digits :: "nat \<Rightarrow> u8 list \<Rightarrow> u64 \<Rightarrow> u8 list" where
  "printptr_digits 0 digits x = []"
| "printptr_digits (Suc n) digits x = digits ! unat (drop_bit 60 x) # printptr_digits n digits (push_bit 4 x)"

definition printptr :: "u8 list \<Rightarrow> u64 \<Rightarrow> u8 list" where
  "printptr digits x = ascii ''0x'' @ printptr_digits 16 digits x"

section \<open>Formats\<close>

datatype parg = PW u64 | PS "u8 list"

datatype conv = ConvInt nat nat bool | ConvPtr | ConvChar | ConvStr | ConvPercent | ConvUnknown u8

text \<open>
  The chain of tests on the characters \<^verbatim>\<open>c0\<close>, \<^verbatim>\<open>c1\<close>, \<^verbatim>\<open>c2\<close> behind a \<^verbatim>\<open>%\<close>: the conversion, and how many characters it
  takes. \<open>ConvInt w base sign\<close> reads an argument of \<open>w\<close> bits.
\<close>

definition fmt_at :: "u8 list \<Rightarrow> nat \<Rightarrow> u8" where
  "fmt_at fmt i = (if i < length fmt then fmt ! i else 0)"

definition conversion :: "u8 list \<Rightarrow> conv \<times> nat" where
  "conversion fmt =
     (let c0 = fmt_at fmt 0;
          c1 = (if c0 \<noteq> 0 then fmt_at fmt 1 else 0);
          c2 = (if c1 \<noteq> 0 then fmt_at fmt 2 else 0);
          d = chr CHR ''d''; l = chr CHR ''l''; u = chr CHR ''u''; x = chr CHR ''x''
      in if c0 = d then (ConvInt 32 10 True, 1)
         else if c0 = l \<and> c1 = d then (ConvInt 64 10 True, 2)
         else if c0 = l \<and> c1 = l \<and> c2 = d then (ConvInt 64 10 True, 3)
         else if c0 = u then (ConvInt 32 10 False, 1)
         else if c0 = l \<and> c1 = u then (ConvInt 64 10 False, 2)
         else if c0 = l \<and> c1 = l \<and> c2 = u then (ConvInt 64 10 False, 3)
         else if c0 = x then (ConvInt 32 16 False, 1)
         else if c0 = l \<and> c1 = x then (ConvInt 64 16 False, 2)
         else if c0 = l \<and> c1 = l \<and> c2 = x then (ConvInt 64 16 False, 3)
         else if c0 = chr CHR ''p'' then (ConvPtr, 1)
         else if c0 = chr CHR ''c'' then (ConvChar, 1)
         else if c0 = chr CHR ''s'' then (ConvStr, 1)
         else if c0 = chr CHR ''%'' then (ConvPercent, 1)
         else (ConvUnknown c0, 1))"

text \<open>\<^verbatim>\<open>va_arg\<close> of \<^verbatim>\<open>int\<close>, \<^verbatim>\<open>uint32\<close> or \<^verbatim>\<open>uint64\<close>, converted to \<^verbatim>\<open>long long\<close>.\<close>

definition va_int :: "nat \<Rightarrow> bool \<Rightarrow> u64 \<Rightarrow> u64" where
  "va_int w sign x = (if w = 64 then x else if sign then word_of_int (i32_of_u64 x) else ucast (ucast x :: u32))"

definition print_string :: "u8 list \<Rightarrow> u8 list" where
  "print_string s = takeWhile (\<lambda>c. c \<noteq> 0) s"

text \<open>\<open>pc\<close> prints one character: \<^verbatim>\<open>consputc\<close> in the kernel, \<^verbatim>\<open>putc\<close> in user programs.\<close>

fun print_conv :: "(int \<Rightarrow> u8 list) \<Rightarrow> u8 list \<Rightarrow> conv \<Rightarrow> parg list \<Rightarrow> (u8 list \<times> parg list) option" where
  "print_conv pc digits (ConvInt w base sign) (PW x # ap) = map_option (\<lambda>o'. (o', ap)) (printint digits (va_int w sign x) base sign)"
| "print_conv pc digits ConvPtr (PW x # ap) = Some (printptr digits x, ap)"
| "print_conv pc digits ConvChar (PW x # ap) = Some (pc (uint (ucast x :: u32)), ap)"
| "print_conv pc digits ConvStr (PW x # ap) = (if x = 0 then Some (ascii ''(null)'', ap) else None)"
| "print_conv pc digits ConvStr (PS s # ap) = Some (print_string s, ap)"
| "print_conv pc digits ConvPercent ap = Some (ascii ''%'', ap)"
| "print_conv pc digits (ConvUnknown c) ap = Some (ascii ''%'' @ [c], ap)"
| "print_conv pc digits _ _ = None"

fun format :: "(int \<Rightarrow> u8 list) \<Rightarrow> u8 list \<Rightarrow> u8 list \<Rightarrow> parg list \<Rightarrow> u8 list option" where
  "format pc digits [] ap = Some []"
| "format pc digits (cx # fmt) ap =
     (if cx \<noteq> chr CHR ''%'' then map_option ((@) (pc (uint cx))) (format pc digits fmt ap)
      else if fmt = [] then Some []
      else let (c, k) = conversion fmt in
        case print_conv pc digits c ap of
          None \<Rightarrow> None
        | Some (out, ap) \<Rightarrow> map_option ((@) out) (format pc digits (drop k fmt) ap))"

definition kprintf :: "u8 list \<Rightarrow> parg list \<Rightarrow> u8 list option" where
  "kprintf fmt ap = format consputc digits_lower fmt ap"

definition putc :: "int \<Rightarrow> u8 list" where
  "putc c = [word_of_int c]"

definition uprintf :: "u8 list \<Rightarrow> parg list \<Rightarrow> u8 list option" where
  "uprintf fmt ap = format putc digits_upper fmt ap"

section \<open>What a printed number means\<close>

text \<open>The digits of a number in a base, the most significant first.\<close>

fun digs :: "nat \<Rightarrow> nat \<Rightarrow> nat list" where
  "digs b n = (if b < 2 \<or> n < b then [n] else digs b (n div b) @ [n mod b])"

declare digs.simps [simp del]

lemma digs_value: "foldl (\<lambda>n d. n * b + d) 0 (digs b n) = n"
  by (induction b n rule: digs.induct) (subst digs.simps, auto)

lemma digs_lt: "1 < b \<Longrightarrow> list_all (\<lambda>d. d < b) (digs b n)"
  by (induction b n rule: digs.induct) (subst digs.simps, auto)

lemma digs_ne [simp]: "digs b n \<noteq> []"
  by (subst digs.simps) auto

lemma digs_hd: "1 < b \<Longrightarrow> hd (digs b n) = 0 \<Longrightarrow> n = 0"
proof (induction b n rule: digs.induct)
  case (1 b n)
  show ?case
  proof (cases "n < b")
    case False
    then have "hd (digs b (n div b)) = 0" using 1(2,3) by (subst (asm) digs.simps) auto
    then have "n div b = 0" using 1 False by auto
    then show ?thesis using False 1(2) by (simp add: div_eq_0_iff)
  qed (use 1 in \<open>simp add: digs.simps\<close>)
qed

lemma digs_zero [simp]: "digs b 0 = [0]"
  by (subst digs.simps) auto

lemma digs_length: "1 < b \<Longrightarrow> n < b ^ Suc k \<Longrightarrow> length (digs b n) \<le> Suc k"
proof (induction b n arbitrary: k rule: digs.induct)
  case (1 b n)
  show ?case
  proof (cases "n < b")
    case False
    then obtain j where k: "k = Suc j" using 1(3) by (cases k) auto
    have "n div b < b ^ Suc j" using 1(2,3) k by (simp add: div_less_iff_less_mult mult.commute)
    then have "length (digs b (n div b)) \<le> Suc j" using 1 False by auto
    then show ?thesis using False k 1(2) by (subst digs.simps) auto
  qed (simp add: digs.simps)
qed

lemma printint_digits_digs:
  assumes "1 < base" "base < 2 ^ 64"
  shows "length (digs base (unat x)) \<le> room \<Longrightarrow>
    printint_digits room digits x base = Some (rev (map ((!) digits) (digs base (unat x))))"
proof (induction room arbitrary: x)
  case 0
  then show ?case by (simp add: digs_ne)
next
  case (Suc room)
  have d: "unat (x div of_nat base) = unat x div base"
    using assms by (simp add: unat_div unat_of_nat)
  then have z: "x div of_nat base = 0 \<longleftrightarrow> unat x < base"
    using assms by (metis div_eq_0_iff not_less_zero unat_eq_zero not_one_less_zero)
  show ?case
  proof (cases "unat x < base")
    case True
    then show ?thesis using z by (simp add: digs.simps Let_def)
  next
    case False
    then have e: "digs base (unat x) = digs base (unat x div base) @ [unat x mod base]"
      using assms by (subst digs.simps) auto
    then have "printint_digits room digits (x div of_nat base) base =
        Some (rev (map ((!) digits) (digs base (unat x div base))))"
      using Suc by (simp add: d)
    then show ?thesis using False z e by (simp add: Let_def)
  qed
qed

lemma sint_abs:
  fixes x :: u64
  assumes "sint x < 0"
  shows "int (unat (- x)) = - sint x" "unat (- x) \<le> 2 ^ 63"
proof -
  have r: "- (2 ^ 63) \<le> sint x" using sint_range_size [of x] by (simp add: word_size)
  have "- x = word_of_int (- sint x)" by simp
  then have "uint (- x) = (- sint x) mod 2 ^ 64" by (simp only: uint_word_of_int) simp
  also have "\<dots> = - sint x" by (rule mod_pos_pos_trivial) (use assms r in auto)
  finally have u: "uint (- x) = - sint x" .
  then show "int (unat (- x)) = - sint x" by simp
  show "unat (- x) \<le> 2 ^ 63" using u r by (simp add: unat_eq_nat_uint nat_le_iff)
qed

lemma sint_nonneg:
  fixes x :: u64
  assumes "\<not> sint x < 0"
  shows "int (unat x) = sint x"
proof -
  have r: "sint x < 2 ^ 63" using sint_range_size [of x] by (simp add: word_size)
  have "uint x = uint (word_of_int (sint x) :: u64)" by simp
  also have "\<dots> = sint x mod 2 ^ 64" by (simp only: uint_word_of_int) simp
  also have "\<dots> = sint x" by (rule mod_pos_pos_trivial) (use assms r in auto)
  finally show ?thesis by simp
qed

lemma printint_digs:
  assumes "base = 10 \<or> base = 16"
  shows "printint digits xx base sign =
    Some ((if sign \<and> sint xx < 0 then [chr CHR ''-''] else []) @
      map ((!) digits) (digs base (nat (if sign then \<bar>sint xx\<bar> else uint xx))))"
proof -
  define neg where "neg = (sign \<and> sint xx < 0)"
  define x where "x = (if neg then - xx else xx)"
  have "unat x < base ^ Suc (if neg then 18 else 19)"
  proof (cases neg)
    case True
    then have "unat x \<le> 2 ^ 63" using sint_abs(2) [of xx] by (simp add: x_def neg_def)
    moreover have "(2::nat) ^ 63 < 10 ^ 19" by simp
    moreover have "(10::nat) ^ 19 \<le> base ^ 19" using assms by auto
    ultimately show ?thesis using True by simp
  next
    case False
    have "unat x < 10 ^ 20" by (rule less_le_trans [OF unat_lt64]) simp
    also have "(10::nat) ^ 20 \<le> base ^ 20" using assms by auto
    finally show ?thesis using False by simp
  qed
  then have l: "length (digs base (unat x)) \<le> (if neg then 19 else 20)"
    using digs_length [of base "unat x" "if neg then 18 else 19"] assms by (auto split: if_splits)
  have p: "printint_digits 20 digits x base = Some (rev (map ((!) digits) (digs base (unat x))))"
    by (rule printint_digits_digs) (use l assms in \<open>auto split: if_splits\<close>)
  have "int (unat x) = (if sign then \<bar>sint xx\<bar> else uint xx)"
    using sint_abs(1) [of xx] sint_nonneg [of xx] by (auto simp: x_def neg_def)
  then have "unat x = nat (if sign then \<bar>sint xx\<bar> else uint xx)" by linarith
  then show ?thesis
    using p l by (simp add: printint_def Let_def neg_def [symmetric] x_def [symmetric] split: if_splits)
qed

text \<open>
  C31: The numbers \<^verbatim>\<open>printf\<close> prints. In base 10 and 16, signed or not, the buffer of 20 characters of \<^verbatim>\<open>printint\<close> is large
  enough for every 64-bit value, the most negative one included; what is printed is a minus sign for a negative
  signed value and then digits without a leading zero whose value is the magnitude of the argument.
\<close>

theorem printint_correct:
  assumes "base = 10 \<or> base = 16"
  shows "\<exists>ds. printint digits xx base sign =
       Some ((if sign \<and> sint xx < 0 then [chr CHR ''-''] else []) @ map ((!) digits) ds) \<and>
     list_all (\<lambda>d. d < base) ds \<and> ds \<noteq> [] \<and> (hd ds = 0 \<longrightarrow> ds = [0]) \<and>
     int (foldl (\<lambda>n d. n * base + d) 0 ds) = (if sign then \<bar>sint xx\<bar> else uint xx)"
proof -
  define n where "n = nat (if sign then \<bar>sint xx\<bar> else uint xx)"
  have "hd (digs base n) = 0 \<longrightarrow> digs base n = [0]" using digs_hd [of base n] assms by auto
  then show ?thesis
    using printint_digs [OF assms, of digits xx sign] digs_value [of base n] digs_lt [of base n] assms
    unfolding n_def by (intro exI [of _ "digs base (nat (if sign then \<bar>sint xx\<bar> else uint xx))"]) auto
qed

theorem printint_correct_witness:
  "\<exists>ds. printint digits_lower (- 25) 10 True = Some ([chr CHR ''-''] @ map ((!) digits_lower) ds) \<and>
     list_all (\<lambda>d. d < 10) ds \<and> ds \<noteq> [] \<and> int (foldl (\<lambda>n d. n * 10 + d) 0 ds) = 25"
  using printint_correct [of 10 digits_lower "- 25" True] by auto

end
