(* ===== verification/Ring.thy ===== *)
theory Ring
  imports Riscv
begin

text \<open>
  Ring buffers with free-running 32-bit indices, as the pipe and the console have them: the bytes between a read index
  and a write index lie in an array at the indices modulo its size. The size divides \<open>2 ^ 32\<close>, so the arrangement
  survives the wrap-around of the indices.

  \<open>ring_buffer\<close> is the interface: where the array and the indices are, and what storing a byte and dropping the oldest one do to
  them. Its lemmas say that these are the operations of a queue. \<open>ring_edit\<close> adds taking back the newest byte.
\<close>

section \<open>The queue in a ring\<close>

definition ring_queue :: "nat \<Rightarrow> 'x list \<Rightarrow> u32 \<Rightarrow> u32 \<Rightarrow> 'x list" where
  "ring_queue cap d r w = map (\<lambda>k. d ! (unat (r + of_nat k) mod cap)) [0..<unat (w - r)]"

definition ring_ok :: "nat \<Rightarrow> 'x list \<Rightarrow> u32 \<Rightarrow> u32 \<Rightarrow> bool" where
  "ring_ok cap d r w \<longleftrightarrow> length d = cap \<and> unat (w - r) \<le> cap"

lemma length_ring_queue [simp]: "length (ring_queue cap d r w) = unat (w - r)"
  by (simp add: ring_queue_def)

lemma nth_ring_queue: "k < unat (w - r) \<Longrightarrow> ring_queue cap d r w ! k = d ! (unat (r + of_nat k) mod cap)"
  by (simp add: ring_queue_def)

lemma unat_add_mod:
  assumes "cap dvd 2 ^ 32" shows "unat (r + of_nat k :: u32) mod cap = (unat r + k) mod cap"
proof -
  have "unat (r + of_nat k) = (unat r + k) mod 2 ^ 32" by (simp add: unat_word_ariths unat_of_nat mod_simps)
  then show ?thesis using assms by (simp add: mod_mod_cancel)
qed

lemma mod_add_inj:
  assumes "(a + j) mod c = (a + k) mod c" "j < c" "k < c" shows "j = (k::nat)"
proof (rule ccontr)
  have lt: "False" if "i < l" "l < c" "(a + i) mod c = (a + l) mod c" for i l
    using that mod_eq_dvd_iff_nat [of "a + i" "a + l" c] by (auto dest: dvd_imp_le)
  assume "j \<noteq> k"
  then show False using lt [of j k] lt [of k j] assms by (auto simp: linorder_neq_iff)
qed

lemma ring_index_inj:
  assumes "cap dvd 2 ^ 32" "unat (r + of_nat j :: u32) mod cap = unat (r + of_nat k :: u32) mod cap" "j < cap" "k < cap"
  shows "j = k"
  using assms by (auto simp: unat_add_mod intro: mod_add_inj)

section \<open>The interface\<close>

locale ring_buffer =
  fixes cap :: nat and data :: "'s \<Rightarrow> 'x list" and rd wr :: "'s \<Rightarrow> u32" and put :: "'x \<Rightarrow> 's \<Rightarrow> 's" and adv :: "'s \<Rightarrow> 's"
  assumes cap: "0 < cap" "cap dvd 2 ^ 32" "cap < 2 ^ 32"
    and put: "data (put c s) = (data s)[unat (wr s) mod cap := c]" "wr (put c s) = wr s + 1" "rd (put c s) = rd s"
    and adv: "data (adv s) = data s" "rd (adv s) = rd s + 1" "wr (adv s) = wr s"
begin

abbreviation queue where "queue s \<equiv> ring_queue cap (data s) (rd s) (wr s)"
abbreviation ok where "ok s \<equiv> ring_ok cap (data s) (rd s) (wr s)"

lemma queue_empty: "queue s = [] \<longleftrightarrow> rd s = wr s"
  unfolding length_0_conv [symmetric] length_ring_queue unat_eq_zero right_minus_eq by (rule eq_commute)

lemma queue_full: "length (queue s) = cap \<longleftrightarrow> wr s = rd s + of_nat cap"
proof -
  have "unat (wr s - rd s) = cap \<longleftrightarrow> wr s - rd s = of_nat cap"
  proof
    assume "wr s - rd s = of_nat cap"
    then show "unat (wr s - rd s) = cap" using cap(3) by (simp only: unat_of_nat) simp
  qed auto
  also have "\<dots> \<longleftrightarrow> wr s = of_nat cap + rd s" by (rule diff_eq_eq)
  finally show ?thesis by (simp only: length_ring_queue add.commute)
qed

lemma put_queue:
  assumes "ok s" "length (queue s) < cap"
  shows "queue (put c s) = queue s @ [c]" "ok (put c s)"
proof -
  let ?n = "unat (wr s - rd s)"
  have n: "?n < cap" "length (data s) = cap" using assms by (simp_all add: ring_ok_def)
  have w: "wr s = rd s + of_nat ?n" by simp
  have n': "unat (wr s + 1 - rd s) = Suc ?n"
  proof -
    have "wr s + 1 - rd s = of_nat (Suc ?n)" by (simp add: algebra_simps)
    then show ?thesis using n cap(3) by (simp only: unat_of_nat) simp
  qed
  show "ok (put c s)" using n n' by (simp add: ring_ok_def put)
  show "queue (put c s) = queue s @ [c]"
  proof (rule nth_equalityI)
    show "length (queue (put c s)) = length (queue s @ [c])" using n' by (simp add: put)
    fix k assume "k < length (queue (put c s))"
    then have k: "k < Suc ?n" using n' by (simp add: put)
    show "queue (put c s) ! k = (queue s @ [c]) ! k"
    proof (cases "k = ?n")
      case True
      have "queue (put c s) ! k = (data s)[unat (wr s) mod cap := c] ! (unat (wr s) mod cap)"
        using nth_ring_queue [of k "wr s + 1" "rd s"] n' k True by (simp add: put)
      then show ?thesis using n cap(1) True by (simp add: nth_append)
    next
      case False
      then have "k < ?n" using k by simp
      moreover have "unat (rd s + of_nat k) mod cap \<noteq> unat (wr s) mod cap"
        using ring_index_inj [OF cap(2), of "rd s" k ?n] w n False k by auto
      ultimately show ?thesis
        using nth_ring_queue [of k "wr s + 1" "rd s" cap "(data s)[unat (wr s) mod cap := c]"]
          nth_ring_queue [of k "wr s" "rd s" cap "data s"] n' k by (simp add: put nth_append)
    qed
  qed
qed

lemma adv_queue:
  assumes "ok s" "queue s \<noteq> []"
  shows "queue s = data s ! (unat (rd s) mod cap) # queue (adv s)" "ok (adv s)"
proof -
  let ?n = "unat (wr s - rd s)"
  have n: "0 < ?n" using assms(2) unfolding length_greater_0_conv [symmetric] length_ring_queue .
  have n': "unat (wr s - (rd s + 1)) = ?n - 1"
  proof -
    have "1 \<le> wr s - rd s" using n unfolding word_le_nat_alt unat_1 by linarith
    then have "unat (wr s - rd s - 1) = ?n - unat (1 :: u32)" by (rule unat_sub)
    moreover have "wr s - (rd s + 1) = wr s - rd s - 1" by (rule diff_diff_add [symmetric])
    ultimately show ?thesis by (simp only: unat_1)
  qed
  show "ok (adv s)" using assms(1) n' unfolding ring_ok_def adv by linarith
  show "queue s = data s ! (unat (rd s) mod cap) # queue (adv s)"
  proof (rule nth_equalityI)
    show "length (queue s) = length (data s ! (unat (rd s) mod cap) # queue (adv s))"
      using n unfolding list.size(4) length_ring_queue adv n' by linarith
    fix k assume k: "k < length (queue s)"
    show "queue s ! k = (data s ! (unat (rd s) mod cap) # queue (adv s)) ! k"
    proof (cases k)
      case 0
      then show ?thesis using nth_ring_queue [of 0 "wr s" "rd s" cap "data s"] n by simp
    next
      case (Suc j)
      then have j: "j < unat (wr s - (rd s + 1))" using k n' by simp
      have "(data s ! (unat (rd s) mod cap) # queue (adv s)) ! k = ring_queue cap (data s) (rd s + 1) (wr s) ! j"
        unfolding Suc adv by simp
      also have "\<dots> = data s ! (unat (rd s + 1 + of_nat j) mod cap)" by (rule nth_ring_queue [OF j])
      also have "rd s + 1 + of_nat j = rd s + of_nat k" unfolding Suc by simp
      also have "data s ! (unat (rd s + of_nat k) mod cap) = queue s ! k"
        by (rule nth_ring_queue [symmetric]) (use k in simp)
      finally show ?thesis by simp
    qed
  qed
qed

end


locale ring_edit = ring_buffer cap data rd wr put adv
  for cap :: nat and data :: "'s \<Rightarrow> 'x list" and rd wr :: "'s \<Rightarrow> u32" and put :: "'x \<Rightarrow> 's \<Rightarrow> 's" and adv :: "'s \<Rightarrow> 's" +
  fixes del :: "'s \<Rightarrow> 's"
  assumes del: "data (del s) = data s" "rd (del s) = rd s" "wr (del s) = wr s - 1"
begin

lemma del_queue:
  assumes "ok s" "queue s \<noteq> []"
  shows "queue (del s) = butlast (queue s)" "ok (del s)" "last (queue s) = data s ! (unat (wr s - 1) mod cap)"
proof -
  let ?n = "unat (wr s - rd s)"
  have n: "0 < ?n" using assms(2) unfolding length_greater_0_conv [symmetric] length_ring_queue .
  have n': "unat (wr s - 1 - rd s) = ?n - 1"
  proof -
    have "1 \<le> wr s - rd s" using n unfolding word_le_nat_alt unat_1 by linarith
    then have "unat (wr s - rd s - 1) = ?n - unat (1 :: u32)" by (rule unat_sub)
    then show ?thesis by (simp only: unat_1 diff_right_commute)
  qed
  show "ok (del s)" using assms(1) n' unfolding ring_ok_def del by linarith
  show "queue (del s) = butlast (queue s)"
    by (rule nth_equalityI) (use n' in \<open>simp_all add: del nth_butlast nth_ring_queue\<close>)
  have "last (queue s) = queue s ! (?n - 1)" using last_conv_nth [OF assms(2)] by simp
  also have "\<dots> = data s ! (unat (rd s + of_nat (?n - 1)) mod cap)" by (rule nth_ring_queue) (use n in simp)
  also have "rd s + of_nat (?n - 1) = wr s - 1" using n by (simp add: of_nat_diff)
  finally show "last (queue s) = data s ! (unat (wr s - 1) mod cap)" .
qed

end

end
