(* ===== verification/Console.thy ===== *)
theory Console
  imports UserCopy Printf Ring Eevdf
begin

text \<open>
  The console and its UART: \<^verbatim>\<open>kernel/console.c\<close>, \<^verbatim>\<open>kernel/uart.c\<close> and \<^verbatim>\<open>procdump\<close> of \<^verbatim>\<open>kernel/proc.c\<close>.

  Of the 16550 the model has the bytes the transmit register was given (\<open>thr\<close>), the bytes that wait in the receive
  register (\<open>rhr\<close>), the idle bit of the line status register (\<open>tx_idle\<close>) and the other registers as last written.
  \<^verbatim>\<open>uartputc_sync\<close> waits for the idle bit before it stores its byte; the wait ends, since the device empties its register.

  A function that sleeps in the middle of its work gives \<open>Blocked\<close> with the channel and the values of its
  variables there; its \<open>_resume\<close> goes on from them once the process is woken.
\<close>

section \<open>Data\<close>

datatype ('a, 'b) progress = Done 'a | Blocked channel 'b

abbreviation (input) INPUT_BUF_SIZE :: nat where "INPUT_BUF_SIZE \<equiv> 128"

record console =
  c_buf :: "u8 list"
  c_r :: u32
  c_w :: u32
  c_e :: u32

datatype devops = ConsoleDev

abbreviation (input) CONSOLE :: nat where "CONSOLE \<equiv> 1"

record dev = mm +
  cons :: console
  devsw :: "devops option list"
  tx_busy :: bool
  tx_idle :: bool
  thr :: "u8 list"
  rhr :: "u8 list"
  uart_regs :: "nat \<Rightarrow> u8"

abbreviation (input) IER :: nat where "IER \<equiv> 1"
abbreviation (input) FCR :: nat where "FCR \<equiv> 2"
abbreviation (input) LCR :: nat where "LCR \<equiv> 3"

section \<open>The UART\<close>

text \<open>Register 0 is the transmit register, but the divisor's low byte while the baud latch of \<^verbatim>\<open>LCR\<close> is set.\<close>

definition WriteReg :: "nat \<Rightarrow> u8 \<Rightarrow> 'a dev_scheme \<Rightarrow> 'a dev_scheme" where
  "WriteReg r v s = (if r = 0 \<and> uart_regs s LCR AND 0x80 = 0 then s\<lparr>thr := thr s @ [v]\<rparr>
     else s\<lparr>uart_regs := (uart_regs s)(r := v)\<rparr>)"

definition uartinit :: "'a dev_scheme \<Rightarrow> 'a dev_scheme" where
  "uartinit s = foldl (\<lambda>s (r, v). WriteReg r v s) s
     [(IER, 0x00), (LCR, 0x80), (0, 0x03), (1, 0x00), (LCR, 0x03), (FCR, 0x07), (IER, 0x03)]"

primrec uartwrite :: "u8 list \<Rightarrow> ('a dev_scheme, (unit, u8 list) progress) kmon" where
  "uartwrite [] = kret (Done ())"
| "uartwrite (c # buf) = (\<lambda>s.
     if tx_busy s then Ret (Blocked ChTx (c # buf)) s
     else uartwrite buf ((WriteReg 0 c s)\<lparr>tx_busy := True\<rparr>))"

definition uartputc_sync :: "u8 \<Rightarrow> 'a dev_scheme \<Rightarrow> 'a dev_scheme" where
  "uartputc_sync c = WriteReg 0 c"

definition kprint :: "u8 list \<Rightarrow> 'a dev_scheme \<Rightarrow> 'a dev_scheme" where
  "kprint out s = foldl (\<lambda>s c. uartputc_sync c s) s out"

definition uartgetc :: "'a dev_scheme \<Rightarrow> int \<times> 'a dev_scheme" where
  "uartgetc s = (case rhr s of [] \<Rightarrow> (- 1, s) | c # cs \<Rightarrow> (uint c, s\<lparr>rhr := cs\<rparr>))"

section \<open>Listing the processes\<close>

definition procdump_state :: "procstate \<Rightarrow> string" where
  "procdump_state st = (case st of UNUSED \<Rightarrow> ''unused'' | USED \<Rightarrow> ''used'' | SLEEPING \<Rightarrow> ''sleep '' | RUNNABLE \<Rightarrow> ''runble''
     | RUNNING \<Rightarrow> ''run   '' | ZOMBIE \<Rightarrow> ''zombie'')"

text \<open>What the calls of \<^verbatim>\<open>printf\<close> in the kernel print: they pass the arguments their formats read.\<close>

definition printed :: "string \<Rightarrow> parg list \<Rightarrow> u8 list" where
  "printed fmt ap = (case kprintf (ascii fmt) ap of Some out \<Rightarrow> out | None \<Rightarrow> [])"

definition procdump :: "'a dev_scheme \<Rightarrow> 'a dev_scheme" where
  "procdump s = kprint (10 # concat (map (\<lambda>p.
     if p_state p = UNUSED then []
     else printed ''%d %s %s'' [PW (u64_of_int (p_pid p)), PS (ascii (procdump_state (p_state p))), PS (p_name p)] @ [10])
     (procs s))) s"

section \<open>Input\<close>

definition upd_cons :: "(console \<Rightarrow> console) \<Rightarrow> 'a dev_scheme \<Rightarrow> 'a dev_scheme" where
  "upd_cons f s = s\<lparr>cons := f (cons s)\<rparr>"

definition cons_at :: "u32 \<Rightarrow> nat" where
  "cons_at i = unat i mod INPUT_BUF_SIZE"

text \<open>The loop of control-u erases a character in every turn and stops at \<^verbatim>\<open>cons.w\<close>: \<open>unat (e - w)\<close> turns are enough.\<close>

primrec kill_line :: "nat \<Rightarrow> 'a dev_scheme \<Rightarrow> 'a dev_scheme" where
  "kill_line 0 s = s"
| "kill_line (Suc n) s =
     (if c_e (cons s) \<noteq> c_w (cons s) \<and> c_buf (cons s) ! cons_at (c_e (cons s) - 1) \<noteq> 10
      then kill_line n (kprint (consputc BACKSPACE) (upd_cons (\<lambda>c. c\<lparr>c_e := c_e c - 1\<rparr>) s))
      else s)"

definition cons_store :: "u8 \<Rightarrow> console \<Rightarrow> console" where
  "cons_store c k = k\<lparr>c_buf := (c_buf k)[cons_at (c_e k) := c], c_e := c_e k + 1\<rparr>"

definition consoleintr :: "int \<Rightarrow> 'a dev_scheme \<Rightarrow> 'a dev_scheme" where
  "consoleintr c s =
     (if c = 16 then procdump s
      else if c = 21 then kill_line (unat (c_e (cons s) - c_w (cons s))) s
      else if c = 8 \<or> c = 127 then
        (if c_e (cons s) \<noteq> c_w (cons s)
         then kprint (consputc BACKSPACE) (upd_cons (\<lambda>k. k\<lparr>c_e := c_e k - 1\<rparr>) s) else s)
      else if c \<noteq> 0 \<and> c_e (cons s) - c_r (cons s) < of_nat INPUT_BUF_SIZE then
        (let c = (if c = 13 then 10 else c);
             s = upd_cons (cons_store (word_of_int c)) (kprint (consputc c) s)
         in if c = 10 \<or> c = 4 \<or> c_e (cons s) - c_r (cons s) = of_nat INPUT_BUF_SIZE
            then wakeup ChCons (upd_cons (\<lambda>k. k\<lparr>c_w := c_e k\<rparr>) s)
            else s)
      else s)"

text \<open>The loop of \<^verbatim>\<open>uartintr\<close> takes one waiting byte in every turn.\<close>

primrec uartintr_loop :: "nat \<Rightarrow> 'a dev_scheme \<Rightarrow> 'a dev_scheme" where
  "uartintr_loop 0 s = s"
| "uartintr_loop (Suc n) s = (let (c, s) = uartgetc s in if c = - 1 then s else uartintr_loop n (consoleintr c s))"

definition uartintr :: "'a dev_scheme \<Rightarrow> 'a dev_scheme" where
  "uartintr s =
     (let s = (if tx_idle s then wakeup ChTx (s\<lparr>tx_busy := False\<rparr>) else s)
      in uartintr_loop (length (rhr s)) s)"

section \<open>The console device\<close>

text \<open>Both are entered through \<^verbatim>\<open>devsw\<close> with \<^verbatim>\<open>user_dst\<close> and \<^verbatim>\<open>user_src\<close> set.\<close>

primrec consolewrite_loop :: "nat \<Rightarrow> u64 \<Rightarrow> int \<Rightarrow> int \<Rightarrow> ('a dev_scheme, (int, int \<times> u8 list) progress) kmon" where
  "consolewrite_loop 0 src n i = kret (Done i)"
| "consolewrite_loop (Suc k) src n i =
     (if \<not> i < n then kret (Done i)
      else let nn = (if 32 > n - i then n - i else 32) in
        kbind (ci_user (src + u64_of_int i) (nat nn)) (\<lambda>(buf, r). case r of
            None \<Rightarrow> kret (Done i)
          | Some _ \<Rightarrow> kbind (uartwrite buf) (\<lambda>w. case w of
                Done _ \<Rightarrow> consolewrite_loop k src n (i + nn)
              | Blocked ch rest \<Rightarrow> kret (Blocked ch (i, rest)))))"

definition consolewrite_resume :: "u64 \<Rightarrow> int \<Rightarrow> int \<times> u8 list \<Rightarrow> ('a dev_scheme, (int, int \<times> u8 list) progress) kmon" where
  "consolewrite_resume src n = (\<lambda>(i, rest). kbind (uartwrite rest) (\<lambda>w. case w of
       Done _ \<Rightarrow> consolewrite_loop (nat n) src n (i + (if 32 > n - i then n - i else 32))
     | Blocked ch rest \<Rightarrow> kret (Blocked ch (i, rest))))"

definition consolewrite :: "u64 \<Rightarrow> int \<Rightarrow> ('a dev_scheme, (int, int \<times> u8 list) progress) kmon" where
  "consolewrite src n = consolewrite_loop (nat n) src n 0"

primrec consoleread_loop :: "nat \<Rightarrow> int \<Rightarrow> u64 \<Rightarrow> int \<Rightarrow> ('a dev_scheme, (int, u64 \<times> int) progress) kmon" where
  "consoleread_loop 0 target dst n = kret (Done (target - n))"
| "consoleread_loop (Suc k) target dst n =
     (if \<not> n > 0 then kret (Done (target - n))
      else kcur (\<lambda>p. \<lambda>s.
        if c_r (cons s) = c_w (cons s)
        then if killed p s \<noteq> 0 then Ret (Done (- 1)) s else Ret (Blocked ChCons (dst, n)) s
        else let c = c_buf (cons s) ! cons_at (c_r (cons s)); s = upd_cons (\<lambda>k. k\<lparr>c_r := c_r k + 1\<rparr>) s in
          if c = 4 then Ret (Done (target - n)) (if n < target then upd_cons (\<lambda>k. k\<lparr>c_r := c_r k - 1\<rparr>) s else s)
          else kbind (co_user dst [c]) (\<lambda>r. case r of
              None \<Rightarrow> kret (Done (target - n))
            | Some dst' \<Rightarrow> if c = 10 then kret (Done (target - (n - 1)))
                else consoleread_loop k target (dst + 1) (n - 1)) s))"

definition consoleread_resume :: "int \<Rightarrow> u64 \<times> int \<Rightarrow> ('a dev_scheme, (int, u64 \<times> int) progress) kmon" where
  "consoleread_resume target = (\<lambda>(dst, n). consoleread_loop (nat n) target dst n)"

definition consoleread :: "u64 \<Rightarrow> int \<Rightarrow> ('a dev_scheme, (int, u64 \<times> int) progress) kmon" where
  "consoleread dst n = consoleread_resume n (dst, n)"

definition consoleinit :: "'a dev_scheme \<Rightarrow> 'a dev_scheme" where
  "consoleinit s = (let s = uartinit s in s\<lparr>devsw := (devsw s)[CONSOLE := Some ConsoleDev]\<rparr>)"

section \<open>The line discipline\<close>

text \<open>
  The input as its reader sees it: the bytes of finished lines that wait to be read, and the line being edited.
\<close>

definition cons_all :: "console \<Rightarrow> u8 list" where
  "cons_all k = ring_queue INPUT_BUF_SIZE (c_buf k) (c_r k) (c_e k)"

definition cons_lines :: "console \<Rightarrow> u8 list \<times> u8 list" where
  "cons_lines k = (take (unat (c_w k - c_r k)) (cons_all k), drop (unat (c_w k - c_r k)) (cons_all k))"

definition cons_ok :: "console \<Rightarrow> bool" where
  "cons_ok k \<longleftrightarrow> ring_ok INPUT_BUF_SIZE (c_buf k) (c_r k) (c_e k) \<and> unat (c_w k - c_r k) \<le> unat (c_e k - c_r k) \<and>
     10 \<notin> set (snd (cons_lines k))"

text \<open>
  What a key does to them: control-u erases the line, backspace its last character, return ends it; a line also ends
  with control-d and when the buffer is full.
\<close>

fun edit_key :: "int \<Rightarrow> u8 list \<times> u8 list \<Rightarrow> u8 list \<times> u8 list" where
  "edit_key c (ready, line) =
     (if c = 16 then (ready, line)
      else if c = 21 then (ready, [])
      else if c = 8 \<or> c = 127 then (ready, butlast line)
      else if c \<noteq> 0 \<and> length ready + length line < INPUT_BUF_SIZE then
        (let c' = (if c = 13 then 10 else c); line' = line @ [word_of_int c']
         in if c' = 10 \<or> c' = 4 \<or> length ready + length line' = INPUT_BUF_SIZE then (ready @ line', []) else (ready, line'))
      else (ready, line))"

text \<open>
  What a read of \<open>n\<close> bytes takes of the waiting bytes: up to the end of a line or \<open>n\<close> bytes. A control-d ends the read; it
  is taken only by a read that has nothing else. \<^const>\<open>None\<close>: the read has to wait for more.
\<close>

fun con_take :: "bool \<Rightarrow> nat \<Rightarrow> u8 list \<Rightarrow> (u8 list \<times> u8 list) option" where
  "con_take first 0 q = Some ([], q)"
| "con_take first (Suc n) [] = None"
| "con_take first (Suc n) (c # q) =
     (if c = 4 then Some ([], if first then q else c # q)
      else if c = 10 then Some ([c], q)
      else map_option (\<lambda>(l, q'). (c # l, q')) (con_take False n q))"

text \<open>
  The operations of the ring as functions, the state a read leaves, what an interrupt keeps of the processes, and a
  machine for examples.
\<close>

definition cons_del :: "console \<Rightarrow> console" where
  "cons_del k = k\<lparr>c_e := c_e k - 1\<rparr>"

definition cons_adv :: "console \<Rightarrow> console" where
  "cons_adv k = k\<lparr>c_r := c_r k + 1\<rparr>"

definition cons_commit :: "console \<Rightarrow> console" where
  "cons_commit k = k\<lparr>c_w := c_e k\<rparr>"

definition con_reads :: "'a dev_scheme \<Rightarrow> nat \<Rightarrow> u64 \<Rightarrow> u8 list \<Rightarrow> u8 list \<Rightarrow> 'a dev_scheme \<Rightarrow> bool" where
  "con_reads s pr dst l q s' \<longleftrightarrow> user_store (mem s) (p_pagetable (procs s ! pr)) dst l (mem s') \<and>
     cons_lines (cons s') = (q, snd (cons_lines (cons s))) \<and> cons_ok (cons s')"

definition same_user :: "'a kmem_scheme \<Rightarrow> 'a kmem_scheme \<Rightarrow> bool" where
  "same_user s t \<longleftrightarrow> mem t = mem s \<and> curproc t = curproc s \<and> length (procs t) = length (procs s) \<and>
     (\<forall>r<length (procs s). p_pagetable (procs t ! r) = p_pagetable (procs s ! r) \<and> p_killed (procs t ! r) = p_killed (procs s ! r))"

definition demo_dev :: "memory \<Rightarrow> dev" where
  "demo_dev m = mm.extend (demo_mm\<lparr>mem := m, curproc := Some 0,
       procs := [zero_proc\<lparr>p_state := RUNNING, p_pid := 1, p_pagetable := 0x87FFF000\<rparr>,
                 zero_proc\<lparr>p_state := RUNNABLE, p_pid := 2, p_pagetable := 0x87FFF000\<rparr>]\<rparr>)
     \<lparr>cons = \<lparr>c_buf = replicate INPUT_BUF_SIZE 0, c_r = 0, c_w = 0, c_e = 0\<rparr>, devsw = replicate 10 None, tx_busy = False, tx_idle = True,
      thr = [], rhr = [], uart_regs = (\<lambda>_. 0)\<rparr>"

interpretation cr: ring_edit INPUT_BUF_SIZE c_buf c_r c_e cons_store cons_adv cons_del
  by unfold_locales (simp_all add: cons_store_def cons_adv_def cons_del_def cons_at_def)

section \<open>Keys\<close>

lemma kprint_sel [simp]: "cons (kprint out s) = cons s" "rhr (kprint out s) = rhr s" "mem (kprint out s) = mem s"
  "procs (kprint out s) = procs s" "curproc (kprint out s) = curproc s"
proof -
  have "cons (kprint out s) = cons s \<and> rhr (kprint out s) = rhr s \<and> mem (kprint out s) = mem s \<and>
      procs (kprint out s) = procs s \<and> curproc (kprint out s) = curproc s"
    unfolding kprint_def by (induction out arbitrary: s) (simp_all add: uartputc_sync_def WriteReg_def)
  then show "cons (kprint out s) = cons s" "rhr (kprint out s) = rhr s" "mem (kprint out s) = mem s"
    "procs (kprint out s) = procs s" "curproc (kprint out s) = curproc s" by auto
qed

lemma upd_cons_sel [simp]: "cons (upd_cons f s) = f (cons s)" "rhr (upd_cons f s) = rhr s" "mem (upd_cons f s) = mem s"
  "procs (upd_cons f s) = procs s" "curproc (upd_cons f s) = curproc s"
  by (simp_all add: upd_cons_def)

lemma wakeup_dev [simp]: "cons (wakeup ch s) = cons s" "rhr (wakeup ch s) = rhr s"
  by (simp_all add: wakeup_def)

lemma length_cons_all: "length (cons_all k) = unat (c_e k - c_r k)"
  by (simp add: cons_all_def)

lemma cons_line_empty:
  assumes "unat (c_w k - c_r k) \<le> unat (c_e k - c_r k)"
  shows "c_e k = c_w k \<longleftrightarrow> snd (cons_lines k) = []"
proof -
  have "snd (cons_lines k) = [] \<longleftrightarrow> unat (c_e k - c_r k) = unat (c_w k - c_r k)"
    using assms by (auto simp: cons_lines_def length_cons_all)
  also have "\<dots> \<longleftrightarrow> c_e k - c_r k = c_w k - c_r k" by (metis word_unat_eq_iff)
  also have "\<dots> \<longleftrightarrow> c_e k = c_w k" by simp
  finally show ?thesis by simp
qed

lemma cons_okD:
  assumes "cons_ok k"
  shows "ring_ok INPUT_BUF_SIZE (c_buf k) (c_r k) (c_e k)" "unat (c_w k - c_r k) \<le> unat (c_e k - c_r k)"
    "10 \<notin> set (snd (cons_lines k))" "unat (c_e k - c_r k) \<le> INPUT_BUF_SIZE"
    "fst (cons_lines k) @ snd (cons_lines k) = cons_all k"
    "length (fst (cons_lines k)) = unat (c_w k - c_r k)"
  using assms by (auto simp: cons_ok_def ring_ok_def cons_lines_def length_cons_all)

lemma cons_del_lines:
  assumes "cons_ok k" "snd (cons_lines k) \<noteq> []"
  shows "cons_lines (cons_del k) = (fst (cons_lines k), butlast (snd (cons_lines k)))" "cons_ok (cons_del k)"
    "c_buf k ! cons_at (c_e k - 1) = last (snd (cons_lines k))"
proof -
  note D = cons_okD [OF assms(1)]
  have ne: "ring_queue INPUT_BUF_SIZE (c_buf k) (c_r k) (c_e k) \<noteq> []" using D(5) assms(2) unfolding cons_all_def by auto
  note R = cr.del_queue [OF D(1) ne, folded cons_all_def]
  have l: "unat (c_w k - c_r k) < length (cons_all k)" using D(5,6) assms(2) by (metis length_append length_greater_0_conv less_add_same_cancel1)
  have s: "c_w (cons_del k) = c_w k" "c_r (cons_del k) = c_r k" by (simp_all add: cons_del_def)
  show e: "cons_lines (cons_del k) = (fst (cons_lines k), butlast (snd (cons_lines k)))"
    unfolding cons_lines_def s R(1) using l by (simp add: take_butlast drop_butlast)
  have "length (cons_all (cons_del k)) = length (cons_all k) - 1" using R(1) by simp
  then have "unat (c_w k - c_r k) \<le> unat (c_e (cons_del k) - c_r k)" using l unfolding length_cons_all s by simp
  then show "cons_ok (cons_del k)"
    using R(2) D(3) unfolding cons_ok_def s e by (auto dest: in_set_butlastD)
  show "c_buf k ! cons_at (c_e k - 1) = last (snd (cons_lines k))"
    using R(3) D(5) assms(2) by (metis cons_at_def last_appendR)
qed

lemma kill_line_frame:
  "rhr (kill_line n s) = rhr s" "mem (kill_line n s) = mem s" "procs (kill_line n s) = procs s" "curproc (kill_line n s) = curproc s"
  by (induction n arbitrary: s) simp_all

lemma kill_line_lines:
  "\<lbrakk>cons_ok (cons s); length (snd (cons_lines (cons s))) \<le> n\<rbrakk> \<Longrightarrow>
     cons_lines (cons (kill_line n s)) = (fst (cons_lines (cons s)), []) \<and> cons_ok (cons (kill_line n s))"
proof (induction n arbitrary: s)
  case 0
  then show ?case by (simp add: prod_eq_iff)
next
  case (Suc n)
  let ?k = "cons s"
  show ?case
  proof (cases "snd (cons_lines ?k) = []")
    case True
    then have "c_e ?k = c_w ?k" using cons_line_empty cons_okD(2) [OF Suc.prems(1)] by blast
    then show ?thesis using True Suc.prems(1) by (simp add: prod_eq_iff)
  next
    case False
    note D = cons_del_lines [OF Suc.prems(1) False]
    have "c_e ?k \<noteq> c_w ?k" using False cons_line_empty cons_okD(2) [OF Suc.prems(1)] by blast
    moreover have "c_buf ?k ! cons_at (c_e ?k - 1) \<noteq> 10"
      unfolding D(3) using cons_okD(3) [OF Suc.prems(1)] last_in_set [OF False] by metis
    ultimately have e: "kill_line (Suc n) s = kill_line n (kprint (consputc BACKSPACE) (upd_cons cons_del s))"
      by (simp add: cons_del_def [abs_def])
    show ?thesis unfolding e
      using Suc.IH [of "kprint (consputc BACKSPACE) (upd_cons cons_del s)"] D(1,2) Suc.prems(2) by simp
  qed
qed

lemma cons_commit_lines:
  assumes "ring_ok INPUT_BUF_SIZE (c_buf k) (c_r k) (c_e k)"
  shows "cons_lines (cons_commit k) = (cons_all k, [])" "cons_ok (cons_commit k)"
  using assms by (simp_all add: cons_commit_def cons_lines_def cons_all_def cons_ok_def)

lemma cons_store_lines:
  assumes "cons_ok k" "length (cons_all k) < INPUT_BUF_SIZE"
  shows "cons_all (cons_store c k) = cons_all k @ [c]"
    "cons_lines (cons_store c k) = (fst (cons_lines k), snd (cons_lines k) @ [c])"
    "ring_ok INPUT_BUF_SIZE (c_buf (cons_store c k)) (c_r (cons_store c k)) (c_e (cons_store c k))"
    "c \<noteq> 10 \<Longrightarrow> cons_ok (cons_store c k)"
proof -
  note D = cons_okD [OF assms(1)]
  note P = cr.put_queue [OF D(1), folded cons_all_def, OF assms(2), of c]
  show a: "cons_all (cons_store c k) = cons_all k @ [c]" by (rule P(1))
  show r: "ring_ok INPUT_BUF_SIZE (c_buf (cons_store c k)) (c_r (cons_store c k)) (c_e (cons_store c k))" by (rule P(2))
  have s: "c_w (cons_store c k) = c_w k" "c_r (cons_store c k) = c_r k" by (simp_all add: cons_store_def)
  have l: "unat (c_w k - c_r k) \<le> length (cons_all k)" using D(2) by (simp add: length_cons_all)
  show e: "cons_lines (cons_store c k) = (fst (cons_lines k), snd (cons_lines k) @ [c])"
    unfolding cons_lines_def s a using l by simp
  have "length (cons_all (cons_store c k)) = Suc (length (cons_all k))" by (simp add: a)
  then have "unat (c_w k - c_r k) \<le> unat (c_e (cons_store c k) - c_r k)" using l unfolding length_cons_all s by simp
  then show "c \<noteq> 10 \<Longrightarrow> cons_ok (cons_store c k)" using r D(3) unfolding cons_ok_def e s by auto
qed

lemma cons_room:
  assumes "cons_ok k"
  shows "c_e k - c_r k < of_nat INPUT_BUF_SIZE \<longleftrightarrow> length (fst (cons_lines k)) + length (snd (cons_lines k)) < INPUT_BUF_SIZE"
    "length (cons_all k) = length (fst (cons_lines k)) + length (snd (cons_lines k))"
proof -
  show "length (cons_all k) = length (fst (cons_lines k)) + length (snd (cons_lines k))"
    using cons_okD(5) [OF assms] by (metis length_append)
  then show "c_e k - c_r k < of_nat INPUT_BUF_SIZE \<longleftrightarrow> length (fst (cons_lines k)) + length (snd (cons_lines k)) < INPUT_BUF_SIZE"
    by (simp add: word_less_nat_alt length_cons_all)
qed

lemma key_newline: "0 \<le> c \<Longrightarrow> c < 256 \<Longrightarrow> (word_of_int c :: u8) = 10 \<Longrightarrow> c = 10"
proof -
  assume a: "0 \<le> c" "c < 256" "(word_of_int c :: u8) = 10"
  have "uint (word_of_int c :: u8) = c" using a(1,2) by (simp add: unsigned_of_int take_bit_int_eq_self)
  then show "c = 10" using a(3) by simp
qed

lemma store_key:
  assumes K: "cons_ok (cons s)" and c: "0 \<le> c" "c < 256" and room: "length (cons_all (cons s)) < INPUT_BUF_SIZE"
  defines "s1 \<equiv> upd_cons (cons_store (word_of_int c)) (kprint (consputc c) s)"
  defines "t \<equiv> if c = 10 \<or> c = 4 \<or> c_e (cons s1) - c_r (cons s1) = of_nat INPUT_BUF_SIZE
    then wakeup ChCons (upd_cons (\<lambda>k. k\<lparr>c_w := c_e k\<rparr>) s1) else s1"
  shows "cons_lines (cons t) = (let (ready, line) = cons_lines (cons s); line' = line @ [word_of_int c] in
      if c = 10 \<or> c = 4 \<or> length ready + length line' = INPUT_BUF_SIZE then (ready @ line', []) else (ready, line'))"
    "cons_ok (cons t)"
proof -
  let ?k = "cons_store (word_of_int c) (cons s)"
  note S = cons_store_lines [OF K room, of "word_of_int c"] and D = cons_okD(5) [OF K]
  have k: "cons s1 = ?k" by (simp add: s1_def)
  have full: "c_e ?k - c_r ?k = of_nat INPUT_BUF_SIZE \<longleftrightarrow>
      length (fst (cons_lines (cons s))) + length (snd (cons_lines (cons s)) @ [word_of_int c]) = INPUT_BUF_SIZE"
  proof -
    have "length (cons_all ?k) = length (fst (cons_lines (cons s))) + length (snd (cons_lines (cons s)) @ [word_of_int c])"
      unfolding S(1) D [symmetric] by simp
    moreover have "c_e ?k - c_r ?k = of_nat INPUT_BUF_SIZE \<longleftrightarrow> length (cons_all ?k) = INPUT_BUF_SIZE"
      unfolding length_cons_all by (simp add: word_unat_eq_iff)
    ultimately show ?thesis by simp
  qed
  have "cons_lines (cons t) = (if c = 10 \<or> c = 4 \<or> c_e ?k - c_r ?k = of_nat INPUT_BUF_SIZE
      then (cons_all ?k, []) else (fst (cons_lines (cons s)), snd (cons_lines (cons s)) @ [word_of_int c]))"
    using cons_commit_lines(1) [OF S(3)] S(2) by (simp add: t_def k cons_commit_def)
  then show "cons_lines (cons t) = (let (ready, line) = cons_lines (cons s); line' = line @ [word_of_int c] in
      if c = 10 \<or> c = 4 \<or> length ready + length line' = INPUT_BUF_SIZE then (ready @ line', []) else (ready, line'))"
    unfolding full S(1) D [symmetric] by (simp add: split_beta Let_def)
  show "cons_ok (cons t)"
    using cons_commit_lines(2) [OF S(3)] S(4) key_newline [OF c]
    by (cases "(word_of_int c :: u8) = 10") (auto simp: t_def k cons_commit_def)
qed

lemma procdump_sel [simp]: "cons (procdump s) = cons s" "rhr (procdump s) = rhr s" "mem (procdump s) = mem s"
  "procs (procdump s) = procs s" "curproc (procdump s) = curproc s"
  by (simp_all add: procdump_def)

lemma consoleintr_lines:
  assumes K: "cons_ok (cons s)" and c: "0 \<le> c" "c < 256"
  shows "cons_lines (cons (consoleintr c s)) = edit_key c (cons_lines (cons s)) \<and> cons_ok (cons (consoleintr c s))"
proof -
  obtain ready line where L: "cons_lines (cons s) = (ready, line)" by fastforce
  note D = cons_okD [OF K] and R = cons_room [OF K]
  consider "c = 16" | "c = 21" | "c = 8 \<or> c = 127" | "c \<notin> {16, 21, 8, 127}" by blast
  then show ?thesis
  proof cases
    case 1 then show ?thesis using K by (simp add: consoleintr_def L)
  next
    case 2
    have "length (snd (cons_lines (cons s))) = unat (c_e (cons s) - c_w (cons s))"
    proof -
      have "unat ((c_e (cons s) - c_r (cons s)) - (c_w (cons s) - c_r (cons s))) =
          unat (c_e (cons s) - c_r (cons s)) - unat (c_w (cons s) - c_r (cons s))"
        by (rule unat_sub) (use D(2) in \<open>simp only: word_le_nat_alt\<close>)
      then show ?thesis by (simp add: cons_lines_def length_cons_all)
    qed
    then show ?thesis using 2 kill_line_lines [OF K, of "unat (c_e (cons s) - c_w (cons s))"] by (simp add: consoleintr_def L)
  next
    case 3
    show ?thesis
    proof (cases "line = []")
      case True
      then show ?thesis using 3 K cons_line_empty [OF D(2)] by (auto simp: consoleintr_def L)
    next
      case False
      then have "c_e (cons s) \<noteq> c_w (cons s)" using cons_line_empty [OF D(2)] by (simp add: L)
      then show ?thesis using 3 False cons_del_lines(1,2) [OF K] by (auto simp: consoleintr_def L cons_del_def)
    qed
  next
    case 4
    show ?thesis
    proof (cases "c \<noteq> 0 \<and> length ready + length line < INPUT_BUF_SIZE")
      case True
      let ?c = "if c = 13 then 10 else c"
      have "length (cons_all (cons s)) < INPUT_BUF_SIZE" "0 \<le> ?c" "?c < 256" using True R(2) c by (auto simp: L)
      then show ?thesis using store_key [OF K, of ?c] 4 True R(1)
        by (simp add: consoleintr_def L Let_def)
    next
      case False
      then show ?thesis using 4 K R(1) by (auto simp: consoleintr_def L)
    qed
  qed
qed

section \<open>Interrupts\<close>

lemma same_user_refl [simp]: "same_user s s"
  by (simp add: same_user_def)

lemma same_user_trans: "same_user s t \<Longrightarrow> same_user t u \<Longrightarrow> same_user s u"
  by (simp add: same_user_def)

lemma same_user_eq: "\<lbrakk>mem t = mem s; curproc t = curproc s; procs t = procs s\<rbrakk> \<Longrightarrow> same_user s t"
  by (simp add: same_user_def)

lemma same_user_wakeup: "same_user s (wakeup ch s)"
  by (auto simp: same_user_def wakeup_def Let_def wake_proc_def eevdf_refresh_deadline_def)

lemma consoleintr_user: "same_user s (consoleintr c s)" "rhr (consoleintr c s) = rhr s"
proof -
  show "same_user s (consoleintr c s)"
    unfolding consoleintr_def Let_def
    by (auto intro!: same_user_eq same_user_trans [OF same_user_eq same_user_wakeup] simp: kill_line_frame)
  show "rhr (consoleintr c s) = rhr s"
    by (simp add: consoleintr_def Let_def kill_line_frame)
qed

lemma uartintr_loop_lines:
  "\<lbrakk>cons_ok (cons s); n = length (rhr s)\<rbrakk> \<Longrightarrow>
     cons_lines (cons (uartintr_loop n s)) = foldl (\<lambda>a c. edit_key (uint c) a) (cons_lines (cons s)) (rhr s) \<and>
     cons_ok (cons (uartintr_loop n s)) \<and> rhr (uartintr_loop n s) = [] \<and> same_user s (uartintr_loop n s)"
proof (induction n arbitrary: s)
  case (Suc n)
  then obtain c cs where r: "rhr s = c # cs" by (cases "rhr s") auto
  let ?s = "consoleintr (uint c) (s\<lparr>rhr := cs\<rparr>)"
  have e: "uartintr_loop (Suc n) s = uartintr_loop n ?s"
  proof -
    have "uint c \<noteq> - 1" using uint_ge_0 [of c] by linarith
    then show ?thesis by (simp add: uartgetc_def r)
  qed
  have "uint c < 256" using unsigned_less [of c, where ?'a = int] by simp
  then have L: "cons_lines (cons ?s) = edit_key (uint c) (cons_lines (cons s))" "cons_ok (cons ?s)"
    using consoleintr_lines [of "s\<lparr>rhr := cs\<rparr>" "uint c"] Suc.prems(1) by simp_all
  have u: "same_user s ?s" by (rule same_user_trans [OF same_user_eq consoleintr_user(1)]) simp_all
  have rh: "rhr ?s = cs" by (simp add: consoleintr_user(2))
  show ?case unfolding e
    using Suc.IH [OF L(2)] Suc.prems(2) same_user_trans [OF u] by (simp add: r rh L(1))
qed simp

lemma uartintr_lines:
  assumes "cons_ok (cons s)"
  shows "cons_lines (cons (uartintr s)) = foldl (\<lambda>a c. edit_key (uint c) a) (cons_lines (cons s)) (rhr s)"
    "cons_ok (cons (uartintr s))" "rhr (uartintr s) = []" "same_user s (uartintr s)"
proof -
  let ?s = "if tx_idle s then wakeup ChTx (s\<lparr>tx_busy := False\<rparr>) else s"
  have u: "same_user s ?s" by (auto intro: same_user_trans [OF same_user_eq same_user_wakeup])
  have f: "cons ?s = cons s" "rhr ?s = rhr s" by simp_all
  have e: "uartintr s = uartintr_loop (length (rhr s)) ?s" by (simp add: uartintr_def Let_def)
  show "cons_lines (cons (uartintr s)) = foldl (\<lambda>a c. edit_key (uint c) a) (cons_lines (cons s)) (rhr s)"
    "cons_ok (cons (uartintr s))" "rhr (uartintr s) = []" "same_user s (uartintr s)"
    using uartintr_loop_lines [of ?s "length (rhr s)"] assms same_user_trans [OF u] unfolding e f by auto
qed

section \<open>Reads\<close>

lemma cons_adv_lines:
  assumes "cons_ok k" "fst (cons_lines k) = c # q"
  shows "cons_lines (cons_adv k) = (q, snd (cons_lines k))" "cons_ok (cons_adv k)" "c_buf k ! cons_at (c_r k) = c"
    "c_r k \<noteq> c_w k"
proof -
  note D = cons_okD [OF assms(1)]
  have ne: "ring_queue INPUT_BUF_SIZE (c_buf k) (c_r k) (c_e k) \<noteq> []" using D(5) assms(2) unfolding cons_all_def by auto
  note R = cr.adv_queue [OF D(1) ne, folded cons_all_def]
  have n: "unat (c_w k - c_r k) = Suc (length q)" using D(6) assms(2) by simp
  then show "c_r k \<noteq> c_w k" by auto
  show "c_buf k ! cons_at (c_r k) = c" using R(1) D(5) assms(2) by (simp add: cons_at_def)
  have a: "cons_all (cons_adv k) = q @ snd (cons_lines k)" using R(1) D(5) assms(2) by simp
  have s: "c_w (cons_adv k) = c_w k" "c_r (cons_adv k) = c_r k + 1" by (simp_all add: cons_adv_def)
  have w: "unat (c_w k - (c_r k + 1)) = length q"
  proof -
    have "unat (c_w k - c_r k - 1) = unat (c_w k - c_r k) - unat (1 :: u32)"
      by (rule unat_sub) (use n in \<open>simp only: word_le_nat_alt unat_1\<close>)
    then show ?thesis using n by (simp only: unat_1 diff_diff_add)
  qed
  show e: "cons_lines (cons_adv k) = (q, snd (cons_lines k))" unfolding cons_lines_def s a w by (simp add: cons_lines_def)
  have "length (cons_all (cons_adv k)) \<ge> length q" by (simp add: a)
  then show "cons_ok (cons_adv k)" using R(2) D(3) unfolding cons_ok_def e s w length_cons_all by simp
qed

lemma co_user_byte:
  assumes "curproc s = Some pr" "user_buf (mem s) ke (p_pagetable (procs s ! pr)) True dst (Suc n)"
  shows "\<exists>m'. co_user dst [c] s = Ret (Some (dst + 1)) (s\<lparr>mem := m'\<rparr>) \<and>
    user_store (mem s) (p_pagetable (procs s ! pr)) dst [c] m'"
proof -
  have "user_buf (mem s) ke (p_pagetable (procs s ! pr)) True dst (length [c])"
    by (rule user_buf_take [OF assms(2)]) simp
  from copyout_user [OF this] show ?thesis
    using assms(1) by (auto simp: co_user_def kcur_def knonnull_def kbind_def kret_def)
qed

lemma con_reads_cons:
  assumes "user_buf (mem s) ke (p_pagetable (procs s ! pr)) True dst (Suc n)" "length l \<le> n"
    "user_store (mem s) (p_pagetable (procs s ! pr)) dst [c] m1" "con_reads t pr (dst + 1) l q s'"
    "mem t = m1" "p_pagetable (procs t ! pr) = p_pagetable (procs s ! pr)" "snd (cons_lines (cons t)) = snd (cons_lines (cons s))"
  shows "con_reads s pr dst (c # l) q s'"
proof -
  have "user_buf (mem s) ke (p_pagetable (procs s ! pr)) True dst (length [c] + length l)"
    by (rule user_buf_take [OF assms(1)]) (use assms(2) in simp)
  from user_store_append [OF this assms(3)] assms(4-7) show ?thesis by (simp add: con_reads_def)
qed

lemma con_take_length: "con_take f n q = Some (l, q') \<Longrightarrow> length l \<le> n" "con_take f n q = None \<Longrightarrow> length q < n"
  by (induction f n q arbitrary: l q' rule: con_take.induct) (auto split: if_splits)

lemma consoleread_loop_lines:
  assumes "cons_ok (cons s)" "curproc s = Some pr" "killed pr s = 0"
    "user_buf (mem s) ke (p_pagetable (procs s ! pr)) True dst n" "int n \<le> target"
  defines "ready \<equiv> fst (cons_lines (cons s))"
  shows "case con_take (int n = target) n ready of
      Some (l, q) \<Rightarrow> \<exists>s'. consoleread_loop n target dst (int n) s = Ret (Done (target - int n + int (length l))) s' \<and> con_reads s pr dst l q s'
    | None \<Rightarrow> \<exists>s'. consoleread_loop n target dst (int n) s =
          Ret (Blocked ChCons (dst + of_nat (length ready), int (n - length ready))) s' \<and> con_reads s pr dst ready [] s'"
  using assms(1-5) unfolding ready_def
proof (induction n arbitrary: s dst)
  case 0
  then show ?case by (simp add: kret_def con_reads_def user_store_def prod_eq_iff)
next
  case (Suc n)
  show ?case
  proof (cases "fst (cons_lines (cons s))")
    case Nil
    have "c_r (cons s) = c_w (cons s)"
    proof -
      have "unat (c_w (cons s) - c_r (cons s)) = 0" using cons_okD(6) [OF Suc.prems(1)] Nil by simp
      then show ?thesis by (metis right_minus_eq unat_eq_zero)
    qed
    then show ?thesis using Suc.prems Nil
      by (simp add: kcur_def knonnull_def con_reads_def user_store_def prod_eq_iff)
  next
    case (Cons c q)
    note A = cons_adv_lines [OF Suc.prems(1) Cons]
    let ?s = "upd_cons cons_adv s"
    have adv: "upd_cons (\<lambda>k. k\<lparr>c_r := c_r k + 1\<rparr>) s = ?s" by (simp add: cons_adv_def [abs_def])
    show ?thesis
    proof (cases "c = 4")
      case True
      have bk: "upd_cons (\<lambda>k. k\<lparr>c_r := c_r k - 1\<rparr>) ?s = s" by (simp add: upd_cons_def cons_adv_def)
      have e: "consoleread_loop (Suc n) target dst (int (Suc n)) s =
          Ret (Done (target - int (Suc n))) (if int (Suc n) < target then s else ?s)"
        using Suc.prems(2) A(3,4) True bk by (simp add: kcur_def knonnull_def Let_def adv)
      show ?thesis unfolding e Cons using A(1,2) True Suc.prems(1,5) Cons
        by (auto simp: con_reads_def user_store_def prod_eq_iff)
    next
      case False
      obtain m1 where m1: "co_user dst [c] ?s = Ret (Some (dst + 1)) (?s\<lparr>mem := m1\<rparr>)"
          "user_store (mem s) (p_pagetable (procs s ! pr)) dst [c] m1"
        using co_user_byte [of ?s pr ke dst n c] Suc.prems by auto
      let ?t = "?s\<lparr>mem := m1\<rparr>"
      have t: "cons ?t = cons_adv (cons s)" "mem ?t = m1" "procs ?t = procs s" "curproc ?t = curproc s" by simp_all
      have e: "consoleread_loop (Suc n) target dst (int (Suc n)) s =
          (if c = 10 then Ret (Done (target - int n)) ?t else consoleread_loop n target (dst + 1) (int n) ?t)"
        using Suc.prems(2) A(3,4) False m1(1) by (simp add: kcur_def knonnull_def Let_def adv kbind_def kret_def)
      show ?thesis
      proof (cases "c = 10")
        case True
        then show ?thesis unfolding e Cons using A(1,2) m1(2) by (simp add: con_reads_def t)
      next
        case nl: False
        have b1: "user_buf (mem s) ke (p_pagetable (procs s ! pr)) True dst (length [c])"
          by (rule user_buf_take [OF Suc.prems(4)]) simp
        have "user_buf (mem s) ke (p_pagetable (procs s ! pr)) True (dst + of_nat 1) n"
          by (rule user_buf_drop) (use Suc.prems(4) in simp)
        then have pre: "cons_ok (cons ?t)" "curproc ?t = Some pr" "killed pr ?t = 0"
          "user_buf (mem ?t) ke (p_pagetable (procs ?t ! pr)) True (dst + 1) n" "int n \<le> target"
          using Suc.prems A(2) user_store_tables(6) [OF b1 m1(2)] by (simp_all add: killed_def)
        note ih = Suc.IH [OF pre, unfolded t A(1) fst_conv]
        have nt: "(int n = target) = False" using Suc.prems(5) by simp
        note step = con_reads_cons [OF Suc.prems(4) _ m1(2) _ t(2), of _ _ ?t]
        show ?thesis
        proof (cases "con_take False n q")
          case None
          then obtain s' where s': "consoleread_loop n target (dst + 1) (int n) ?t =
              Ret (Blocked ChCons (dst + 1 + of_nat (length q), int (n - length q))) s'" "con_reads ?t pr (dst + 1) q [] s'"
            using ih unfolding nt by auto
          have "con_reads s pr dst (c # q) [] s'"
            by (rule con_reads_cons [OF Suc.prems(4) _ m1(2) s'(2)]) (use con_take_length(2) [OF None] A(1) in simp_all)
          then show ?thesis using None s'(1) False nl unfolding e Cons by (auto simp: add.assoc)
        next
          case (Some r)
          obtain l q' where r: "r = (l, q')" by fastforce
          then obtain s' where s': "consoleread_loop n target (dst + 1) (int n) ?t = Ret (Done (target - int n + int (length l))) s'"
              "con_reads ?t pr (dst + 1) l q' s'"
            using ih Some unfolding nt by auto
          have "con_reads s pr dst (c # l) q' s'"
            by (rule con_reads_cons [OF Suc.prems(4) _ m1(2) s'(2)]) (use con_take_length(1) [of False n q l q'] Some r A(1) in simp_all)
          then show ?thesis using Some r s'(1) False nl unfolding e Cons by auto
        qed
      qed
    qed
  qed
qed

section \<open>From the keyboard to the reader\<close>

lemma consoleread_lines:
  assumes "cons_ok (cons s)" "curproc s = Some pr" "killed pr s = 0"
    "user_buf (mem s) ke (p_pagetable (procs s ! pr)) True dst n" "cons_lines (cons s) = (ready, line)"
  shows "case con_take True n ready of
      Some (l, q) \<Rightarrow> \<exists>s'. consoleread dst (int n) s = Ret (Done (int (length l))) s' \<and>
        user_bytes (mem s') (p_pagetable (procs s ! pr)) dst (length l) = l \<and> cons_lines (cons s') = (q, line)
    | None \<Rightarrow> \<exists>s'. consoleread dst (int n) s = Ret (Blocked ChCons (dst + of_nat (length ready), int (n - length ready))) s' \<and>
        user_bytes (mem s') (p_pagetable (procs s ! pr)) dst (length ready) = ready \<and> cons_lines (cons s') = ([], line)"
proof -
  have e: "consoleread dst (int n) s = consoleread_loop n (int n) dst (int n) s"
    by (simp add: consoleread_def consoleread_resume_def)
  have b: "user_bytes m' (p_pagetable (procs s ! pr)) dst (length l) = l"
    if "user_store (mem s) (p_pagetable (procs s ! pr)) dst l m'" "length l \<le> n" for l m'
    using user_bytes_store [OF user_buf_take [OF assms(4) that(2)] that(1)] .
  note L = consoleread_loop_lines [OF assms(1-4), of "int n", unfolded assms(5) fst_conv snd_conv con_reads_def]
  show ?thesis
  proof (cases "con_take True n ready")
    case None
    then show ?thesis using L b con_take_length(2) [OF None] unfolding e by fastforce
  next
    case (Some r)
    obtain l q where r: "r = (l, q)" by fastforce
    then show ?thesis using L b con_take_length(1) [of True n ready l q] Some unfolding e by fastforce
  qed
qed

text \<open>
  C35: From the keyboard to the reader. The interrupt handler turns the waiting key codes into lines as the editing keys say,
  and a read of \<open>n\<close> bytes into a mapped buffer then delivers the first line, or its first \<open>n\<close> bytes, or nothing at an
  end-of-file character, and leaves the rest for later reads; without a whole line it delivers what there is and
  sleeps.
\<close>

theorem console_line_discipline:
  assumes "cons_ok (cons s)" "curproc s = Some pr" "pr < length (procs s)" "killed pr s = 0"
    "user_buf (mem s) ke (p_pagetable (procs s ! pr)) True dst n"
    "foldl (\<lambda>a c. edit_key (uint c) a) (cons_lines (cons s)) (rhr s) = (ready, line)"
  shows "cons_lines (cons (uartintr s)) = (ready, line) \<and>
    (case con_take True n ready of
      Some (l, q) \<Rightarrow> \<exists>s'. consoleread dst (int n) (uartintr s) = Ret (Done (int (length l))) s' \<and>
        user_bytes (mem s') (p_pagetable (procs s ! pr)) dst (length l) = l \<and> cons_lines (cons s') = (q, line)
    | None \<Rightarrow> \<exists>s'. consoleread dst (int n) (uartintr s) =
          Ret (Blocked ChCons (dst + of_nat (length ready), int (n - length ready))) s' \<and>
        user_bytes (mem s') (p_pagetable (procs s ! pr)) dst (length ready) = ready \<and> cons_lines (cons s') = ([], line))"
proof -
  note U = uartintr_lines [OF assms(1)]
  let ?s = "uartintr s"
  have p: "p_pagetable (procs ?s ! pr) = p_pagetable (procs s ! pr)" "killed pr ?s = 0" "curproc ?s = Some pr" "mem ?s = mem s"
    using U(4) assms(2-4) by (auto simp: same_user_def killed_def)
  have l: "cons_lines (cons ?s) = (ready, line)" using U(1) assms(6) by simp
  have b: "user_buf (mem ?s) ke (p_pagetable (procs ?s ! pr)) True dst n" using assms(5) by (simp add: p)
  show ?thesis using consoleread_lines [OF U(2) p(3,2) b l] l unfolding p(1) by blast
qed

lemma demo_dev_sel:
  "mem (demo_dev m) = m" "length (procs (demo_dev m)) = 2" "curproc (demo_dev m) = Some 0" "killed 0 (demo_dev m) = 0" 
  "p_pagetable (procs (demo_dev m) ! 0) = 0x87FFF000" "p_pagetable (procs (demo_dev m) ! 1) = 0x87FFF000"
  "pipes (demo_dev m) p = \<lparr>pi_data = replicate PIPESIZE 5, pi_nread = 0, pi_nwrite = 0, pi_readopen = True, pi_writeopen = True\<rparr>"
  by (simp_all add: demo_dev_def mm.defs demo_mm_def files.defs fs.defs log.defs zero_proc_def killed_def)

theorem console_line_discipline_witness:
  "\<exists>m s'. consoleread 16 8 (uartintr ((demo_dev m)\<lparr>rhr := ascii ''lx'' @ [127] @ ascii ''s'' @ [13] @ ascii ''ec''\<rparr>)) = Ret (Done 3) s' \<and>
     user_bytes (mem s') 0x87FFF000 16 3 = ascii ''ls'' @ [10] \<and> cons_lines (cons s') = ([], ascii ''ec'')"
proof -
  obtain m ke where B: "user_buf m ke 0x87FFF000 True 0 4096" using demo_user_buf by blast
  have r: "user_buf m ke 0x87FFF000 True (0 + of_nat 16) 8"
    by (rule user_buf_drop, rule user_buf_take [OF B]) simp
  let ?keys = "ascii ''lx'' @ [127] @ ascii ''s'' @ [13] @ ascii ''ec''"
  let ?s = "(demo_dev m)\<lparr>rhr := ?keys\<rparr>"
  let ?k = "\<lparr>c_buf = replicate INPUT_BUF_SIZE 0, c_r = 0, c_w = 0, c_e = 0\<rparr> :: console"
  have k: "cons ?s = ?k" "rhr ?s = ?keys" "curproc ?s = Some 0" "0 < length (procs ?s)" "killed 0 ?s = 0"
      "p_pagetable (procs ?s ! 0) = 0x87FFF000" "mem ?s = m"
    by (simp_all add: demo_dev_sel(1-3,5) demo_dev_sel(4) [unfolded killed_def] killed_def, simp add: demo_dev_def mm.defs)
  have k0: "cons_lines ?k = ([], [])" by (simp add: cons_lines_def cons_all_def ring_queue_def)
  then have ok: "cons_ok ?k" by (simp add: cons_ok_def ring_ok_def)
  have ed: "foldl (\<lambda>a c. edit_key (uint c) a) ([], []) ?keys = (ascii ''ls'' @ [10], ascii ''ec'')" by code_simp
  have tk: "con_take True 8 (ascii ''ls'' @ [10]) = Some (ascii ''ls'' @ [10], [])" by code_simp
  have n: "length (ascii ''ls'' @ [10]) = 3" by (simp add: ascii_def)
  from console_line_discipline [of ?s 0 ke 16 8 "ascii ''ls'' @ [10]" "ascii ''ec''", unfolded k, OF ok _ _ _ _ ed [folded k0]]
  obtain s' where "consoleread 16 (int 8) (uartintr ?s) = Ret (Done (int 3)) s'"
      "user_bytes (mem s') 0x87FFF000 16 3 = ascii ''ls'' @ [10]" "cons_lines (cons s') = ([], ascii ''ec'')"
    unfolding tk option.case prod.case n using r k(4) by auto
  then show ?thesis by auto
qed

end
