(* ===== verification/FileIO.thy ===== *)
theory FileIO
  imports Console
begin

text \<open>
  Reading and writing open files: \<^verbatim>\<open>pipewrite\<close> and \<^verbatim>\<open>piperead\<close> of \<^verbatim>\<open>kernel/pipe.c\<close>, and \<^verbatim>\<open>filestat\<close>, \<^verbatim>\<open>fileread\<close> and
  \<^verbatim>\<open>filewrite\<close> of \<^verbatim>\<open>kernel/file.c\<close>.
\<close>

section \<open>Pipes\<close>

definition pipe_put :: "u8 \<Rightarrow> pipe \<Rightarrow> pipe" where
  "pipe_put ch p = p\<lparr>pi_data := (pi_data p)[unat (pi_nwrite p) mod PIPESIZE := ch], pi_nwrite := pi_nwrite p + 1\<rparr>"

definition pipe_get :: "pipe \<Rightarrow> u8" where
  "pipe_get p = pi_data p ! (unat (pi_nread p) mod PIPESIZE)"

text \<open>
  The loop of \<^verbatim>\<open>pipewrite\<close> from \<open>i\<close>: it stores a byte in every turn, or is done, or goes to sleep on a full pipe.
\<close>

primrec pipewrite_loop :: "nat \<Rightarrow> u64 \<Rightarrow> u64 \<Rightarrow> int \<Rightarrow> int \<Rightarrow> ('a dev_scheme, (int, int) progress) kmon" where
  "pipewrite_loop 0 p addr n i = kthen (kmod (wakeup (ChPipeRead p))) (kret (Done i))"
| "pipewrite_loop (Suc k) p addr n i =
     (if \<not> i < n then kthen (kmod (wakeup (ChPipeRead p))) (kret (Done i))
      else kcur (\<lambda>pr. \<lambda>s.
        if \<not> pi_readopen (pipes s p) \<or> killed pr s \<noteq> 0 then Ret (Done (- 1)) s
        else if pi_nwrite (pipes s p) = pi_nread (pipes s p) + of_nat PIPESIZE
        then Ret (Blocked (ChPipeWrite p) i) (wakeup (ChPipeRead p) s)
        else kbind (copyin (p_pagetable (procs s ! pr)) (addr + u64_of_int i) 1) (\<lambda>(bs, r).
          if r = - 1 then kthen (kmod (wakeup (ChPipeRead p))) (kret (Done i))
          else kthen (kmod (upd_pipe p (pipe_put (hd bs))))
                     (pipewrite_loop k p addr n (i + 1))) s))"

definition pipewrite_resume :: "u64 \<Rightarrow> u64 \<Rightarrow> int \<Rightarrow> int \<Rightarrow> ('a dev_scheme, (int, int) progress) kmon" where
  "pipewrite_resume p addr n i = pipewrite_loop (nat (n - i)) p addr n i"

definition pipewrite :: "u64 \<Rightarrow> u64 \<Rightarrow> int \<Rightarrow> ('a dev_scheme, (int, int) progress) kmon" where
  "pipewrite p addr n = pipewrite_resume p addr n 0"

primrec piperead_loop :: "nat \<Rightarrow> u64 \<Rightarrow> u64 \<Rightarrow> int \<Rightarrow> int \<Rightarrow> ('a dev_scheme, int) kmon" where
  "piperead_loop 0 p addr n i = kret i"
| "piperead_loop (Suc k) p addr n i =
     (if \<not> i < n then kret i
      else kcur (\<lambda>pr. \<lambda>s.
        if pi_nread (pipes s p) = pi_nwrite (pipes s p) then Ret i s
        else kbind (copyout (p_pagetable (procs s ! pr)) (addr + u64_of_int i) [pipe_get (pipes s p)]) (\<lambda>r.
          if r = - 1 then kret (if i = 0 then - 1 else i)
          else kthen (kmod (upd_pipe p (\<lambda>x. x\<lparr>pi_nread := pi_nread x + 1\<rparr>)))
                     (piperead_loop k p addr n (i + 1))) s))"

definition piperead :: "u64 \<Rightarrow> u64 \<Rightarrow> int \<Rightarrow> ('a dev_scheme, int) kmon" where
  "piperead p addr n = kcur (\<lambda>pr. \<lambda>s.
     if pi_nread (pipes s p) = pi_nwrite (pipes s p) \<and> pi_writeopen (pipes s p)
     then if killed pr s \<noteq> 0 then Ret (- 1) s else Sleep (ChPipeRead p) s
     else kbind (piperead_loop (nat n) p addr n 0) (\<lambda>i.
            kthen (kmod (wakeup (ChPipeWrite p))) (kret i)) s)"

section \<open>Files\<close>

text \<open>
  A \<^verbatim>\<open>struct stat\<close> as bytes. The compiler leaves four bytes of padding before \<^verbatim>\<open>size\<close>, and \<open>pad\<close> is what they happen
  to hold.
\<close>

definition encode_stat :: "u8 list \<Rightarrow> stat \<Rightarrow> u8 list" where
  "encode_stat pad st =
     wr32 (replicate 4 0) 0 (word_of_int (st_dev st)) @ wr32 (replicate 4 0) 0 (st_ino st) @
     wr16 (replicate 2 0) 0 (st_type st) @ wr16 (replicate 2 0) 0 (st_nlink st) @ take 4 (pad @ replicate 4 0) @
     map (byte_of (st_size st)) [0..<8]"

definition filestat :: "u8 list \<Rightarrow> nat \<Rightarrow> u64 \<Rightarrow> ('a dev_scheme, int) kmon" where
  "filestat pad f addr = kcur (\<lambda>p. \<lambda>s.
     if f_type (ftable s ! f) = FD_INODE \<or> f_type (ftable s ! f) = FD_DEVICE
     then knonnull (f_ip (ftable s ! f)) (\<lambda>ip.
            kthen (ilock ip)
           (kbind (kget (stati ip)) (\<lambda>st.
            kthen (iunlock ip) (\<lambda>s.
            kbind (copyout (p_pagetable (procs s ! p)) addr (encode_stat pad st)) (\<lambda>r.
              kret (if r < 0 then - 1 else 0)) s)))) s
     else Ret (- 1) s)"

definition upd_off :: "nat \<Rightarrow> int \<Rightarrow> 'a dev_scheme \<Rightarrow> 'a dev_scheme" where
  "upd_off f r s = (if r > 0 then upd_file f (\<lambda>x. x\<lparr>f_off := f_off x + word_of_int r\<rparr>) s else s)"

text \<open>
  Reading and writing go on with the console or the pipe when these are \<open>Done\<close>; a blocked one leaves its place in
  \<open>progress\<close>.
\<close>

datatype where_blocked = InConsoleRead u64 int | InConsoleWrite int "u8 list" | InPipeWrite int

fun mapb :: "('b \<Rightarrow> 'c) \<Rightarrow> ('a, 'b) progress \<Rightarrow> ('a, 'c) progress" where
  "mapb g (Done x) = Done x"
| "mapb g (Blocked ch y) = Blocked ch (g y)"

definition device :: "u16 \<Rightarrow> 'a dev_scheme \<Rightarrow> devops option" where
  "device major s = (if sint major < 0 \<or> sint major \<ge> NDEV then None else devsw s ! nat (sint major))"

definition fileread :: "nat \<Rightarrow> u64 \<Rightarrow> int \<Rightarrow> ('a dev_scheme, (int, where_blocked) progress) kmon" where
  "fileread f addr n s =
     (let x = ftable s ! f in
      if \<not> f_readable x then Ret (Done (- 1)) s
      else case f_type x of
        FD_PIPE \<Rightarrow> kbind (piperead (f_pipe x) addr n) (\<lambda>r. kret (Done r)) s
      | FD_DEVICE \<Rightarrow> (case device (f_major x) s of
            None \<Rightarrow> Ret (Done (- 1)) s
          | Some ConsoleDev \<Rightarrow> kbind (consoleread addr n) (\<lambda>r. kret (mapb (\<lambda>(d, m). InConsoleRead d m) r)) s)
      | FD_INODE \<Rightarrow> knonnull (f_ip x) (\<lambda>ip.
            kthen (ilock ip) (\<lambda>s.
            kbind (readi co_user ip addr (f_off (ftable s ! f)) (word_of_int n)) (\<lambda>(r, _).
            kthen (kmod (upd_off f r))
           (kthen (iunlock ip) (kret (Done r)))) s)) s
      | FD_NONE \<Rightarrow> Panic ''fileread'')"

text \<open>The loop of \<^verbatim>\<open>filewrite\<close> writes at least one byte in every turn but the last.\<close>

abbreviation (input) FILEWRITE_MAX :: int where "FILEWRITE_MAX \<equiv> 3072"

primrec filewrite_loop :: "nat \<Rightarrow> nat \<Rightarrow> nat \<Rightarrow> u64 \<Rightarrow> int \<Rightarrow> int \<Rightarrow> ('a dev_scheme, int) kmon" where
  "filewrite_loop 0 f ip addr n i = kret i"
| "filewrite_loop (Suc k) f ip addr n i =
     (if \<not> i < n then kret i
      else let n1 = (if n - i > FILEWRITE_MAX then FILEWRITE_MAX else n - i) in
        kthen begin_op
       (kthen (ilock ip) (\<lambda>s.
        kbind (writei ci_user ip (addr + u64_of_int i) (f_off (ftable s ! f)) (word_of_int n1)) (\<lambda>r.
        kthen (kmod (upd_off f r))
       (kthen (iunlock ip)
       (kthen end_op
         (if r \<noteq> n1 then kret i else filewrite_loop k f ip addr n (i + r))))) s)))"

definition filewrite :: "nat \<Rightarrow> u64 \<Rightarrow> int \<Rightarrow> ('a dev_scheme, (int, where_blocked) progress) kmon" where
  "filewrite f addr n s =
     (let x = ftable s ! f in
      if \<not> f_writable x then Ret (Done (- 1)) s
      else case f_type x of
        FD_PIPE \<Rightarrow> kbind (pipewrite (f_pipe x) addr n) (\<lambda>r. kret (mapb InPipeWrite r)) s
      | FD_DEVICE \<Rightarrow> (case device (f_major x) s of
            None \<Rightarrow> Ret (Done (- 1)) s
          | Some ConsoleDev \<Rightarrow> kbind (consolewrite addr n) (\<lambda>r. kret (mapb (\<lambda>(i, b). InConsoleWrite i b) r)) s)
      | FD_INODE \<Rightarrow> knonnull (f_ip x) (\<lambda>ip.
            kbind (filewrite_loop (nat n) f ip addr n 0) (\<lambda>i. kret (Done (if i = n then n else - 1)))) s
      | FD_NONE \<Rightarrow> Panic ''filewrite'')"

section \<open>The bytes in a pipe\<close>

definition pipe_queue :: "pipe \<Rightarrow> u8 list" where
  "pipe_queue x = ring_queue PIPESIZE (pi_data x) (pi_nread x) (pi_nwrite x)"

definition pipe_ok :: "pipe \<Rightarrow> bool" where
  "pipe_ok x \<longleftrightarrow> ring_ok PIPESIZE (pi_data x) (pi_nread x) (pi_nwrite x)"

definition pipe_drop :: "pipe \<Rightarrow> pipe" where
  "pipe_drop x = x\<lparr>pi_nread := pi_nread x + 1\<rparr>"

text \<open>
  A machine with one open file of seven bytes.
\<close>

definition demo_file :: "memory \<Rightarrow> dev" where
  "demo_file m = (demo_dev m)
     \<lparr>itable := [\<lparr>i_dev = 1, i_inum = 5, i_ref = 1, i_lock = initsleeplock, i_valid = 1, i_type = T_FILE, i_major = 0, i_minor = 0,
                  i_nlink = 1, i_size = 7, i_addrs = 100 # replicate NDIRECT 0\<rparr>],
      ftable := [\<lparr>f_type = FD_INODE, f_ref = 1, f_readable = True, f_writable = False, f_pipe = 0, f_ip = Some 0, f_off = 2, f_major = 0\<rparr>]\<rparr>"

interpretation pr: ring_buffer PIPESIZE pi_data pi_nread pi_nwrite pipe_put pipe_drop
  by unfold_locales (simp_all add: pipe_put_def pipe_drop_def)

lemma pipe_room:
  assumes "pipe_ok x" "pi_nwrite x \<noteq> pi_nread x + of_nat PIPESIZE" shows "length (pipe_queue x) < PIPESIZE"
  using assms pr.queue_full [of x] unfolding pipe_ok_def pipe_queue_def ring_ok_def length_ring_queue by linarith

lemma pipe_put_queue:
  assumes "pipe_ok x" "length (pipe_queue x) < PIPESIZE"
  shows "pipe_queue (pipe_put c x) = pipe_queue x @ [c]" "pipe_ok (pipe_put c x)"
  using pr.put_queue [of x c] assms unfolding pipe_ok_def pipe_queue_def by blast+

lemma pipe_get_queue:
  assumes "pipe_ok x" "pi_nread x \<noteq> pi_nwrite x"
  shows "pipe_queue x = pipe_get x # pipe_queue (pipe_drop x)" "pipe_ok (pipe_drop x)"
  using pr.adv_queue [of x] pr.queue_empty [of x] assms unfolding pipe_ok_def pipe_queue_def pipe_get_def by blast+

lemma pipe_full:
  assumes "pipe_ok x" "pi_nwrite x = pi_nread x + of_nat PIPESIZE" shows "length (pipe_queue x) = PIPESIZE"
  using pr.queue_full [of x] assms unfolding pipe_queue_def by blast

lemma pipe_empty: "pi_nread x = pi_nwrite x \<longleftrightarrow> pipe_queue x = []"
  using pr.queue_empty [of x] unfolding pipe_queue_def by blast

lemma pipe_flags [simp]:
  "pi_readopen (pipe_put c x) = pi_readopen x" "pi_writeopen (pipe_put c x) = pi_writeopen x"
  "pi_readopen (pipe_drop x) = pi_readopen x" "pi_writeopen (pipe_drop x) = pi_writeopen x"
  by (simp_all add: pipe_put_def pipe_drop_def)

section \<open>Writing\<close>

lemma user_buf_byte:
  assumes "user_buf m ke root w va n" "i < n"
  shows "user_buf m ke root w (va + of_nat i) 1"
proof -
  have "user_buf m ke root w (va + of_nat i) (n - i)"
    using assms by (intro user_buf_drop) simp
  then show ?thesis by (rule user_buf_take) (use assms(2) in simp)
qed

lemma copyin_byte:
  assumes "user_buf (mem s) ke root w va n" "i < n"
  shows "copyin root (va + of_nat i) 1 s = Ret ([user_bytes (mem s) root va n ! i], 0) s"
  using copyin_user [OF user_buf_byte [OF assms]] assms(2) by (simp add: user_bytes_def)

lemma upd_pipe_sel [simp]:
  "curproc (upd_pipe p f s) = curproc s" "procs (upd_pipe p f s) = procs s" "mem (upd_pipe p f s) = mem s"
  "pipes (upd_pipe p f s) = (pipes s)(p := f (pipes s p))" "kend (upd_pipe p f s) = kend s"
  by (simp_all add: upd_pipe_def)

lemma upd_pipe_twice [simp]: "upd_pipe p f (upd_pipe p g s) = upd_pipe p (\<lambda>x. f (g x)) s"
  by (simp add: upd_pipe_def)

lemma pipewrite_loop_queue:
  assumes "curproc s = Some pr" "killed pr s = 0" "pi_readopen (pipes s p)" "pipe_ok (pipes s p)"
    "user_buf (mem s) ke (p_pagetable (procs s ! pr)) w addr n" "i \<le> n" "n - i \<le> k"
  defines "q \<equiv> pipe_queue (pipes s p)" and "bs \<equiv> user_bytes (mem s) (p_pagetable (procs s ! pr)) addr n"
  shows "\<exists>x. pipewrite_loop k p addr (int n) (int i) s =
      Ret (if n - i \<le> PIPESIZE - length q then Done (int n) else Blocked (ChPipeWrite p) (int (i + (PIPESIZE - length q))))
        (wakeup (ChPipeRead p) (upd_pipe p (\<lambda>_. x) s)) \<and>
    pipe_ok x \<and> pi_readopen x = pi_readopen (pipes s p) \<and> pi_writeopen x = pi_writeopen (pipes s p) \<and>
    pipe_queue x = q @ take (PIPESIZE - length q) (drop i bs)"
  using assms(1-7) unfolding q_def bs_def
proof (induction k arbitrary: i s)
  case 0
  then show ?case
    by (intro exI [of _ "pipes s p"]) (simp add: kthen_def kbind_def kmod_def kret_def upd_pipe_def user_bytes_def)
next
  case (Suc k)
  let ?root = "p_pagetable (procs s ! pr)"
  let ?q = "pipe_queue (pipes s p)" and ?bs = "user_bytes (mem s) ?root addr n"
  have len: "length ?bs = n" by (simp add: user_bytes_def)
  consider "i = n" | "i < n" "pi_nwrite (pipes s p) = pi_nread (pipes s p) + of_nat PIPESIZE"
    | "i < n" "pi_nwrite (pipes s p) \<noteq> pi_nread (pipes s p) + of_nat PIPESIZE" using Suc.prems(6) by linarith
  then show ?case
  proof cases
    case 1
    then show ?thesis using Suc.prems(4) len
      by (intro exI [of _ "pipes s p"]) (simp add: kthen_def kbind_def kmod_def kret_def upd_pipe_def)
  next
    case 2
    have "length ?q = PIPESIZE" by (rule pipe_full [OF Suc.prems(4) 2(2)])
    moreover have "pipewrite_loop (Suc k) p addr (int n) (int i) s = Ret (Blocked (ChPipeWrite p) (int i)) (wakeup (ChPipeRead p) s)"
      using Suc.prems(1-3) 2 by (simp add: kcur_def knonnull_def)
    ultimately show ?thesis using Suc.prems(4) 2(1)
      by (intro exI [of _ "pipes s p"]) (simp add: upd_pipe_def del: pipewrite_loop.simps)
  next
    case 3
    let ?s = "upd_pipe p (pipe_put (?bs ! i)) s"
    note R = pipe_room [OF Suc.prems(4) 3(2)]
    note P = pipe_put_queue [OF Suc.prems(4) R, of "?bs ! i"]
    have c: "copyin ?root (addr + of_nat i) 1 s = Ret ([?bs ! i], 0) s" by (rule copyin_byte [OF Suc.prems(5) 3(1)])
    have e: "pipewrite_loop (Suc k) p addr (int n) (int i) s = pipewrite_loop k p addr (int n) (int (Suc i)) ?s"
      using Suc.prems(1-3) 3 c
      by (simp add: kcur_def knonnull_def kbind_def kthen_def kmod_def u64_of_int_def add.commute)
    have pre: "curproc ?s = Some pr" "killed pr ?s = 0" "pi_readopen (pipes ?s p)" "pipe_ok (pipes ?s p)"
      "user_buf (mem ?s) ke (p_pagetable (procs ?s ! pr)) w addr n" "Suc i \<le> n" "n - Suc i \<le> k"
      using Suc.prems 3 P(2) by (simp_all add: killed_def)
    note ih = Suc.IH [OF pre, unfolded upd_pipe_sel fun_upd_same P(1) pipe_flags upd_pipe_twice]
    have d: "drop i ?bs = ?bs ! i # drop (Suc i) ?bs" using 3(1) len by (simp add: Cons_nth_drop_Suc)
    obtain j where j: "PIPESIZE - length ?q = Suc j" "PIPESIZE - length (?q @ [?bs ! i]) = j"
      using R by (cases "PIPESIZE - length ?q") auto
    show ?thesis using ih 3(1) unfolding e d j by (auto simp: Suc_diff_le)
  qed
qed

section \<open>Reading\<close>

lemma upd_pipe_mem: "upd_pipe p f ((upd_pipe p g s)\<lparr>mem := m\<rparr>) = upd_pipe p (\<lambda>x. f (g x)) (s\<lparr>mem := m\<rparr>)"
  by (simp add: upd_pipe_def)

lemma piperead_loop_queue:
  assumes "curproc s = Some pr" "pipe_ok (pipes s p)"
    "user_buf (mem s) ke (p_pagetable (procs s ! pr)) True addr n" "i \<le> n" "n - i \<le> k"
  defines "q \<equiv> pipe_queue (pipes s p)"
  shows "\<exists>x m'. piperead_loop k p addr (int n) (int i) s =
      Ret (int (i + min (n - i) (length q))) (upd_pipe p (\<lambda>_. x) (s\<lparr>mem := m'\<rparr>)) \<and>
    pipe_ok x \<and> pi_readopen x = pi_readopen (pipes s p) \<and> pi_writeopen x = pi_writeopen (pipes s p) \<and>
    pipe_queue x = drop (n - i) q \<and>
    user_store (mem s) (p_pagetable (procs s ! pr)) (addr + of_nat i) (take (n - i) q) m'"
  using assms(1-5) unfolding q_def
proof (induction k arbitrary: i s)
  case 0
  then show ?case
    by (intro exI [of _ "pipes s p"] exI [of _ "mem s"]) (simp add: kret_def upd_pipe_def user_store_def)
next
  case (Suc k)
  let ?root = "p_pagetable (procs s ! pr)" and ?q = "pipe_queue (pipes s p)" and ?c = "pipe_get (pipes s p)"
  show ?case
  proof (cases "i < n \<and> ?q \<noteq> []")
    case False
    then have "piperead_loop (Suc k) p addr (int n) (int i) s = Ret (int i) s"
      using Suc.prems(1) pipe_empty [of "pipes s p"] by (auto simp: kret_def kcur_def knonnull_def)
    moreover have "min (n - i) (length ?q) = 0" "drop (n - i) ?q = ?q" "take (n - i) ?q = []" using False Suc.prems(4) by auto
    ultimately show ?thesis using Suc.prems(2)
      by (intro exI [of _ "pipes s p"] exI [of _ "mem s"]) (auto simp: upd_pipe_def user_store_def simp del: piperead_loop.simps)
  next
    case True
    then have i: "i < n" and ne: "pi_nread (pipes s p) \<noteq> pi_nwrite (pipes s p)" using pipe_empty by auto
    note G = pipe_get_queue [OF Suc.prems(2) ne]
    have b1: "user_buf (mem s) ke ?root True (addr + of_nat i) (length [?c])"
      using user_buf_byte [OF Suc.prems(3) i] by simp
    obtain m1 where m1: "copyout ?root (addr + of_nat i) [?c] s = Ret 0 (s\<lparr>mem := m1\<rparr>)"
        "user_store (mem s) ?root (addr + of_nat i) [?c] m1"
      using copyout_user [OF b1] by blast
    let ?s = "upd_pipe p pipe_drop (s\<lparr>mem := m1\<rparr>)"
    have e: "piperead_loop (Suc k) p addr (int n) (int i) s = piperead_loop k p addr (int n) (int (Suc i)) ?s"
      using Suc.prems(1) i ne m1(1)
      by (simp add: kcur_def knonnull_def kbind_def kthen_def kmod_def u64_of_int_def pipe_drop_def [abs_def] add.commute)
    have pre: "curproc ?s = Some pr" "pipe_ok (pipes ?s p)"
      "user_buf (mem ?s) ke (p_pagetable (procs ?s ! pr)) True addr n" "Suc i \<le> n" "n - Suc i \<le> k"
      using Suc.prems i G(2) user_store_tables(6) [OF b1 m1(2)] by simp_all
    obtain x m' where x: "piperead_loop k p addr (int n) (int (Suc i)) ?s =
        Ret (int (Suc i + min (n - Suc i) (length (pipe_queue (pipe_drop (pipes s p)))))) (upd_pipe p (\<lambda>_. x) (s\<lparr>mem := m'\<rparr>))"
      "pipe_ok x" "pi_readopen x = pi_readopen (pipes s p)" "pi_writeopen x = pi_writeopen (pipes s p)"
      "pipe_queue x = drop (n - Suc i) (pipe_queue (pipe_drop (pipes s p)))"
      "user_store m1 ?root (addr + of_nat (Suc i)) (take (n - Suc i) (pipe_queue (pipe_drop (pipes s p)))) m'"
      using Suc.IH [OF pre] by (simp add: upd_pipe_mem) blast
    obtain j where j: "n - i = Suc j" "n - Suc i = j" using i by (metis Suc_diff_Suc)
    have "user_store (mem s) ?root (addr + of_nat i) ([?c] @ take j (pipe_queue (pipe_drop (pipes s p)))) m'"
    proof (rule user_store_append [OF _ m1(2)])
      have "n = i + Suc j" using j(1) i by simp
      then have "user_buf (mem s) ke ?root True (addr + of_nat i) (Suc j)"
        using Suc.prems(3) by (intro user_buf_drop) simp
      then show "user_buf (mem s) ke ?root True (addr + of_nat i) (length [?c] + length (take j (pipe_queue (pipe_drop (pipes s p)))))"
        by (rule user_buf_take) simp
      show "user_store m1 ?root (addr + of_nat i + of_nat (length [?c])) (take j (pipe_queue (pipe_drop (pipes s p)))) m'"
        using x(6) j by (simp add: algebra_simps)
    qed
    then show ?thesis
      using x unfolding e G(1) j by (intro exI [of _ x] exI [of _ m']) simp
  qed
qed

section \<open>Through the pipe\<close>

lemma wakeup_sel [simp]:
  "pipes (wakeup ch s) = pipes s" "mem (wakeup ch s) = mem s" "kend (wakeup ch s) = kend s" "curproc (wakeup ch s) = curproc s"
  by (simp_all add: wakeup_def Let_def)

lemma wakeup_pagetable: "r < length (procs s) \<Longrightarrow> p_pagetable (procs (wakeup ch s) ! r) = p_pagetable (procs s ! r)"
  by (auto simp: wakeup_def Let_def wake_proc_def eevdf_refresh_deadline_def)

lemma pipewrite_queue:
  assumes "curproc s = Some pr" "killed pr s = 0" "pi_readopen (pipes s p)" "pipe_ok (pipes s p)"
    "user_buf (mem s) ke (p_pagetable (procs s ! pr)) w addr n"
  defines "q \<equiv> pipe_queue (pipes s p)" and "bs \<equiv> user_bytes (mem s) (p_pagetable (procs s ! pr)) addr n"
  shows "\<exists>x. pipewrite p addr (int n) s =
      Ret (if n \<le> PIPESIZE - length q then Done (int n) else Blocked (ChPipeWrite p) (int (PIPESIZE - length q)))
        (wakeup (ChPipeRead p) (upd_pipe p (\<lambda>_. x) s)) \<and>
    pipe_ok x \<and> pi_readopen x \<and> pi_writeopen x = pi_writeopen (pipes s p) \<and>
    pipe_queue x = q @ take (PIPESIZE - length q) bs"
proof -
  have e: "pipewrite p addr (int n) s = pipewrite_loop n p addr (int n) (int 0) s"
    by (simp add: pipewrite_def pipewrite_resume_def)
  have "0 \<le> n" "n - 0 \<le> n" by simp_all
  from pipewrite_loop_queue [OF assms(1-5) this] assms(3)
  show ?thesis unfolding e q_def bs_def diff_zero add_0 drop_0 by blast
qed

lemma piperead_queue:
  assumes "curproc s = Some pr" "pipe_ok (pipes s p)"
    "user_buf (mem s) ke (p_pagetable (procs s ! pr)) True addr n" "pipe_queue (pipes s p) \<noteq> [] \<or> \<not> pi_writeopen (pipes s p)"
  defines "q \<equiv> pipe_queue (pipes s p)"
  shows "\<exists>x m'. piperead p addr (int n) s =
      Ret (int (min n (length q))) (wakeup (ChPipeWrite p) (upd_pipe p (\<lambda>_. x) (s\<lparr>mem := m'\<rparr>))) \<and>
    pipe_ok x \<and> pi_readopen x = pi_readopen (pipes s p) \<and> pi_writeopen x = pi_writeopen (pipes s p) \<and>
    pipe_queue x = drop n q \<and> user_store (mem s) (p_pagetable (procs s ! pr)) addr (take n q) m'"
proof -
  have "\<not> (pi_nread (pipes s p) = pi_nwrite (pipes s p) \<and> pi_writeopen (pipes s p))"
    using assms(4) pipe_empty by blast
  then show ?thesis
    using piperead_loop_queue [OF assms(1-3), of 0 n] assms(1)
    by (fastforce simp: piperead_def kcur_def knonnull_def kbind_def kthen_def kmod_def kret_def q_def)
qed

text \<open>
  C34: A pipe is a queue of bytes. Writing \<open>n\<close> bytes of a mapped buffer appends them, in order, up to the room of 512 bytes;
  if they do not all fit the writer goes to sleep knowing how far it has come. A reader, the same process or another one,
  then gets the oldest bytes in order, old ones before the new ones, as many as it asked for or as there are, and they are
  gone from the pipe. The 32-bit indices may wrap around.
\<close>

theorem pipe_fifo:
  assumes "pipe_ok (pipes s p)" "pi_readopen (pipes s p)" "curproc s = Some pr" "killed pr s = 0"
    "user_buf (mem s) ke (p_pagetable (procs s ! pr)) False src n"
    "r < length (procs s)" "user_buf (mem s) ke (p_pagetable (procs s ! r)) True dst k"
  defines "room \<equiv> PIPESIZE - length (pipe_queue (pipes s p))"
  defines "q \<equiv> pipe_queue (pipes s p) @ take room (user_bytes (mem s) (p_pagetable (procs s ! pr)) src n)"
  assumes "q \<noteq> []"
  shows "\<exists>s1 s2. pipewrite p src (int n) s =
       Ret (if n \<le> room then Done (int n) else Blocked (ChPipeWrite p) (int room)) s1 \<and>
     pipe_queue (pipes s1 p) = q \<and>
     piperead p dst (int k) (s1\<lparr>curproc := Some r\<rparr>) = Ret (int (min k (length q))) s2 \<and>
     user_bytes (mem s2) (p_pagetable (procs s ! r)) dst (min k (length q)) = take k q \<and>
     pipe_queue (pipes s2 p) = drop k q"
proof -
  obtain x where x: "pipewrite p src (int n) s =
      Ret (if n \<le> room then Done (int n) else Blocked (ChPipeWrite p) (int room)) (wakeup (ChPipeRead p) (upd_pipe p (\<lambda>_. x) s))"
      "pipe_ok x" "pipe_queue x = q"
    using pipewrite_queue [OF assms(3,4,2,1,5)] unfolding room_def q_def by blast
  let ?s1 = "wakeup (ChPipeRead p) (upd_pipe p (\<lambda>_. x) s)"
  let ?s = "?s1\<lparr>curproc := Some r\<rparr>" and ?root = "p_pagetable (procs s ! r)"
  have root: "p_pagetable (procs ?s ! r) = ?root" using assms(6) by (simp add: wakeup_pagetable)
  have "curproc ?s = Some r" "pipe_ok (pipes ?s p)" "user_buf (mem ?s) ke (p_pagetable (procs ?s ! r)) True dst k"
    "pipe_queue (pipes ?s p) \<noteq> [] \<or> \<not> pi_writeopen (pipes ?s p)" "pipe_queue (pipes ?s p) = q"
    unfolding root using x assms(7,10) by simp_all
  from piperead_queue [OF this(1-4)] this(5) obtain y m' where y:
    "piperead p dst (int k) ?s = Ret (int (min k (length q))) (wakeup (ChPipeWrite p) (upd_pipe p (\<lambda>_. y) (?s\<lparr>mem := m'\<rparr>)))"
    "pipe_queue y = drop k q" "user_store (mem s) ?root dst (take k q) m'" unfolding root by auto
  have "user_buf (mem s) ke ?root True dst (length (take k q))" by (rule user_buf_take [OF assms(7)]) simp
  from user_bytes_store [OF this y(3)] have "user_bytes m' ?root dst (min k (length q)) = take k q"
    by (simp add: min.commute)
  then show ?thesis using x y
    by (intro exI [of _ ?s1] exI [of _ "wakeup (ChPipeWrite p) (upd_pipe p (\<lambda>_. y) (?s\<lparr>mem := m'\<rparr>))"]) simp
qed

theorem pipe_fifo_witness:
  "\<exists>m s1 s2. pipewrite 0x1000 0 3 (demo_dev m) = Ret (Done 3) s1 \<and>
     piperead 0x1000 256 2 (s1\<lparr>curproc := Some 1\<rparr>) = Ret 2 s2 \<and>
     user_bytes (mem s2) 0x87FFF000 256 2 = user_bytes m 0x87FFF000 0 2"
proof -
  obtain m ke where B: "user_buf m ke 0x87FFF000 True 0 4096" using demo_user_buf by blast
  have w: "user_buf m ke 0x87FFF000 False 0 3"
    by (rule user_buf_read, rule user_buf_take [OF B]) simp
  have r: "user_buf m ke 0x87FFF000 True (0 + of_nat 256) 2"
    by (rule user_buf_drop, rule user_buf_take [OF B]) simp
  let ?p = "\<lparr>pi_data = replicate PIPESIZE 5, pi_nread = 0, pi_nwrite = 0, pi_readopen = True, pi_writeopen = True\<rparr> :: pipe"
  have q: "pipe_queue ?p = []" "pipe_ok ?p" by (simp_all add: pipe_queue_def ring_queue_def pipe_ok_def ring_ok_def)
  have t: "take 2 (take 512 (user_bytes m 0x87FFF000 0 3)) = user_bytes m 0x87FFF000 0 2"
    by (simp add: user_bytes_def upt_rec)
  have ne: "[] @ take (PIPESIZE - length []) (user_bytes m 0x87FFF000 0 3) \<noteq> []" by (simp add: user_bytes_def)
  from pipe_fifo [of "demo_dev m" "0x1000" 0 ke 0 3 1 256 2, unfolded demo_dev_sel q(1)] w r q(2) ne
  obtain s1 s2 where "pipewrite 0x1000 0 3 (demo_dev m) = Ret (Done 3) s1"
      "piperead 0x1000 256 2 (s1\<lparr>curproc := Some 1\<rparr>) = Ret 2 s2"
      "user_bytes (mem s2) 0x87FFF000 256 2 = take 2 (take 512 (user_bytes m 0x87FFF000 0 3))"
    by (auto simp: length_user_bytes)
  then show ?thesis using t by auto
qed

section \<open>Reading a file\<close>

lemma moved_mypid:
  assumes "moved s t" "\<And>p. curproc s = Some p \<Longrightarrow> p < length (procs s)" shows "mypid t = mypid s"
proof (cases "curproc s")
  case (Some p)
  have "p_pid (procs t ! p) = p_pid (procs s ! p)"
    by (rule pcore_field(1) [OF movedD(4) [OF assms(1) assms(2) [OF Some]]])
  then show ?thesis using Some movedD(2) [OF assms(1)] by (simp add: mypid_def)
qed (simp add: mypid_def movedD(2) [OF assms(1)])

lemma moved_files:
  fixes s :: "'a files_scheme"
  assumes "moved s t" shows "ftable t = ftable s" "itable t = itable s" "pipes t = pipes s"
  using assms unfolding moved_def by auto

lemma cache_itable [simp]: "cache dev (s\<lparr>itable := I\<rparr>) v R L = cache dev s v R L"
  by (simp add: cache_def mypid_def split: option.split)

lemma cache_ftable [simp]: "cache dev (s\<lparr>ftable := F\<rparr>) v R L = cache dev s v R L"
  by (simp add: cache_def mypid_def split: option.split)

lemma cache_wakeup [simp]: "cache dev s v R L \<Longrightarrow> cache dev (wakeup ch s) v R L"
  unfolding cache_def using wakeup_mypid [of s ch] by simp

lemma inode_lock_sel [simp]:
  "mypid (set_inode_lock i lk s) = mypid s" "curproc (set_inode_lock i lk s) = curproc s" "procs (set_inode_lock i lk s) = procs s"
  "mem (set_inode_lock i lk s) = mem s" "kend (set_inode_lock i lk s) = kend s" "disk (set_inode_lock i lk s) = disk s"
  "cache dev (set_inode_lock i lk s) v R L = cache dev s v R L"
  "itable (set_inode_lock i lk s) = (itable s)[i := (itable s ! i)\<lparr>i_lock := lk\<rparr>]"
  by (simp_all add: set_inode_lock_def upd_inode_def mypid_def split: option.split)

lemma ftable_inode_lock [simp]: "ftable (set_inode_lock i lk s) = ftable s"
  by (simp add: set_inode_lock_def upd_inode_def)

lemma ilock_valid:
  assumes "i < length (itable s)" "1 \<le> i_ref (itable s ! i)" "\<not> sl_locked (i_lock (itable s ! i))" "i_valid (itable s ! i) \<noteq> 0"
  shows "ilock i s = Ret () (set_inode_lock i (sl_mine (mypid s)) s)"
  using assms by (simp add: ilock_def kthen_def kbind_def acquiresleep_def inode_lock_def sl_mine_def Let_def)

lemma iunlock_mine:
  assumes "1 \<le> i_ref (itable s ! i)" "i_lock (itable s ! i) = sl_mine (mypid s)"
  shows "iunlock i s = Ret () (wakeup (ChInodeLock i) (set_inode_lock i initsleeplock s))"
  using assms by (simp add: iunlock_def holdingsleep_def inode_lock_def sl_mine_def releasesleep_def initsleeplock_def)

lemma file_lock [simp]: "file_data v (ip\<lparr>i_lock := lk\<rparr>) = file_data v ip" "file_ok v (ip\<lparr>i_lock := lk\<rparr>) = file_ok v ip"
proof -
  have b: "file_block v (ip\<lparr>i_lock := lk\<rparr>) = file_block v ip" by (rule ext) (simp add: file_block_def)
  show "file_data v (ip\<lparr>i_lock := lk\<rparr>) = file_data v ip" by (simp add: file_data_def file_byte_def [abs_def] b)
  show "file_ok v (ip\<lparr>i_lock := lk\<rparr>) = file_ok v ip" by (simp add: file_ok_def b)
qed

lemma upd_off_sel [simp]:
  "mem (upd_off f r s) = mem s" "curproc (upd_off f r s) = curproc s" "procs (upd_off f r s) = procs s" "itable (upd_off f r s) = itable s"
  "disk (upd_off f r s) = disk s" "mypid (upd_off f r s) = mypid s" "cache dev (upd_off f r s) v R L = cache dev s v R L"
  by (simp_all add: upd_off_def upd_file_def mypid_def split: option.split)

lemma upd_off_ftable: "f < length (ftable s) \<Longrightarrow> f_off (ftable (upd_off f (int n) s) ! f) = f_off (ftable s ! f) + of_nat n"
  by (simp add: upd_off_def upd_file_def)

text \<open>
  C37: Reading an open file. \<^verbatim>\<open>fileread\<close> of \<open>n\<close> bytes into a mapped buffer of the caller delivers exactly the bytes of the file
  from the file offset on, up to \<open>n\<close> of them or the end of the file, through direct and indirect blocks and across page
  boundaries of the buffer; the offset advances by as many, the inode lock is released, and cache and disk are as
  before.
\<close>

theorem fileread_file:
  assumes F: "f < length (ftable s)" "f_readable (ftable s ! f)" "f_type (ftable s ! f) = FD_INODE" "f_ip (ftable s ! f) = Some i"
    and I: "i < length (itable s)" "1 \<le> i_ref (itable s ! i)" "\<not> sl_locked (i_lock (itable s ! i))" "i_valid (itable s ! i) \<noteq> 0"
    and C: "cache (i_dev (itable s ! i)) s v R {}" "cache_room R" "file_ok v (itable s ! i)"
    and P: "curproc s = Some p" "p < length (procs s)"
    and k: "unat (f_off (ftable s ! f)) \<le> unat (i_size (itable s ! i))" "unat (f_off (ftable s ! f)) + n < 2 ^ 32"
  defines "bs \<equiv> take n (drop (unat (f_off (ftable s ! f))) (file_data v (itable s ! i)))"
  assumes U: "user_buf (mem s) (kend s) (p_pagetable (procs s ! p)) True addr (length bs)"
  shows "\<exists>s'. fileread f addr (int n) s = Ret (Done (int (length bs))) s' \<and>
    user_bytes (mem s') (p_pagetable (procs s ! p)) addr (length bs) = bs \<and>
    f_off (ftable s' ! f) = f_off (ftable s ! f) + of_nat (length bs) \<and>
    itable s' = (itable s)[i := (itable s ! i)\<lparr>i_lock := initsleeplock\<rparr>] \<and>
    cache (i_dev (itable s ! i)) s' v R {} \<and> disk s' = disk s"
proof -
  let ?root = "p_pagetable (procs s ! p)" and ?off = "f_off (ftable s ! f)" and ?dev = "i_dev (itable s ! i)"
  define s1 where "s1 = set_inode_lock i (sl_mine (mypid s)) s"
  have ip: "itable s1 ! i = (itable s ! i)\<lparr>i_lock := sl_mine (mypid s)\<rparr>"
    "itable s1 = (itable s)[i := (itable s ! i)\<lparr>i_lock := sl_mine (mypid s)\<rparr>]" using I(1) by (simp_all add: s1_def)
  have e1: "curproc s1 = Some p" "procs s1 = procs s" "mem s1 = mem s" "kend s1 = kend s" "cache ?dev s1 v R {}"
    "mypid s1 = mypid s" "ftable s1 = ftable s" "disk s1 = disk s"
    using P C(1) by (simp_all add: s1_def)
  have lb: "length bs = min n (unat (i_size (itable s ! i)) - unat ?off)"
    using k(1) by (simp add: bs_def file_data_def min.commute)
  have rd: "user_ready s1 addr (min n (unat (i_size (itable s1 ! i)) - unat ?off))"
    using U P unfolding lb by (simp add: user_ready_def ip(1) e1)
  have "\<exists>s2. readi co_user i addr (of_nat (unat ?off)) (of_nat n) s1 =
        Ret (int (length (take n (drop (unat ?off) (file_data v (itable s1 ! i))))), user_adv addr (take n (drop (unat ?off) (file_data v (itable s1 ! i))))) s2 \<and>
      moved s1 s2 \<and> cache (i_dev (itable s1 ! i)) s2 v R {} \<and>
      user_stored s1 addr (take n (drop (unat ?off) (file_data v (itable s1 ! i)))) (mem s2)"
    by (rule cu.readi_ok [OF _ C(2) _ _ k(2) rd]) (use C k(1) in \<open>simp_all add: ip(1) e1\<close>)
  then obtain s2 where s2: "readi co_user i addr ?off (of_nat n) s1 = Ret (int (length bs), user_adv addr bs) s2"
      "moved s1 s2" "cache ?dev s2 v R {}" "user_stored s1 addr bs (mem s2)"
    unfolding ip(1) file_lock bs_def by auto
  note M = moved_files [OF s2(2)]
  let ?s3 = "upd_off f (int (length bs)) s2"
  have pid: "mypid ?s3 = mypid s" using moved_mypid [OF s2(2)] P by (simp add: e1)
  have it3: "itable ?s3 ! i = (itable s ! i)\<lparr>i_lock := sl_mine (mypid ?s3)\<rparr>" using M(2) ip(1) pid by simp
  let ?s4 = "wakeup (ChInodeLock i) (set_inode_lock i initsleeplock ?s3)"
  have "iunlock i ?s3 = Ret () ?s4" by (rule iunlock_mine) (use I(2) it3 in simp_all)
  moreover have "ilock i s = Ret () s1" unfolding s1_def by (rule ilock_valid [OF I])
  ultimately have "fileread f addr (int n) s = Ret (Done (int (length bs))) ?s4"
    using F(2-4) s2(1) e1(7) by (simp add: fileread_def knonnull_def kthen_def kbind_def kmod_def kret_def Let_def)
  moreover have "user_store (mem s) ?root addr bs (mem s2)" using s2(4) P by (simp add: user_stored_def e1)
  from user_bytes_store [OF U this] have "user_bytes (mem ?s4) ?root addr (length bs) = bs" by simp
  moreover have "f_off (ftable ?s4 ! f) = ?off + of_nat (length bs)"
    using upd_off_ftable [of f s2 "length bs"] F(1) M(1) e1(7) by (simp add: wakeup_def)
  moreover have "itable ?s4 = (itable s)[i := (itable s ! i)\<lparr>i_lock := initsleeplock\<rparr>]"
    using M(2) I(1) ip(2) by (simp add: wakeup_def)
  moreover have "disk ?s4 = disk s" using movedD(1) [OF s2(2)] e1(8) by simp
  ultimately show ?thesis using s2(3) by (intro exI [of _ ?s4]) simp
qed

lemma cache_kend [simp]: "cache dev (s\<lparr>kend := k\<rparr>) v R L = cache dev s v R L"
  by (simp add: cache_def mypid_def split: option.split)

lemma demo_file_cache: "cache 1 (demo_file m) (\<lambda>_. replicate BSIZE 0) (\<lambda>_. 0) {}"
proof -
  have "bufs (demo_file m) = bufs (binit boot_bio)" "disk (demo_file m) = disk (binit boot_bio)"
    by (simp_all add: demo_file_def demo_dev_def mm.defs demo_mm_def files.defs fs.defs log.defs demo_log_def bio.defs)
  moreover have "curproc (demo_file m) = Some 0" "length (procs (demo_file m)) = 2"
    by (simp_all add: demo_file_def demo_dev_sel)
  ultimately show ?thesis
    using cacheb_pid [OF cacheD [OF boot_bio_cache]] unfolding cache_def by simp
qed

theorem fileread_file_witness:
  "\<exists>m ke s'. fileread 0 16 100 ((demo_file m)\<lparr>kend := ke\<rparr>) = Ret (Done 5) s' \<and>
     user_bytes (mem s') 0x87FFF000 16 5 = replicate 5 0 \<and> f_off (ftable s' ! 0) = 7"
proof -
  obtain m ke where B: "user_buf m ke 0x87FFF000 True 0 4096" using demo_user_buf by blast
  let ?s = "(demo_file m)\<lparr>kend := ke\<rparr>" and ?v = "\<lambda>_. replicate BSIZE 0 :: u8 list" and ?R = "\<lambda>_. 0 :: nat"
  have U: "user_buf m ke 0x87FFF000 True (0 + of_nat 16) 5"
    by (rule user_buf_drop, rule user_buf_take [OF B]) simp
  have sel: "ftable (demo_file m) ! 0 = \<lparr>f_type = FD_INODE, f_ref = 1, f_readable = True, f_writable = False, f_pipe = 0, f_ip = Some 0, f_off = 2, f_major = 0\<rparr>"
      "length (ftable (demo_file m)) = 1" "length (itable (demo_file m)) = 1" "curproc (demo_file m) = Some 0" "length (procs (demo_file m)) = 2" "mem (demo_file m) = m"
      "p_pagetable (procs (demo_file m) ! 0) = 0x87FFF000"
    by (simp_all add: demo_file_def demo_dev_sel)
  have ip: "i_dev (itable (demo_file m) ! 0) = 1" "i_ref (itable (demo_file m) ! 0) = 1" "i_lock (itable (demo_file m) ! 0) = initsleeplock" "i_valid (itable (demo_file m) ! 0) = 1"
      "i_size (itable (demo_file m) ! 0) = 7" "i_addrs (itable (demo_file m) ! 0) = 100 # replicate NDIRECT 0"
    by (simp_all add: demo_file_def)
  have C: "cache (i_dev (itable ?s ! 0)) ?s ?v ?R {}" using demo_file_cache [of m] ip(1) by simp
  have fd: "file_data ?v (itable ?s ! 0) = replicate 7 0"
    by (rule nth_equalityI) (simp_all add: file_data_def ip file_byte_def)
  have ok: "file_ok ?v (itable ?s ! 0)"
    unfolding file_ok_def
  proof (intro conjI allI impI)
    fix bn assume "bn * BSIZE < unat (i_size (itable ?s ! 0))"
    then have "bn = 0" using ip(5) by (cases bn) auto
    then show "file_block ?v (itable ?s ! 0) bn \<noteq> 0" using ip(6) by (simp add: file_block_def)
  qed (simp_all add: ip)
  let ?bs = "take 100 (drop (unat (f_off (ftable ?s ! 0))) (file_data ?v (itable ?s ! 0)))"
  have bs: "?bs = replicate 5 0" unfolding fd using sel(1) by simp
  from fileread_file [of 0 ?s 0 ?v ?R 0 100 16, unfolded bs] show ?thesis
    using C ok U sel ip by (auto simp: cache_room_def initsleeplock_def)
qed

end
