(* ===== verification/Proc.thy ===== *)
theory Proc
  imports FileIO
begin

text \<open>
  The life of a process, \<^verbatim>\<open>kernel/proc.c\<close>: allocating and freeing a process, its page table, growing its memory,
  fork, exit, wait, waitpid and the process listing.

  The locks the source takes make each scan of the table one step. \<^verbatim>\<open>kwait\<close> and \<^verbatim>\<open>kwaitpid\<close> start over when they are
  woken, so an outcome \<^const>\<open>Sleep\<close> loses nothing. \<^verbatim>\<open>kexit\<close> is modelled up to its \<^verbatim>\<open>sched\<close>, which does not come back.
\<close>

section \<open>Data\<close>

text \<open>The addresses of \<^verbatim>\<open>forkret\<close> and \<^verbatim>\<open>usertrap\<close> are the linker's; \<open>first\<close> is the static variable of \<^verbatim>\<open>forkret\<close>.\<close>

record sys = dev +
  forkret_addr :: u64
  usertrap_addr :: u64
  first :: bool

definition TF_kernel_satp :: u64 where "TF_kernel_satp = 0"
definition TF_kernel_sp :: u64 where "TF_kernel_sp = 8"
definition TF_kernel_trap :: u64 where "TF_kernel_trap = 16"
definition TF_epc :: u64 where "TF_epc = 24"
definition TF_kernel_hartid :: u64 where "TF_kernel_hartid = 32"
definition TF_sp :: u64 where "TF_sp = 48"
definition TF_a :: "nat \<Rightarrow> u64" where "TF_a i = 112 + 8 * of_nat i"
definition TF_SIZE :: nat where "TF_SIZE = 288"

definition tf_get :: "nat \<Rightarrow> u64 \<Rightarrow> 'a kmem_scheme \<Rightarrow> u64" where
  "tf_get p off s = ld64 (mem s) (p_trapframe (procs s ! p) + off)"

definition tf_set :: "nat \<Rightarrow> u64 \<Rightarrow> u64 \<Rightarrow> 'a kmem_scheme \<Rightarrow> 'a kmem_scheme" where
  "tf_set p off v s = upd_mem (\<lambda>m. sd64 m (p_trapframe (procs s ! p) + off) v) s"

section \<open>Allocating and freeing\<close>

definition procinit :: "'a ptable_scheme \<Rightarrow> 'a ptable_scheme" where
  "procinit s = foldl (\<lambda>s i. upd_proc i (\<lambda>p. p\<lparr>p_state := UNUSED, p_kstack := KSTACK i\<rparr>) s) s [0..<NPROC]"

definition proc_pagetable :: "nat \<Rightarrow> ('a vm_scheme, u64) kmon" where
  "proc_pagetable p = kbind uvmcreate (\<lambda>pagetable.
     if pagetable = 0 then kret 0
     else kbind (\<lambda>s. mappages pagetable TRAMPOLINE PGSIZE (trampoline s) (PTE_R OR PTE_X) s) (\<lambda>r.
       if r < 0 then kthen (uvmfree pagetable 0) (kret 0)
       else kbind (\<lambda>s. mappages pagetable TRAPFRAME PGSIZE (p_trapframe (procs s ! p)) (PTE_R OR PTE_W) s) (\<lambda>r.
         if r < 0 then kthen (uvmunmap pagetable TRAMPOLINE 1 False) (kthen (uvmfree pagetable 0) (kret 0))
         else kret pagetable)))"

definition proc_freepagetable :: "u64 \<Rightarrow> u64 \<Rightarrow> ('a vm_scheme, unit) kmon" where
  "proc_freepagetable pagetable sz =
     kthen (uvmunmap pagetable TRAMPOLINE 1 False)
    (kthen (uvmunmap pagetable TRAPFRAME 1 False)
           (uvmfree pagetable sz))"

definition freeproc :: "nat \<Rightarrow> ('a mm_scheme, unit) kmon" where
  "freeproc p =
     kthen (\<lambda>s. kwhen (p_trapframe (procs s ! p) \<noteq> 0) (kfree (p_trapframe (procs s ! p))) s)
    (kthen (kmod (upd_proc p (\<lambda>x. x\<lparr>p_trapframe := 0\<rparr>)))
    (kthen (mmapfreeproc p)
    (kthen (\<lambda>s. kwhen (p_pagetable (procs s ! p) \<noteq> 0)
                   (proc_freepagetable (p_pagetable (procs s ! p)) (p_sz (procs s ! p))) s)
           (kmod (upd_proc p (\<lambda>x. x\<lparr>p_pagetable := 0, p_sz := 0, p_pid := 0, p_nice := 20, p_parent := None,
              p_name := (p_name x)[0 := 0], p_chan := None, p_killed := 0, p_xstate := 0, p_state := UNUSED,
              p_weight := 0, p_runtime := 0, p_vruntime := 0, p_vdeadline := 0, p_remain_slice := 0,
              p_eligible := 0\<rparr>))))))"

text \<open>The fields \<^verbatim>\<open>allocproc\<close> sets before it allocates memory.\<close>

definition proc_fresh :: "int \<Rightarrow> proc \<Rightarrow> proc" where
  "proc_fresh pid x =
     (let x = x\<lparr>p_pid := pid, p_state := USED, p_nice := NICE_DEFAULT, p_weight := nice_weight NICE_DEFAULT,
                p_runtime := 0, p_vruntime := 0, p_remain_slice := BASE_SLICE, p_eligible := 0\<rparr>
      in x\<lparr>p_vdeadline := p_vruntime x + eevdf_slice_delta (p_weight x)\<rparr>)"

definition context_zero :: kcontext where
  "context_zero = \<lparr>ctx_ra = 0, ctx_sp = 0, ctx_s = replicate 12 0\<rparr>"

definition allocproc :: "('a sys_scheme, nat option) kmon" where
  "allocproc = (\<lambda>s. case first_index (\<lambda>x. p_state x = UNUSED) (procs s) of
       None \<Rightarrow> Ret None s
     | Some p \<Rightarrow>
         kbind allocpid (\<lambda>pid.
         kthen (kmod (upd_proc p (proc_fresh pid)))
        (kbind kalloc (\<lambda>tf.
         kthen (kmod (upd_proc p (\<lambda>x. x\<lparr>p_trapframe := tf\<rparr>)))
           (if tf = 0 then kthen (freeproc p) (kret None)
            else kbind (proc_pagetable p) (\<lambda>pt.
              kthen (kmod (upd_proc p (\<lambda>x. x\<lparr>p_pagetable := pt\<rparr>)))
                (if pt = 0 then kthen (freeproc p) (kret None)
                 else kthen (\<lambda>s. Ret () (upd_proc p (\<lambda>x. x\<lparr>p_context := context_zero\<lparr>ctx_ra := forkret_addr s,
                               ctx_sp := p_kstack x + PGSIZE\<rparr>\<rparr>) s))
                        (kret (Some p)))))))) s)"

definition userinit :: "('a sys_scheme, unit) kmon" where
  "userinit = kbind allocproc (\<lambda>p.
     kthen (kmod (\<lambda>s. s\<lparr>initproc := p\<rparr>))
       (knonnull p (\<lambda>p.
         kbind (namei (ascii ''/'')) (\<lambda>ip.
         kthen (kmod (upd_proc p (\<lambda>x. x\<lparr>p_cwd := ip\<rparr>)))
               (kmod (upd_proc p (\<lambda>x. x\<lparr>p_state := RUNNABLE\<rparr>)))))))"

definition growproc :: "int \<Rightarrow> ('a kmem_scheme, int) kmon" where
  "growproc n = kcur (\<lambda>p. \<lambda>s.
     let sz = p_sz (procs s ! p); pt = p_pagetable (procs s ! p); newsz = sz + u64_of_int n in
     if n > 0 then
       if newsz < sz \<or> newsz > MMAPBASE then Ret (- 1) s
       else kbind (uvmalloc pt sz newsz PTE_W) (\<lambda>sz.
         if sz = 0 then kret (- 1)
         else kthen (kmod (upd_proc p (\<lambda>x. x\<lparr>p_sz := sz\<rparr>))) (kret 0)) s
     else if n < 0 then
       kbind (uvmdealloc pt sz newsz) (\<lambda>sz. kthen (kmod (upd_proc p (\<lambda>x. x\<lparr>p_sz := sz\<rparr>))) (kret 0)) s
     else Ret 0 s)"

section \<open>fork\<close>

definition fork_files :: "nat \<Rightarrow> nat \<Rightarrow> ('a files_scheme, unit) kmon" where
  "fork_files p np = kforeach (\<lambda>i. \<lambda>s. case p_ofile (procs s ! p) ! i of
       None \<Rightarrow> Ret () s
     | Some f \<Rightarrow> kbind (filedup f) (\<lambda>f. kmod (upd_proc np (\<lambda>x. x\<lparr>p_ofile := (p_ofile x)[i := Some f]\<rparr>))) s) [0..<NOFILE]"

definition kfork :: "('a sys_scheme, int) kmon" where
  "kfork = kcur (\<lambda>p. kbind allocproc (\<lambda>np. case np of
       None \<Rightarrow> kret (- 1)
     | Some np \<Rightarrow>
         kbind (\<lambda>s. uvmcopy (p_pagetable (procs s ! p)) (p_pagetable (procs s ! np)) (p_sz (procs s ! p)) s) (\<lambda>r.
         if r < 0 then kthen (freeproc np) (kret (- 1))
         else kthen (\<lambda>s. Ret () (upd_proc np (\<lambda>x. x\<lparr>p_sz := p_sz (procs s ! p)\<rparr>) s))
             (kbind (mmapfork p np) (\<lambda>r.
              if r < 0 then kthen (freeproc np) (kret (- 1))
              else
                kthen (\<lambda>s. let q = procs s ! p in Ret () (upd_proc np (\<lambda>x.
                   eevdf_refresh_deadline (x\<lparr>p_nice := p_nice q, p_weight := nice_weight (p_nice q), p_runtime := 0,
                     p_vruntime := p_vruntime q, p_remain_slice := BASE_SLICE\<rparr>)) s))
               (kthen (\<lambda>s. Ret () (upd_mem (\<lambda>m. wrbytes m (p_trapframe (procs s ! np))
                                     (rdbytes m (p_trapframe (procs s ! p)) TF_SIZE)) s))
               (kthen (kmod (tf_set np (TF_a 0) 0))
               (kthen (fork_files p np)
               (kbind (\<lambda>s. knonnull (p_cwd (procs s ! p)) idup s) (\<lambda>cwd.
                kthen (kmod (upd_proc np (\<lambda>x. x\<lparr>p_cwd := Some cwd\<rparr>)))
               (kthen (\<lambda>s. Ret () (upd_proc np (\<lambda>x.
                   x\<lparr>p_name := the (safestrcpy (p_name x) (p_name (procs s ! p)) 16)\<rparr>) s))
               (kbind (kget (\<lambda>s. p_pid (procs s ! np))) (\<lambda>pid.
                kthen (kmod (upd_proc np (\<lambda>x. x\<lparr>p_parent := Some p\<rparr>)))
               (kthen (kmod (upd_proc np (\<lambda>x. x\<lparr>p_state := RUNNABLE\<rparr>)))
                      (kret pid)))))))))))))))"

section \<open>exit and wait\<close>

definition close_files :: "nat \<Rightarrow> ('a files_scheme, unit) kmon" where
  "close_files p = kforeach (\<lambda>fd. \<lambda>s. case p_ofile (procs s ! p) ! fd of
       None \<Rightarrow> Ret () s
     | Some f \<Rightarrow> kthen (fileclose f) (kmod (upd_proc p (\<lambda>x. x\<lparr>p_ofile := (p_ofile x)[fd := None]\<rparr>))) s) [0..<NOFILE]"

text \<open>No process sleeps on the null channel, so the \<^verbatim>\<open>wakeup\<close> of a null parent does nothing.\<close>

definition kexit :: "int \<Rightarrow> ('a sys_scheme, unit) kmon" where
  "kexit status = kcur (\<lambda>p.
     kthen (\<lambda>s. kguard (Some p \<noteq> initproc s) ''init exiting'' s)
    (kthen (mmapfreeproc p)
    (kthen (close_files p)
    (kthen begin_op
    (kthen (\<lambda>s. knonnull (p_cwd (procs s ! p)) iput s)
    (kthen end_op
    (kthen (kmod (upd_proc p (\<lambda>x. x\<lparr>p_cwd := None\<rparr>)))
    (kthen (kmod (reparent p))
    (kthen (\<lambda>s. Ret () (case p_parent (procs s ! p) of Some q \<Rightarrow> wakeup (ChProc q) s | None \<Rightarrow> s))
    (kthen (kmod (upd_proc p (\<lambda>x. x\<lparr>p_xstate := status, p_state := ZOMBIE\<rparr>)))
           (kmod (\<lambda>s. s\<lparr>curproc := None\<rparr>))))))))))))"

definition encode_int :: "int \<Rightarrow> u8 list" where
  "encode_int x = wr32 (replicate 4 0) 0 (word_of_int x)"

definition kwait :: "u64 \<Rightarrow> ('a sys_scheme, int) kmon" where
  "kwait addr = kcur (\<lambda>p. \<lambda>s.
     case first_index (\<lambda>x. p_parent x = Some p \<and> p_state x = ZOMBIE) (procs s) of
       Some pp \<Rightarrow>
         let pid = p_pid (procs s ! pp) in
         kbind (if addr \<noteq> 0 then copyout (p_pagetable (procs s ! p)) addr (encode_int (p_xstate (procs s ! pp))) else kret 0) (\<lambda>r.
           if r < 0 then kret (- 1) else kthen (freeproc pp) (kret pid)) s
     | None \<Rightarrow>
         if \<not> (\<exists>x\<in>set (procs s). p_parent x = Some p) \<or> killed p s \<noteq> 0 then Ret (- 1) s
         else Sleep (ChProc p) s)"

definition kwaitpid :: "int \<Rightarrow> ('a sys_scheme, int) kmon" where
  "kwaitpid pid = kcur (\<lambda>p. \<lambda>s.
     case first_index (\<lambda>x. p_state x \<noteq> UNUSED \<and> p_pid x = pid) (procs s) of
       None \<Rightarrow> Ret (- 1) s
     | Some pp \<Rightarrow>
         if p_parent (procs s ! pp) \<noteq> Some p then Ret (- 1) s
         else if p_state (procs s ! pp) = ZOMBIE then kthen (freeproc pp) (kret 0) s
         else if killed p s \<noteq> 0 then Ret (- 1) s
         else Sleep (ChProc p) s)"

section \<open>Listing the processes\<close>

definition padded :: "nat \<Rightarrow> nat \<Rightarrow> u8 list" where
  "padded len width = replicate (width - len) 32"

definition padded_print_str :: "u8 list \<Rightarrow> nat \<Rightarrow> u8 list" where
  "padded_print_str s width = (let s = print_string s in s @ padded (length s) width)"

text \<open>The number of turns of \<^verbatim>\<open>while(tmp > 0) tmp /= 10\<close>.\<close>

fun count_digits :: "nat \<Rightarrow> nat" where
  "count_digits tmp = (if tmp > 0 then Suc (count_digits (tmp div 10)) else 0)"

declare count_digits.simps [simp del]

definition padded_print_int :: "int \<Rightarrow> nat \<Rightarrow> u8 list" where
  "padded_print_int n width =
     printed ''%d'' [PW (u64_of_int n)] @ padded (if n = 0 then 1 else count_digits (nat n)) width"

definition padded_print_uint64 :: "u64 \<Rightarrow> nat \<Rightarrow> u8 list" where
  "padded_print_uint64 n width = printed ''%ld'' [PW n] @ padded (if n = 0 then 1 else count_digits (unat n)) width"

definition kps_state :: "procstate \<Rightarrow> string" where
  "kps_state st = (case st of UNUSED \<Rightarrow> ''unused'' | USED \<Rightarrow> ''used'' | SLEEPING \<Rightarrow> ''sleeping'' | RUNNABLE \<Rightarrow> ''runnable''
     | RUNNING \<Rightarrow> ''running'' | ZOMBIE \<Rightarrow> ''zombie'')"

definition kps_header :: "u64 \<Rightarrow> u8 list" where
  "kps_header total_tick =
     concat (map (\<lambda>(h, w). padded_print_str (ascii h) w)
       [(''name'', 16), (''pid'', 8), (''state'', 12), (''priority'', 10), (''runtime/weight'', 16), (''runtime'', 12),
        (''vruntime'', 12), (''vdeadline'', 12), (''is_eligible'', 12)]) @
     printed ''tick %ld '' [PW total_tick] @ [10]"

definition kps_row :: "eevdf_rq_stats \<Rightarrow> proc \<Rightarrow> u8 list" where
  "kps_row st p =
     (let eligible = (if eevdf_on_rq p \<and> nr st > 0 \<and> sum_weight st > 0 then eevdf_is_eligible p st else 0) in
      padded_print_str (the (safestrcpy (replicate 16 0) (p_name p) 16)) 16 @
      padded_print_int (p_pid p) 8 @
      padded_print_str (ascii (kps_state (p_state p))) 12 @
      padded_print_int (p_nice p) 10 @
      padded_print_uint64 (if p_weight p > 0 then udiv64 (p_runtime p) (u64_of_int (p_weight p)) else 0) 16 @
      padded_print_uint64 (p_runtime p) 12 @
      padded_print_uint64 (p_vruntime p) 12 @
      padded_print_uint64 (p_vdeadline p) 12 @
      padded_print_str (ascii (if eligible \<noteq> 0 then ''true'' else ''false'')) 12 @ [10])"

definition kps :: "int \<Rightarrow> 'a dev_scheme \<Rightarrow> 'a dev_scheme" where
  "kps pid s =
     (if pid \<noteq> 0 \<and> \<not> (\<exists>p\<in>set (procs s). p_state p \<noteq> UNUSED \<and> p_pid p = pid) then s
      else let st = eevdf_collect_rq_stats (procs s) stats_zero;
               total_tick = ucast (ticks s) * MILLI_TICK
        in kprint (kps_header total_tick @
             concat (map (\<lambda>p. if p_state p = UNUSED \<or> (pid \<noteq> 0 \<and> p_pid p \<noteq> pid) then [] else kps_row st p) (procs s))) s)"

end
