(* ===== verification/Exec.thy ===== *)
theory Exec
  imports Proc
begin

text \<open>
  Running a program: \<^verbatim>\<open>kernel/exec.c\<close> and the ELF formats of \<^verbatim>\<open>kernel/elf.h\<close>.

  An argument string is its characters without the NUL, the argument vector the list of its strings. \<^verbatim>\<open>goto bad\<close> is a
  left value of a sum, with the size the error path frees. The loop of \<^verbatim>\<open>loadseg\<close> is bounded by the pages of the segment.
\<close>

section \<open>Data\<close>

abbreviation (input) ELF_MAGIC :: u32 where "ELF_MAGIC \<equiv> 0x464C457F"
abbreviation (input) ELF_PROG_LOAD :: u32 where "ELF_PROG_LOAD \<equiv> 1"

record elfhdr =
  eh_magic :: u32
  eh_entry :: u64
  eh_phoff :: u64
  eh_phnum :: u16

record proghdr =
  ph_type :: u32
  ph_flags :: u32
  ph_off :: u64
  ph_vaddr :: u64
  ph_filesz :: u64
  ph_memsz :: u64

definition rd64 :: "u8 list \<Rightarrow> nat \<Rightarrow> u64" where
  "rd64 d i = ucast (rd32 d i) OR push_bit 32 (ucast (rd32 d (i + 4)))"

definition decode_elfhdr :: "u8 list \<Rightarrow> elfhdr" where
  "decode_elfhdr d = \<lparr>eh_magic = rd32 d 0, eh_entry = rd64 d 24, eh_phoff = rd64 d 32, eh_phnum = rd16 d 56\<rparr>"

definition decode_proghdr :: "u8 list \<Rightarrow> proghdr" where
  "decode_proghdr d = \<lparr>ph_type = rd32 d 0, ph_flags = rd32 d 4, ph_off = rd64 d 8, ph_vaddr = rd64 d 16,
     ph_filesz = rd64 d 32, ph_memsz = rd64 d 40\<rparr>"

definition flags2perm :: "u32 \<Rightarrow> u64" where
  "flags2perm flags = (if flags AND 1 \<noteq> 0 then PTE_X else 0) OR (if flags AND 2 \<noteq> 0 then PTE_W else 0)"

section \<open>Loading\<close>

primrec loadseg_loop :: "nat \<Rightarrow> u64 \<Rightarrow> u64 \<Rightarrow> nat \<Rightarrow> u32 \<Rightarrow> u32 \<Rightarrow> u32 \<Rightarrow> ('a fs_scheme, int) kmon" where
  "loadseg_loop 0 pagetable va ip offset sz i = kret 0"
| "loadseg_loop (Suc k) pagetable va ip offset sz i =
     (if \<not> i < sz then kret 0
      else kbind (walkaddr pagetable (va + ucast i)) (\<lambda>pa.
        kthen (kguard (pa \<noteq> 0) ''loadseg: address should exist'')
          (let n = (if sz - i < 4096 then sz - i else 4096) in
           kbind (readi co_mem ip pa (offset + i) n) (\<lambda>(r, _).
             if r \<noteq> uint n then kret (- 1)
             else loadseg_loop k pagetable va ip offset sz (i + 4096)))))"

definition loadseg :: "u64 \<Rightarrow> u64 \<Rightarrow> nat \<Rightarrow> u32 \<Rightarrow> u32 \<Rightarrow> ('a fs_scheme, int) kmon" where
  "loadseg pagetable va ip offset sz = loadseg_loop ((unat sz + 4095) div 4096) pagetable va ip offset sz 0"

definition proghdr_ok :: "proghdr \<Rightarrow> bool" where
  "proghdr_ok ph \<longleftrightarrow> \<not> ph_memsz ph < ph_filesz ph \<and> \<not> ph_vaddr ph + ph_memsz ph < ph_vaddr ph \<and> ph_vaddr ph mod PGSIZE = 0"

primrec exec_load :: "nat \<Rightarrow> nat \<Rightarrow> u64 \<Rightarrow> int \<Rightarrow> u64 \<Rightarrow> ('a fs_scheme, u64 + u64) kmon" where
  "exec_load 0 ip pagetable off sz = kret (Inr sz)"
| "exec_load (Suc k) ip pagetable off sz =
     kbind (readi co_local ip [] (word_of_int off) 56) (\<lambda>(r, d).
       if r \<noteq> 56 then kret (Inl sz)
       else let ph = decode_proghdr d in
         if ph_type ph \<noteq> ELF_PROG_LOAD then exec_load k ip pagetable (i32 (off + 56)) sz
         else if \<not> proghdr_ok ph then kret (Inl sz)
         else kbind (uvmalloc pagetable sz (ph_vaddr ph + ph_memsz ph) (flags2perm (ph_flags ph))) (\<lambda>sz1.
           if sz1 = 0 then kret (Inl sz)
           else kbind (loadseg pagetable (ph_vaddr ph) ip (ucast (ph_off ph)) (ucast (ph_filesz ph))) (\<lambda>r.
             if r < 0 then kret (Inl sz1) else exec_load k ip pagetable (i32 (off + 56)) sz1)))"

text \<open>The first part of \<^verbatim>\<open>kexec\<close>, with the inode locked: the page table and the size, and the entry point.\<close>

definition exec_image :: "nat \<Rightarrow> nat \<Rightarrow> ('a fs_scheme, (u64 \<times> u64) + (u64 \<times> u64 \<times> u64)) kmon" where
  "exec_image p ip = kbind (readi co_local ip [] 0 64) (\<lambda>(r, d).
     if r \<noteq> 64 then kret (Inl (0, 0))
     else let elf = decode_elfhdr d in
       if eh_magic elf \<noteq> ELF_MAGIC then kret (Inl (0, 0))
       else kbind (proc_pagetable p) (\<lambda>pagetable.
         if pagetable = 0 then kret (Inl (0, 0))
         else kbind (exec_load (unat (eh_phnum elf)) ip pagetable (i32_of_u64 (eh_phoff elf)) 0) (\<lambda>r. case r of
             Inl sz \<Rightarrow> kret (Inl (pagetable, sz))
           | Inr sz \<Rightarrow> kret (Inr (pagetable, sz, eh_entry elf)))))"

section \<open>The user stack\<close>

primrec exec_args :: "u8 list list \<Rightarrow> nat \<Rightarrow> u64 \<Rightarrow> u64 \<Rightarrow> u64 \<Rightarrow> ('a mm_scheme, (u64 \<times> u64 list) option) kmon" where
  "exec_args [] argc pagetable sp stackbase = kret (Some (sp, []))"
| "exec_args (arg # argv) argc pagetable sp stackbase =
     (if argc \<ge> MAXARG then kret None
      else let sp = sp - of_nat (length arg + 1); sp = sp - sp mod 16 in
        if sp < stackbase then kret None
        else kbind (copyout pagetable sp (arg @ [0])) (\<lambda>r.
          if r < 0 then kret None
          else kbind (exec_args argv (argc + 1) pagetable sp stackbase) (\<lambda>q.
            kret (map_option (\<lambda>(sp', ustack). (sp', sp # ustack)) q))))"

text \<open>Behind \<^verbatim>\<open>MAXARG\<close> arguments the terminating 0 would be stored past the end of \<^verbatim>\<open>ustack\<close>.\<close>

definition exec_stack :: "u64 \<Rightarrow> u64 \<Rightarrow> u8 list list \<Rightarrow> ('a mm_scheme, u64 + (u64 \<times> u64)) kmon" where
  "exec_stack pagetable sz argv =
     (let sz = PGROUNDUP sz in
      kbind (uvmalloc pagetable sz (sz + 2 * PGSIZE) PTE_W) (\<lambda>sz1.
        if sz1 = 0 then kret (Inl sz)
        else kthen (uvmclear pagetable (sz1 - 2 * PGSIZE))
          (kbind (exec_args argv 0 pagetable sz1 (sz1 - PGSIZE)) (\<lambda>q. case q of
             None \<Rightarrow> kret (Inl sz1)
           | Some (sp, ustack) \<Rightarrow>
               kthen (kguard (length argv < MAXARG) ''ustack'')
                 (let sp = sp - of_nat (8 * (length argv + 1)); sp = sp - sp mod 16 in
                  if sp < sz1 - PGSIZE then kret (Inl sz1)
                  else kbind (copyout pagetable sp (concat (map (\<lambda>v. map (byte_of v) [0..<8]) (ustack @ [0])))) (\<lambda>r.
                    if r < 0 then kret (Inl sz1) else kret (Inr (sz1, sp))))))))"

section \<open>kexec\<close>

definition exec_bad :: "u64 \<Rightarrow> u64 \<Rightarrow> ('a vm_scheme, int) kmon" where
  "exec_bad pagetable sz = kthen (kwhen (pagetable \<noteq> 0) (proc_freepagetable pagetable sz)) (kret (- 1))"

definition path_last :: "u8 list \<Rightarrow> u8 list" where
  "path_last path = rev (takeWhile (\<lambda>c. c \<noteq> SLASH) (rev path))"

definition exec_commit :: "nat \<Rightarrow> u8 list \<Rightarrow> u64 \<Rightarrow> u64 \<Rightarrow> u64 \<Rightarrow> u64 \<Rightarrow> ('a mm_scheme, unit) kmon" where
  "exec_commit p path pagetable sz sp entry = (\<lambda>s.
     let oldsz = p_sz (procs s ! p); oldpagetable = p_pagetable (procs s ! p) in
     kthen (kmod (tf_set p (TF_a 1) sp))
    (kthen (kmod (upd_proc p (\<lambda>x. x\<lparr>p_name := the (safestrcpy (p_name x) (path_last path @ [0]) 16)\<rparr>)))
    (kthen (mmapfreeproc p)
    (kthen (kmod (upd_proc p (\<lambda>x. x\<lparr>p_pagetable := pagetable, p_sz := sz\<rparr>)))
    (kthen (kmod (tf_set p TF_epc entry))
    (kthen (kmod (tf_set p TF_sp sp))
           (proc_freepagetable oldpagetable oldsz)))))) s)"

definition kexec :: "u8 list \<Rightarrow> u8 list list \<Rightarrow> ('a mm_scheme, int) kmon" where
  "kexec path argv = kcur (\<lambda>p.
     kthen begin_op
    (kbind (namei path) (\<lambda>ip. case ip of
       None \<Rightarrow> kthen end_op (kret (- 1))
     | Some ip \<Rightarrow>
         kthen (ilock ip)
        (kbind (exec_image p ip) (\<lambda>r. case r of
             Inl (pagetable, sz) \<Rightarrow>
               kbind (exec_bad pagetable sz) (\<lambda>e. kthen (iunlockput ip) (kthen end_op (kret e)))
           | Inr (pagetable, sz, entry) \<Rightarrow>
               kthen (iunlockput ip)
              (kthen end_op
              (kbind (exec_stack pagetable sz argv) (\<lambda>q. case q of
                   Inl sz \<Rightarrow> exec_bad pagetable sz
                 | Inr (sz, sp) \<Rightarrow> kthen (exec_commit p path pagetable sz sp entry) (kret (int (length argv)))))))))))"

end
