(* ===== verification/Sysfile.thy ===== *)
theory Sysfile
  imports Exec
begin

text \<open>
  The arguments of system calls, \<^verbatim>\<open>kernel/syscall.c\<close>, and the file-system calls of \<^verbatim>\<open>kernel/sysfile.c\<close>.

  A string argument is \<^const>\<open>None\<close> when \<^verbatim>\<open>argstr\<close> fails, else the string; a file argument likewise. The system calls
  return the \<^verbatim>\<open>uint64\<close> that goes into \<^verbatim>\<open>a0\<close>.
\<close>

section \<open>Arguments\<close>

definition fetchaddr :: "u64 \<Rightarrow> ('a mm_scheme, u64 option) kmon" where
  "fetchaddr addr = kcur (\<lambda>p. \<lambda>s.
     if addr \<ge> p_sz (procs s ! p) \<or> addr + 8 > p_sz (procs s ! p) then Ret None s
     else kbind (copyin (p_pagetable (procs s ! p)) addr 8) (\<lambda>(bs, r).
            kret (if r \<noteq> 0 then None else Some (rd64 bs 0))) s)"

definition fetchstr :: "u64 \<Rightarrow> nat \<Rightarrow> ('a mm_scheme, u8 list option) kmon" where
  "fetchstr addr mx = kcur (\<lambda>p. \<lambda>s. copyinstr (p_pagetable (procs s ! p)) addr mx s)"

definition argraw :: "nat \<Rightarrow> ('a kmem_scheme, u64) kmon" where
  "argraw n = kcur (\<lambda>p. if n < 6 then kget (tf_get p (TF_a n)) else kpanic ''argraw'')"

definition argint :: "nat \<Rightarrow> ('a kmem_scheme, int) kmon" where
  "argint n = kbind (argraw n) (\<lambda>x. kret (i32_of_u64 x))"

definition argaddr :: "nat \<Rightarrow> ('a kmem_scheme, u64) kmon" where
  "argaddr n = argraw n"

definition argstr :: "nat \<Rightarrow> nat \<Rightarrow> ('a mm_scheme, u8 list option) kmon" where
  "argstr n mx = kbind (argaddr n) (\<lambda>addr. fetchstr addr mx)"

definition argfd :: "nat \<Rightarrow> ('a mm_scheme, (nat \<times> nat) option) kmon" where
  "argfd n = kbind (argint n) (\<lambda>fd. kcur (\<lambda>p. \<lambda>s.
     if fd < 0 \<or> fd \<ge> int NOFILE then Ret None s
     else Ret (map_option (\<lambda>f. (nat fd, f)) (p_ofile (procs s ! p) ! nat fd)) s))"

definition fdalloc :: "nat \<Rightarrow> ('a mm_scheme, int) kmon" where
  "fdalloc f = kcur (\<lambda>p. \<lambda>s. case first_index (\<lambda>x. x = None) (p_ofile (procs s ! p)) of
     Some fd \<Rightarrow> Ret (int fd) (upd_proc p (\<lambda>x. x\<lparr>p_ofile := (p_ofile x)[fd := Some f]\<rparr>) s)
   | None \<Rightarrow> Ret (- 1) s)"

definition clear_fd :: "nat \<Rightarrow> ('a mm_scheme, unit) kmon" where
  "clear_fd fd = kcur (\<lambda>p. kmod (upd_proc p (\<lambda>x. x\<lparr>p_ofile := (p_ofile x)[fd := None]\<rparr>)))"

section \<open>File descriptors\<close>

definition sys_dup :: "('a mm_scheme, u64) kmon" where
  "sys_dup = kbind (argfd 0) (\<lambda>r. case r of
       None \<Rightarrow> kret (- 1)
     | Some (_, f) \<Rightarrow> kbind (fdalloc f) (\<lambda>fd.
         if fd < 0 then kret (- 1) else kbind (filedup f) (\<lambda>_. kret (u64_of_int fd))))"

definition sys_read :: "('a dev_scheme, (int, where_blocked) progress) kmon" where
  "sys_read = kbind (argaddr 1) (\<lambda>p. kbind (argint 2) (\<lambda>n. kbind (argfd 0) (\<lambda>r. case r of
       None \<Rightarrow> kret (Done (- 1))
     | Some (_, f) \<Rightarrow> fileread f p n)))"

definition sys_write :: "('a dev_scheme, (int, where_blocked) progress) kmon" where
  "sys_write = kbind (argaddr 1) (\<lambda>p. kbind (argint 2) (\<lambda>n. kbind (argfd 0) (\<lambda>r. case r of
       None \<Rightarrow> kret (Done (- 1))
     | Some (_, f) \<Rightarrow> filewrite f p n)))"

definition sys_close :: "('a mm_scheme, u64) kmon" where
  "sys_close = kbind (argfd 0) (\<lambda>r. case r of
       None \<Rightarrow> kret (- 1)
     | Some (fd, f) \<Rightarrow> kthen (clear_fd fd) (kthen (fileclose f) (kret 0)))"

definition sys_fstat :: "u8 list \<Rightarrow> ('a dev_scheme, u64) kmon" where
  "sys_fstat pad = kbind (argaddr 1) (\<lambda>st. kbind (argfd 0) (\<lambda>r. case r of
       None \<Rightarrow> kret (- 1)
     | Some (_, f) \<Rightarrow> kbind (filestat pad f st) (\<lambda>r. kret (u64_of_int r))))"

section \<open>Links\<close>

definition upd_nlink :: "nat \<Rightarrow> (u16 \<Rightarrow> u16) \<Rightarrow> ('a fs_scheme, unit) kmon" where
  "upd_nlink i g = kthen (kmod (upd_inode i (\<lambda>ip. ip\<lparr>i_nlink := g (i_nlink ip)\<rparr>))) (iupdate i)"

definition link_bad :: "nat \<Rightarrow> ('a fs_scheme, u64) kmon" where
  "link_bad ip = kthen (ilock ip) (kthen (upd_nlink ip (\<lambda>n. n - 1)) (kthen (iunlockput ip) (kthen end_op (kret (- 1)))))"

definition link_paths :: "u8 list \<Rightarrow> u8 list \<Rightarrow> ('a fs_scheme, u64) kmon" where
  "link_paths old new = kthen begin_op (kbind (namei old) (\<lambda>ip. case ip of
       None \<Rightarrow> kthen end_op (kret (- 1))
     | Some ip \<Rightarrow> kthen (ilock ip) (\<lambda>s.
         if i_type (itable s ! ip) = T_DIR then kthen (iunlockput ip) (kthen end_op (kret (- 1))) s
         else kthen (upd_nlink ip (\<lambda>n. n + 1))
             (kthen (iunlock ip)
             (kbind (nameiparent new) (\<lambda>r. case r of
                None \<Rightarrow> link_bad ip
              | Some (dp, name) \<Rightarrow> kthen (ilock dp) (\<lambda>s.
                  kbind (if i_dev (itable s ! dp) \<noteq> i_dev (itable s ! ip) then kret (- 1)
                         else dirlink dp name (i_inum (itable s ! ip))) (\<lambda>r.
                    if r < 0 then kthen (iunlockput dp) (link_bad ip)
                    else kthen (iunlockput dp) (kthen (iput ip) (kthen end_op (kret 0)))) s)))) s)))"

definition sys_link :: "('a mm_scheme, u64) kmon" where
  "sys_link = kbind (argstr 0 MAXPATH) (\<lambda>old. case old of None \<Rightarrow> kret (- 1)
     | Some old \<Rightarrow> kbind (argstr 1 MAXPATH) (\<lambda>new. case new of None \<Rightarrow> kret (- 1)
         | Some new \<Rightarrow> link_paths old new))"

definition isdirempty :: "nat \<Rightarrow> ('a fs_scheme, bool) kmon" where
  "isdirempty dp = (\<lambda>s. kbind (kfirst (\<lambda>off. kbind (read_dirent dp ''isdirempty: readi'' off) (\<lambda>de.
       kret (if de_inum de \<noteq> 0 then Some () else None))) (drop 2 (dir_offsets (i_size (itable s ! dp)))))
     (\<lambda>r. kret (r = None)) s)"

definition unlink_entry :: "nat \<Rightarrow> nat \<Rightarrow> u32 \<Rightarrow> ('a fs_scheme, unit) kmon" where
  "unlink_entry dp ip off = kbind (writei ci_local dp (replicate 16 0) off 16) (\<lambda>r.
     kthen (kguard (r = 16) ''unlink: writei'') (\<lambda>s.
     kthen (kwhen (i_type (itable s ! ip) = T_DIR) (upd_nlink dp (\<lambda>n. n - 1)))
    (kthen (iunlockput dp)
    (kthen (upd_nlink ip (\<lambda>n. n - 1))
           (iunlockput ip))) s))"

definition unlink_path :: "u8 list \<Rightarrow> ('a fs_scheme, u64) kmon" where
  "unlink_path path = kthen begin_op (kbind (nameiparent path) (\<lambda>r. case r of
       None \<Rightarrow> kthen end_op (kret (- 1))
     | Some (dp, name) \<Rightarrow>
         let bad = kthen (iunlockput dp) (kthen end_op (kret (- 1))) in
         kthen (ilock dp)
         (if namecmp name [46, 0] = Some 0 \<or> namecmp name [46, 46, 0] = Some 0 then bad
          else kbind (dirlookup dp name) (\<lambda>r. case r of
              None \<Rightarrow> bad
            | Some (ip, off) \<Rightarrow>
                kthen (ilock ip)
               (kthen (\<lambda>s. kguard (\<not> sint (i_nlink (itable s ! ip)) < 1) ''unlink: nlink < 1'' s)
               (kbind (\<lambda>s. if i_type (itable s ! ip) = T_DIR then isdirempty ip s else Ret True s) (\<lambda>ok.
                  if \<not> ok then kthen (iunlockput ip) bad
                  else kthen (unlink_entry dp ip off) (kthen end_op (kret 0)))))))))"

definition sys_unlink :: "('a mm_scheme, u64) kmon" where
  "sys_unlink = kbind (argstr 0 MAXPATH) (\<lambda>path. case path of None \<Rightarrow> kret (- 1) | Some path \<Rightarrow> unlink_path path)"

section \<open>Creating and opening\<close>

definition create_entries :: "nat \<Rightarrow> nat \<Rightarrow> u8 list \<Rightarrow> u16 \<Rightarrow> ('a fs_scheme, bool) kmon" where
  "create_entries dp ip name type =
     kbind (if type = T_DIR
            then \<lambda>s. kbind (dirlink ip [46, 0] (i_inum (itable s ! ip))) (\<lambda>r.
                   if r < 0 then kret False
                   else (\<lambda>s. kbind (dirlink ip [46, 46, 0] (i_inum (itable s ! dp))) (\<lambda>r. kret (\<not> r < 0)) s)) s
            else kret True) (\<lambda>ok.
       if \<not> ok then kret False
       else (\<lambda>s. kbind (dirlink dp name (i_inum (itable s ! ip))) (\<lambda>r. kret (\<not> r < 0)) s))"

definition create :: "u8 list \<Rightarrow> u16 \<Rightarrow> u16 \<Rightarrow> u16 \<Rightarrow> ('a fs_scheme, nat option) kmon" where
  "create path type major minor = kbind (nameiparent path) (\<lambda>r. case r of
       None \<Rightarrow> kret None
     | Some (dp, name) \<Rightarrow>
         kthen (ilock dp)
        (kbind (dirlookup dp name) (\<lambda>r. case r of
             Some (ip, off) \<Rightarrow>
               kthen (iunlockput dp)
              (kthen (ilock ip) (\<lambda>s.
                 if type = T_FILE \<and> (i_type (itable s ! ip) = T_FILE \<or> i_type (itable s ! ip) = T_DEVICE)
                 then Ret (Some ip) s
                 else kthen (iunlockput ip) (kret None) s))
           | None \<Rightarrow>
               kbind (\<lambda>s. ialloc (i_dev (itable s ! dp)) type s) (\<lambda>r. case r of
                   None \<Rightarrow> kthen (iunlockput dp) (kret None)
                 | Some ip \<Rightarrow>
                     kthen (ilock ip)
                    (kthen (kmod (upd_inode ip (\<lambda>x. x\<lparr>i_major := major, i_minor := minor\<rparr>)))
                    (kthen (upd_nlink ip (\<lambda>_. 1))
                    (kbind (create_entries dp ip name type) (\<lambda>ok.
                       if ok
                       then kthen (kwhen (type = T_DIR) (upd_nlink dp (\<lambda>n. n + 1)))
                           (kthen (iunlockput dp)
                                  (kret (Some ip)))
                       else kthen (upd_nlink ip (\<lambda>_. 0))
                           (kthen (iunlockput ip)
                           (kthen (iunlockput dp)
                                  (kret None)))))))))))"

abbreviation (input) O_RDONLY :: int where "O_RDONLY \<equiv> 0"
abbreviation (input) O_WRONLY :: int where "O_WRONLY \<equiv> 1"
abbreviation (input) O_RDWR :: int where "O_RDWR \<equiv> 2"
abbreviation (input) O_CREATE :: int where "O_CREATE \<equiv> 0x200"
abbreviation (input) O_TRUNC :: int where "O_TRUNC \<equiv> 0x400"

text \<open>The inode \<^verbatim>\<open>sys_open\<close> works on, locked.\<close>

definition open_inode :: "u8 list \<Rightarrow> int \<Rightarrow> ('a fs_scheme, nat option) kmon" where
  "open_inode path omode =
     (if omode AND O_CREATE \<noteq> 0 then create path T_FILE 0 0
      else kbind (namei path) (\<lambda>ip. case ip of
          None \<Rightarrow> kret None
        | Some ip \<Rightarrow> kthen (ilock ip) (\<lambda>s.
            if i_type (itable s ! ip) = T_DIR \<and> omode \<noteq> O_RDONLY then kthen (iunlockput ip) (kret None) s
            else Ret (Some ip) s)))"

definition open_file :: "nat \<Rightarrow> int \<Rightarrow> inode \<Rightarrow> kfile \<Rightarrow> kfile" where
  "open_file ip omode i f =
     (let f = (if i_type i = T_DEVICE then f\<lparr>f_type := FD_DEVICE, f_major := i_major i\<rparr>
               else f\<lparr>f_type := FD_INODE, f_off := 0\<rparr>)
      in f\<lparr>f_ip := Some ip, f_readable := (omode AND O_WRONLY = 0),
           f_writable := (omode AND O_WRONLY \<noteq> 0 \<or> omode AND O_RDWR \<noteq> 0)\<rparr>)"

definition open_path :: "u8 list \<Rightarrow> int \<Rightarrow> ('a mm_scheme, u64) kmon" where
  "open_path path omode = kthen begin_op (kbind (open_inode path omode) (\<lambda>ip. case ip of
       None \<Rightarrow> kthen end_op (kret (- 1))
     | Some ip \<Rightarrow>
         let bad = kthen (iunlockput ip) (kthen end_op (kret (- 1))) in (\<lambda>s.
         if i_type (itable s ! ip) = T_DEVICE \<and> (sint (i_major (itable s ! ip)) < 0 \<or> sint (i_major (itable s ! ip)) \<ge> NDEV)
         then bad s
         else kbind filealloc (\<lambda>f. case f of
             None \<Rightarrow> bad
           | Some f \<Rightarrow> kbind (fdalloc f) (\<lambda>fd.
               if fd < 0 then kthen (fileclose f) bad
               else kthen (\<lambda>s. Ret () (upd_file f (open_file ip omode (itable s ! ip)) s))
                   (kthen (\<lambda>s. kwhen (omode AND O_TRUNC \<noteq> 0 \<and> i_type (itable s ! ip) = T_FILE) (itrunc ip) s)
                   (kthen (iunlock ip)
                   (kthen end_op
                          (kret (u64_of_int fd))))))) s)))"

definition sys_open :: "('a mm_scheme, u64) kmon" where
  "sys_open = kbind (argint 1) (\<lambda>omode. kbind (argstr 0 MAXPATH) (\<lambda>path. case path of
     None \<Rightarrow> kret (- 1) | Some path \<Rightarrow> open_path path omode))"

definition make_path :: "u8 list option \<Rightarrow> u16 \<Rightarrow> u16 \<Rightarrow> u16 \<Rightarrow> ('a fs_scheme, u64) kmon" where
  "make_path path type major minor =
     kbind (case path of None \<Rightarrow> kret None | Some path \<Rightarrow> create path type major minor) (\<lambda>ip. case ip of
         None \<Rightarrow> kthen end_op (kret (- 1))
       | Some ip \<Rightarrow> kthen (iunlockput ip) (kthen end_op (kret 0)))"

definition sys_mkdir :: "('a mm_scheme, u64) kmon" where
  "sys_mkdir = kthen begin_op (kbind (argstr 0 MAXPATH) (\<lambda>path. make_path path T_DIR 0 0))"

definition sys_mknod :: "('a mm_scheme, u64) kmon" where
  "sys_mknod = kthen begin_op (kbind (argint 1) (\<lambda>major. kbind (argint 2) (\<lambda>minor.
     kbind (argstr 0 MAXPATH) (\<lambda>path. make_path path T_DEVICE (word_of_int major) (word_of_int minor)))))"

definition sys_chdir :: "('a mm_scheme, u64) kmon" where
  "sys_chdir = kcur (\<lambda>p. kthen begin_op (kbind (argstr 0 MAXPATH) (\<lambda>path.
     kbind (case path of None \<Rightarrow> kret None | Some path \<Rightarrow> namei path) (\<lambda>ip. case ip of
         None \<Rightarrow> kthen end_op (kret (- 1))
       | Some ip \<Rightarrow> kthen (ilock ip) (\<lambda>s.
           if i_type (itable s ! ip) \<noteq> T_DIR then kthen (iunlockput ip) (kthen end_op (kret (- 1))) s
           else kthen (iunlock ip)
               (kthen (\<lambda>s. knonnull (p_cwd (procs s ! p)) iput s)
               (kthen end_op
               (kthen (kmod (upd_proc p (\<lambda>x. x\<lparr>p_cwd := Some ip\<rparr>)))
                      (kret 0)))) s)))))"

section \<open>exec and pipe\<close>

text \<open>
  The loop of \<^verbatim>\<open>sys_exec\<close>; \<open>k\<close> is the number of entries left in \<^verbatim>\<open>argv\<close>. It gives the pages allocated so far and, unless
  it fails, the strings.
\<close>

primrec exec_fetch :: "nat \<Rightarrow> u64 \<Rightarrow> ('a mm_scheme, u64 list \<times> u8 list list option) kmon" where
  "exec_fetch 0 uargv = kret ([], None)"
| "exec_fetch (Suc k) uargv = kbind (fetchaddr uargv) (\<lambda>r. case r of
       None \<Rightarrow> kret ([], None)
     | Some uarg \<Rightarrow>
         if uarg = 0 then kret ([], Some [])
         else kbind kalloc (\<lambda>pg.
           if pg = 0 then kret ([], None)
           else kbind (fetchstr uarg 4096) (\<lambda>r. case r of
               None \<Rightarrow> kret ([pg], None)
             | Some arg \<Rightarrow> kthen (kmod (upd_mem (\<lambda>m. wrbytes m pg (arg @ [0]))))
                 (kbind (exec_fetch k (uargv + 8)) (\<lambda>(pgs, argv). kret (pg # pgs, map_option ((#) arg) argv))))))"

definition sys_exec :: "('a mm_scheme, u64) kmon" where
  "sys_exec = kbind (argaddr 1) (\<lambda>uargv. kbind (argstr 0 MAXPATH) (\<lambda>path. case path of
       None \<Rightarrow> kret (- 1)
     | Some path \<Rightarrow> kbind (exec_fetch MAXARG uargv) (\<lambda>(pgs, argv).
         kbind (case argv of None \<Rightarrow> kret (- 1) | Some argv \<Rightarrow> kexec path argv) (\<lambda>ret.
           kthen (kforeach kfree pgs) (kret (u64_of_int ret))))))"

definition sys_pipe :: "('a mm_scheme, u64) kmon" where
  "sys_pipe = kcur (\<lambda>p. kbind (argaddr 0) (\<lambda>fdarray. kbind pipealloc (\<lambda>r. case r of
       None \<Rightarrow> kret (- 1)
     | Some (f0, f1) \<Rightarrow>
         let bad = kthen (fileclose f0) (kthen (fileclose f1) (kret (- 1))) in
         kbind (fdalloc f0) (\<lambda>fd0.
           if fd0 < 0 then bad
           else kbind (fdalloc f1) (\<lambda>fd1.
             if fd1 < 0 then kthen (clear_fd (nat fd0)) bad
             else kbind (\<lambda>s. kbind (copyout (p_pagetable (procs s ! p)) fdarray (encode_int fd0)) (\<lambda>r.
                          if r < 0 then kret (- 1)
                          else copyout (p_pagetable (procs s ! p)) (fdarray + 4) (encode_int fd1)) s) (\<lambda>r.
                    if r < 0 then kthen (clear_fd (nat fd0)) (kthen (clear_fd (nat fd1)) bad)
                    else kret 0))))))"

end
