(* ===== verification/Trap.thy ===== *)
theory Trap
  imports Sysfile
begin

text \<open>
  The system calls of \<^verbatim>\<open>kernel/sysproc.c\<close>, their dispatch in \<^verbatim>\<open>kernel/syscall.c\<close>, the trap handlers of \<^verbatim>\<open>kernel/trap.c\<close>,
  \<^verbatim>\<open>forkret\<close>, and the start of the kernel in \<^verbatim>\<open>kernel/main.c\<close>.

  The trap registers (\<^verbatim>\<open>sstatus\<close>, \<^verbatim>\<open>scause\<close>, \<^verbatim>\<open>stval\<close>, \<^verbatim>\<open>sepc\<close>), the interrupt number the PLIC hands out and the hart number are
  arguments. A disk interrupt changes nothing, since a disk transfer is one step of the model. Where a handler gives up
  the CPU, its result says so: it exited, waits for a channel, or yielded.
\<close>

section \<open>Processes\<close>

datatype sys_blocked = InFile where_blocked | InPause u32 int

datatype sysret = Return u64 | Waiting channel sys_blocked | Exited

definition sys_getpid :: "('a sys_scheme, u64) kmon" where
  "sys_getpid = kcur (\<lambda>p. kget (\<lambda>s. u64_of_int (p_pid (procs s ! p))))"

abbreviation (input) SBRK_EAGER :: int where "SBRK_EAGER \<equiv> 1"

definition sys_sbrk :: "('a sys_scheme, u64) kmon" where
  "sys_sbrk = kcur (\<lambda>p. kbind (argint 0) (\<lambda>n. kbind (argint 1) (\<lambda>t. \<lambda>s.
     let addr = p_sz (procs s ! p) in
     if t = SBRK_EAGER \<or> n < 0
     then kbind (growproc n) (\<lambda>r. kret (if r < 0 then - 1 else addr)) s
     else if addr + u64_of_int n < addr then Ret (- 1) s
     else if addr + u64_of_int n > MMAPBASE then Ret (- 1) s
     else Ret addr (upd_proc p (\<lambda>x. x\<lparr>p_sz := p_sz x + u64_of_int n\<rparr>) s))))"

definition pause_resume :: "u32 \<Rightarrow> int \<Rightarrow> ('a sys_scheme, sysret) kmon" where
  "pause_resume ticks0 n = kcur (\<lambda>p. \<lambda>s.
     if ticks s - ticks0 < word_of_int n
     then if killed p s \<noteq> 0 then Ret (Return (- 1)) s else Ret (Waiting ChTicks (InPause ticks0 n)) s
     else Ret (Return 0) s)"

definition sys_pause :: "('a sys_scheme, sysret) kmon" where
  "sys_pause = kbind (argint 0) (\<lambda>n. \<lambda>s. pause_resume (ticks s) (if n < 0 then 0 else n) s)"

definition sys_kill :: "('a sys_scheme, u64) kmon" where
  "sys_kill = kbind (argint 0) (\<lambda>pid. kbind (kkill pid) (\<lambda>r. kret (u64_of_int r)))"

definition sys_uptime :: "('a sys_scheme, u64) kmon" where
  "sys_uptime = kget (\<lambda>s. ucast (ticks s))"

definition sys_getnice :: "('a sys_scheme, u64) kmon" where
  "sys_getnice = kbind (argint 0) (\<lambda>pid. kget (\<lambda>s. u64_of_int (kgetnice pid s)))"

definition sys_setnice :: "('a sys_scheme, u64) kmon" where
  "sys_setnice = kbind (argint 0) (\<lambda>pid. kbind (argint 1) (\<lambda>value.
     kbind (ksetnice pid value) (\<lambda>r. kret (u64_of_int r))))"

definition sys_ps :: "('a sys_scheme, u64) kmon" where
  "sys_ps = kbind (argint 0) (\<lambda>pid. kthen (kmod (kps pid)) (kret 0))"

text \<open>Counting the pages of a free list with a cycle would not end; the kernel's own list has none.\<close>

definition sys_meminfo :: "('a sys_scheme, u64) kmon" where
  "sys_meminfo = (\<lambda>s. knonnull (freemem_bytes s) kret s)"

definition sys_waitpid :: "('a sys_scheme, u64) kmon" where
  "sys_waitpid = kbind (argint 0) (\<lambda>pid. kbind (kwaitpid pid) (\<lambda>r. kret (u64_of_int r)))"

definition sys_mmap :: "('a sys_scheme, u64) kmon" where
  "sys_mmap = kbind (argaddr 0) (\<lambda>addr. kbind (argint 1) (\<lambda>len. kbind (argint 2) (\<lambda>prot. kbind (argint 3) (\<lambda>flags.
     kbind (argint 4) (\<lambda>fd. kbind (argint 5) (\<lambda>offset. kmmap addr len prot flags fd offset))))))"

definition sys_munmap :: "('a sys_scheme, u64) kmon" where
  "sys_munmap = kbind (argaddr 0) (\<lambda>addr. kbind (kmunmap addr) (\<lambda>r. kret (u64_of_int r)))"

definition sys_freemem :: "('a sys_scheme, u64) kmon" where
  "sys_freemem = (\<lambda>s. knonnull (freemem_pages s) (\<lambda>n. kret (u64_of_int n)) s)"

definition sys_fork :: "('a sys_scheme, u64) kmon" where
  "sys_fork = kbind kfork (\<lambda>r. kret (u64_of_int r))"

definition sys_exit :: "('a sys_scheme, sysret) kmon" where
  "sys_exit = kbind (argint 0) (\<lambda>n. kthen (kexit n) (kret Exited))"

definition sys_wait :: "('a sys_scheme, u64) kmon" where
  "sys_wait = kbind (argaddr 0) (\<lambda>p. kbind (kwait p) (\<lambda>r. kret (u64_of_int r)))"

section \<open>Dispatch\<close>

definition returns :: "('a sys_scheme, u64) kmon \<Rightarrow> ('a sys_scheme, sysret) kmon" where
  "returns m = kbind m (\<lambda>r. kret (Return r))"

definition file_progress :: "(int, where_blocked) progress \<Rightarrow> sysret" where
  "file_progress r = (case r of Done v \<Rightarrow> Return (u64_of_int v) | Blocked ch w \<Rightarrow> Waiting ch (InFile w))"

text \<open>
  The table \<^verbatim>\<open>syscalls\<close>, by the numbers of \<^verbatim>\<open>kernel/syscall.h\<close>. \<open>pad\<close> is the padding of the \<^verbatim>\<open>struct stat\<close> on the kernel
  stack.
\<close>

definition syscalls :: "u8 list \<Rightarrow> ('a sys_scheme, sysret) kmon option list" where
  "syscalls pad =
     [None,
      Some (returns sys_fork), Some sys_exit, Some (returns sys_wait), Some (returns sys_pipe),
      Some (kbind sys_read (\<lambda>r. kret (file_progress r))), Some (returns sys_kill), Some (returns sys_exec),
      Some (returns (sys_fstat pad)), Some (returns sys_chdir), Some (returns sys_dup), Some (returns sys_getpid),
      Some (returns sys_sbrk), Some sys_pause, Some (returns sys_uptime), Some (returns sys_open),
      Some (kbind sys_write (\<lambda>r. kret (file_progress r))), Some (returns sys_mknod), Some (returns sys_unlink),
      Some (returns sys_link), Some (returns sys_mkdir), Some (returns sys_close), Some (returns sys_getnice),
      Some (returns sys_setnice), Some (returns sys_ps), Some (returns sys_meminfo), Some (returns sys_waitpid),
      Some (returns sys_mmap), Some (returns sys_munmap), Some (returns sys_freemem)]"

definition syscall_return :: "nat \<Rightarrow> sysret \<Rightarrow> ('a sys_scheme, sysret) kmon" where
  "syscall_return p r = (case r of
     Return v \<Rightarrow> kthen (kmod (tf_set p (TF_a 0) v)) (kret r) | _ \<Rightarrow> kret r)"

definition syscall :: "u8 list \<Rightarrow> ('a sys_scheme, sysret) kmon" where
  "syscall pad = kcur (\<lambda>p. \<lambda>s.
     let num = i32_of_u64 (tf_get p (TF_a 7) s) in
     case (if num > 0 \<and> num < int (length (syscalls pad :: ('a sys_scheme, sysret) kmon option list))
           then syscalls pad ! nat num else None) of
       Some call \<Rightarrow> kbind call (syscall_return p) s
     | None \<Rightarrow>
         kthen (kmod (kprint (printed ''%d %s: unknown sys call %d'' [PW (u64_of_int (p_pid (procs s ! p))),
                  PS (p_name (procs s ! p)), PW (u64_of_int num)] @ [10])))
               (syscall_return p (Return (- 1))) s)"

section \<open>Traps\<close>

abbreviation (input) UART0_IRQ :: int where "UART0_IRQ \<equiv> 10"
abbreviation (input) VIRTIO0_IRQ :: int where "VIRTIO0_IRQ \<equiv> 1"

abbreviation (input) SSTATUS_SPP :: u64 where "SSTATUS_SPP \<equiv> 0x100"
abbreviation (input) SSTATUS_SIE :: u64 where "SSTATUS_SIE \<equiv> 2"

record trapregs =
  r_sstatus :: u64
  r_scause :: u64
  r_stval :: u64
  r_sepc :: u64
  r_irq :: int
  r_hart :: nat

definition devintr :: "trapregs \<Rightarrow> 'a sys_scheme \<Rightarrow> int \<times> 'a sys_scheme" where
  "devintr r s =
     (if r_scause r = 0x8000000000000009 then
        (1, if r_irq r = UART0_IRQ then uartintr s
            else if r_irq r = VIRTIO0_IRQ then s
            else if r_irq r \<noteq> 0 then kprint (printed ''unexpected interrupt irq=%d'' [PW (u64_of_int (r_irq r))] @ [10]) s
            else s)
      else if r_scause r = 0x8000000000000001 then (2, clockintr (r_hart r) s)
      else (0, s))"

datatype trapret = ToUser u64 u64 | TrapExit | TrapWait channel sys_blocked | TrapYield

definition prepare_return :: "trapregs \<Rightarrow> nat \<Rightarrow> ('a sys_scheme, u64) kmon" where
  "prepare_return r p =
     kthen (\<lambda>s. Ret () (tf_set p TF_kernel_satp (MAKE_SATP (kernel_pagetable s)) s))
    (kthen (\<lambda>s. Ret () (tf_set p TF_kernel_sp (p_kstack (procs s ! p) + PGSIZE) s))
    (kthen (\<lambda>s. Ret () (tf_set p TF_kernel_trap (usertrap_addr s) s))
    (kthen (kmod (tf_set p TF_kernel_hartid (of_nat (r_hart r))))
           (kget (tf_get p TF_epc)))))"

definition to_user :: "trapregs \<Rightarrow> nat \<Rightarrow> ('a sys_scheme, trapret) kmon" where
  "to_user r p = kbind (prepare_return r p) (\<lambda>pc. kget (\<lambda>s. ToUser (MAKE_SATP (p_pagetable (procs s ! p))) pc))"

text \<open>The end of \<^verbatim>\<open>usertrap\<close>, from the second test of \<^verbatim>\<open>killed\<close>.\<close>

definition usertrap_end :: "trapregs \<Rightarrow> nat \<Rightarrow> int \<Rightarrow> ('a sys_scheme, trapret) kmon" where
  "usertrap_end r p which_dev = (\<lambda>s.
     if killed p s \<noteq> 0 then kthen (kexit (- 1)) (kret TrapExit) s
     else let s = (if which_dev = 2 then usertrap_timer s else s) in
       if curproc s = None then Ret TrapYield s else to_user r p s)"

definition usertrap :: "u8 list \<Rightarrow> trapregs \<Rightarrow> ('a sys_scheme, trapret) kmon" where
  "usertrap pad r = kthen (kguard (r_sstatus r AND SSTATUS_SPP = 0) ''usertrap: not from user mode'') (kcur (\<lambda>p.
     kthen (kmod (tf_set p TF_epc (r_sepc r)))
     (if r_scause r = 8 then (\<lambda>s.
        if killed p s \<noteq> 0 then kthen (kexit (- 1)) (kret TrapExit) s
        else kthen (\<lambda>s. Ret () (tf_set p TF_epc (tf_get p TF_epc s + 4) s))
            (kbind (syscall pad) (\<lambda>q. case q of
               Return _ \<Rightarrow> usertrap_end r p 0
             | Waiting ch w \<Rightarrow> kret (TrapWait ch w)
             | Exited \<Rightarrow> kret TrapExit)) s)
      else (\<lambda>s. let (which_dev, s) = devintr r s in
        if which_dev \<noteq> 0 then usertrap_end r p which_dev s
        else kbind (if r_scause r = 15 \<or> r_scause r = 13
                    then vmfault (p_pagetable (procs s ! p)) (r_stval r) (r_scause r = 13) else kret 0) (\<lambda>v.
          if v = 1 then usertrap_end r p 0
          else kthen (kmod (\<lambda>s. kprint
                  (printed ''usertrap(): unexpected scause 0x%lx pid=%d'' [PW (r_scause r), PW (u64_of_int (p_pid (procs s ! p)))] @ [10] @
                   printed ''            sepc=0x%lx stval=0x%lx'' [PW (r_sepc r), PW (r_stval r)] @ [10]) s))
              (kthen (kmod (setkilled p)) (usertrap_end r p 0))) s))))"

definition kerneltrap :: "trapregs \<Rightarrow> ('a sys_scheme, unit) kmon" where
  "kerneltrap r s = (let (which_dev, s) = devintr r s in
     if r_sstatus r AND SSTATUS_SPP = 0 then Panic ''kerneltrap: not from supervisor mode''
     else if r_sstatus r AND SSTATUS_SIE \<noteq> 0 then Panic ''kerneltrap: interrupts enabled''
     else if which_dev = 0 then Panic ''kerneltrap''
     else if which_dev = 2 then Ret () (kerneltrap_timer s)
     else Ret () s)"

section \<open>Starting\<close>

definition forkret :: "trapregs \<Rightarrow> ('a sys_scheme, trapret) kmon" where
  "forkret r = kcur (\<lambda>p.
     kthen (\<lambda>s. kwhen (first s)
       (kthen (fsinit ROOTDEV)
       (kthen (kmod (\<lambda>s. s\<lparr>first := False\<rparr>))
       (kbind (kexec (ascii ''/init'') [ascii ''/init'']) (\<lambda>a.
        kthen (kmod (tf_set p (TF_a 0) (u64_of_int a)))
              (kguard (u64_of_int a \<noteq> - 1) ''exec''))))) s)
     (to_user r p))"

definition main_boot :: "('a sys_scheme, unit) kmon" where
  "main_boot =
     kthen (kmod consoleinit)
    (kthen (kmod (kprint ([10] @ ascii ''xv6 kernel is booting'' @ [10, 10])))
    (kthen kinit
    (kthen kvminit
    (kthen (kmod procinit)
    (kthen (kmod binit)
    (kthen (kmod iinit)
           userinit))))))"

end
