(* ===== verification/Ulib.thy ===== *)
theory Ulib
  imports Memory Printf
begin

text \<open>
  The user library and the small text tools: \<^verbatim>\<open>user/ulib.c\<close>, \<^verbatim>\<open>user/grep.c\<close>, \<^verbatim>\<open>user/wc.c\<close>, \<^verbatim>\<open>user/cat.c\<close> and \<^verbatim>\<open>user/echo.c\<close>.

  A string is the list of its characters without the NUL, so the character at the end of the list reads as 0. What a
  program reads from a file descriptor is the list of the chunks the calls of \<^verbatim>\<open>read\<close> return, what it writes the list of
  its bytes.
\<close>

section \<open>Strings\<close>

definition str_hd :: "u8 list \<Rightarrow> u8" where
  "str_hd s = (case s of [] \<Rightarrow> 0 | c # _ \<Rightarrow> c)"

fun strcmp :: "u8 list \<Rightarrow> u8 list \<Rightarrow> int" where
  "strcmp (a # p) (b # q) = (if a = b then strcmp p q else uint a - uint b)"
| "strcmp [] q = - uint (str_hd q)"
| "strcmp p [] = uint (str_hd p)"

text \<open>The rest of the string from the first \<open>c\<close> on; the terminating NUL is not found.\<close>

primrec strchr :: "u8 list \<Rightarrow> u8 \<Rightarrow> u8 list option" where
  "strchr [] c = None"
| "strchr (x # s) c = (if x = c then Some (x # s) else strchr s c)"

text \<open>\<^verbatim>\<open>gets\<close> on the characters that follow on the standard input: what it stores before the NUL, and what it leaves.\<close>

primrec gets_loop :: "nat \<Rightarrow> u8 list \<Rightarrow> u8 list \<times> u8 list" where
  "gets_loop 0 inp = ([], inp)"
| "gets_loop (Suc room) inp = (case inp of
     [] \<Rightarrow> ([], [])
   | c # rest \<Rightarrow> if c = 10 \<or> c = 13 then ([c], rest)
       else let (buf, rest) = gets_loop room rest in (c # buf, rest))"

definition gets :: "nat \<Rightarrow> u8 list \<Rightarrow> u8 list \<times> u8 list" where
  "gets mx inp = gets_loop (mx - 1) inp"

fun atoi_loop :: "int \<Rightarrow> u8 list \<Rightarrow> int" where
  "atoi_loop n (c # s) = (if 48 \<le> c \<and> c \<le> 57 then atoi_loop (i32 (n * 10 + uint c - 48)) s else n)"
| "atoi_loop n [] = n"

definition atoi :: "u8 list \<Rightarrow> int" where
  "atoi s = atoi_loop 0 s"

text \<open>\<^verbatim>\<open>memmove\<close> of user programs, on memory.\<close>

definition umemmove :: "u64 \<Rightarrow> u64 \<Rightarrow> nat \<Rightarrow> memory \<Rightarrow> memory" where
  "umemmove vdst vsrc n m =
     (if vsrc > vdst then copy_up m vdst vsrc n else copy_down m (vdst + of_nat n) (vsrc + of_nat n) n)"

section \<open>The matcher of grep\<close>

text \<open>\<^verbatim>\<open>matchstar\<close> is its \<^verbatim>\<open>do\<close> loop over the text.\<close>

function matchhere :: "u8 list \<Rightarrow> u8 list \<Rightarrow> bool" and matchstar :: "u8 \<Rightarrow> u8 list \<Rightarrow> u8 list \<Rightarrow> bool" where
  "matchhere re text =
     (if re = [] then True
      else if str_hd (tl re) = chr CHR ''*'' then matchstar (hd re) (drop 2 re) text
      else if hd re = chr CHR ''$'' \<and> tl re = [] then text = []
      else if text \<noteq> [] \<and> (hd re = chr CHR ''.'' \<or> hd re = hd text) then matchhere (tl re) (tl text)
      else False)"
| "matchstar c re text =
     (if matchhere re text then True
      else if text \<noteq> [] \<and> (hd text = c \<or> c = chr CHR ''.'') then matchstar c re (tl text)
      else False)"
  by pat_completeness auto
termination
  by (relation "measures [\<lambda>x. case x of Inl (re, text) \<Rightarrow> 2 * length re | Inr (c, re, text) \<Rightarrow> 2 * length re + 1,
                          \<lambda>x. case x of Inl (re, text) \<Rightarrow> length text | Inr (c, re, text) \<Rightarrow> length text]")
     (auto simp: neq_Nil_conv)

declare matchhere.simps [simp del] matchstar.simps [simp del]

primrec match_from :: "u8 list \<Rightarrow> u8 list \<Rightarrow> bool" where
  "match_from re [] = matchhere re []"
| "match_from re (c # text) = (if matchhere re (c # text) then True else match_from re text)"

definition grep_match :: "u8 list \<Rightarrow> u8 list \<Rightarrow> bool" where
  "grep_match re text = (if str_hd re = chr CHR ''^'' then matchhere (tl re) text else match_from re text)"

section \<open>grep\<close>

text \<open>
  The loop over the lines of the buffer. As in the C code a NUL in the input ends the text \<^verbatim>\<open>strchr\<close> searches; what is
  left behind the last newline stays in the buffer.
\<close>

function grep_lines :: "u8 list \<Rightarrow> u8 list \<Rightarrow> u8 list \<times> u8 list" where
  "grep_lines pattern buf =
     (let line = takeWhile (\<lambda>c. c \<noteq> 10 \<and> c \<noteq> 0) buf; rest = drop (length line) buf in
      if rest = [] \<or> hd rest = 0 then ([], buf)
      else let (out, left) = grep_lines pattern (tl rest)
           in ((if grep_match pattern line then line @ [10] else []) @ out, left))"
  by auto
termination
  by (relation "measure (\<lambda>(pattern, buf). length buf)")
     (auto simp: neq_Nil_conv dest: arg_cong [where f = length])

declare grep_lines.simps [simp del]

abbreviation (input) GREPBUF :: nat where "GREPBUF \<equiv> 1024"

text \<open>
  The loop of \<^verbatim>\<open>grep\<close> over a file. \<open>rd k inp\<close> is what \<^verbatim>\<open>read\<close> returns when \<open>inp\<close> is left in the file and at most \<open>k\<close> bytes
  are asked for; it is at most that many bytes of the front of \<open>inp\<close>. Each turn but the last takes a byte.
\<close>

primrec grep_loop :: "nat \<Rightarrow> (nat \<Rightarrow> u8 list \<Rightarrow> nat) \<Rightarrow> u8 list \<Rightarrow> u8 list \<Rightarrow> u8 list \<Rightarrow> u8 list" where
  "grep_loop 0 rd pattern buf inp = []"
| "grep_loop (Suc k) rd pattern buf inp =
     (let n = rd (GREPBUF - length buf - 1) inp in
      if n = 0 then []
      else let (out, left) = grep_lines pattern (buf @ take n inp)
           in out @ grep_loop k rd pattern left (drop n inp))"

definition grep :: "(nat \<Rightarrow> u8 list \<Rightarrow> nat) \<Rightarrow> u8 list \<Rightarrow> u8 list \<Rightarrow> u8 list" where
  "grep rd pattern inp = grep_loop (length inp + 1) rd pattern [] inp"

section \<open>wc, cat and echo\<close>

record wc_state =
  wc_l :: int
  wc_w :: int
  wc_c :: int
  wc_inword :: bool

definition wc_space :: "u8 \<Rightarrow> bool" where
  "wc_space c \<longleftrightarrow> strchr [32, 13, 9, 10, 11] c \<noteq> None"

definition wc_char :: "wc_state \<Rightarrow> u8 \<Rightarrow> wc_state" where
  "wc_char st c =
     (let st = st\<lparr>wc_c := wc_c st + 1\<rparr>;
          st = (if c = 10 then st\<lparr>wc_l := wc_l st + 1\<rparr> else st)
      in if wc_space c then st\<lparr>wc_inword := False\<rparr>
         else if \<not> wc_inword st then st\<lparr>wc_w := wc_w st + 1, wc_inword := True\<rparr>
         else st)"

definition wc_chunks :: "u8 list list \<Rightarrow> wc_state" where
  "wc_chunks chunks = foldl (foldl wc_char) \<lparr>wc_l = 0, wc_w = 0, wc_c = 0, wc_inword = False\<rparr> chunks"

definition wc :: "u8 list list \<Rightarrow> u8 list \<Rightarrow> u8 list option" where
  "wc chunks name = (let st = wc_chunks chunks in
     map_option (\<lambda>out. out @ [10])
       (uprintf (ascii ''%d %d %d %s'') [PW (word_of_int (wc_l st)), PW (word_of_int (wc_w st)), PW (word_of_int (wc_c st)), PS name]))"

fun echo :: "u8 list list \<Rightarrow> u8 list" where
  "echo [] = []"
| "echo [a] = a @ [10]"
| "echo (a # as) = a @ [32] @ echo as"

section \<open>The meaning of a pattern\<close>

text \<open>
  A pattern as the sequence of its atoms, and the texts that begin with a match of such a sequence.
\<close>

datatype atom = One u8 | Star u8 | Eol

function atoms :: "u8 list \<Rightarrow> atom list" where
  "atoms re =
     (if re = [] then []
      else if str_hd (tl re) = chr CHR ''*'' then Star (hd re) # atoms (drop 2 re)
      else if hd re = chr CHR ''$'' \<and> tl re = [] then [Eol]
      else One (hd re) # atoms (tl re))"
  by auto
termination by (relation "measure length") (auto simp: neq_Nil_conv)

declare atoms.simps [simp del]

definition admits :: "u8 \<Rightarrow> u8 \<Rightarrow> bool" where
  "admits c x \<longleftrightarrow> c = chr CHR ''.'' \<or> c = x"

inductive matches :: "atom list \<Rightarrow> u8 list \<Rightarrow> bool" where
  m_done: "matches [] t"
| m_eol: "matches [Eol] []"
| m_one: "admits c x \<Longrightarrow> matches as t \<Longrightarrow> matches (One c # as) (x # t)"
| m_star: "list_all (admits c) u \<Longrightarrow> matches as t \<Longrightarrow> matches (Star c # as) (u @ t)"

section \<open>Lines and words\<close>

text \<open>
  \<open>split_lines\<close> gives the lines that end in a newline and what is behind the last one. \<open>reads\<close> is the contract of \<^verbatim>\<open>read\<close>: at
  most what was asked for, at most what is left, and nothing only at the end of the file.
\<close>

primrec split_lines :: "u8 list \<Rightarrow> u8 list list \<times> u8 list" where
  "split_lines [] = ([], [])"
| "split_lines (c # s) = (let (ls, r) = split_lines s in
     if c = 10 then ([] # ls, r) else case ls of [] \<Rightarrow> ([], c # r) | l # ls' \<Rightarrow> ((c # l) # ls', r))"

definition matching_lines :: "u8 list \<Rightarrow> u8 list list \<Rightarrow> u8 list" where
  "matching_lines pattern ls = concat (map (\<lambda>l. l @ [10]) (filter (grep_match pattern) ls))"

definition reads :: "(nat \<Rightarrow> u8 list \<Rightarrow> nat) \<Rightarrow> bool" where
  "reads rd \<longleftrightarrow> (\<forall>k inp. rd k inp \<le> k \<and> rd k inp \<le> length inp \<and> (k > 0 \<and> inp \<noteq> [] \<longrightarrow> rd k inp > 0))"

definition short_lines :: "nat \<Rightarrow> u8 list \<Rightarrow> bool" where
  "short_lines n inp \<longleftrightarrow> (case split_lines inp of (ls, r) \<Rightarrow> list_all (\<lambda>l. length l \<le> n) ls \<and> length r \<le> n)"

definition word_starts :: "u8 list \<Rightarrow> nat set" where
  "word_starts s = {i. i < length s \<and> \<not> wc_space (s ! i) \<and> (i = 0 \<or> wc_space (s ! (i - 1)))}"

section \<open>Patterns\<close>

inductive_simps matches_nil [simp]: "matches [] t"

inductive_simps matches_eol [simp]: "matches [Eol] t"

inductive_simps matches_one: "matches (One c # as) t"

inductive_simps matches_star: "matches (Star c # as) t"

lemma matches_star_step:
  "matches (Star c # as) t \<longleftrightarrow> matches as t \<or> (t \<noteq> [] \<and> admits c (hd t) \<and> matches (Star c # as) (tl t))"
proof
  assume "matches (Star c # as) t"
  then obtain u r where t: "t = u @ r" "list_all (admits c) u" "matches as r" by (auto simp: matches_star)
  show "matches as t \<or> (t \<noteq> [] \<and> admits c (hd t) \<and> matches (Star c # as) (tl t))"
  proof (cases u)
    case (Cons x u')
    with t have "matches (Star c # as) (tl t)" by (auto intro!: m_star)
    with t Cons show ?thesis by simp
  qed (use t in simp)
next
  assume "matches as t \<or> (t \<noteq> [] \<and> admits c (hd t) \<and> matches (Star c # as) (tl t))"
  then show "matches (Star c # as) t"
  proof
    assume "matches as t"
    then show ?thesis using m_star [of c "[]" as t] by simp
  next
    assume a: "t \<noteq> [] \<and> admits c (hd t) \<and> matches (Star c # as) (tl t)"
    then obtain u r where "tl t = u @ r" "list_all (admits c) u" "matches as r" by (auto simp: matches_star)
    with a show ?thesis using m_star [of c "hd t # u" as r] by (cases t) auto
  qed
qed

lemma matchhere_matches:
  "matchhere re t = matches (atoms re) t"
  "matchstar c re t = matches (Star c # atoms re) t"
proof (induction re t and c re t rule: matchhere_matchstar.induct)
  case (1 re t)
  show ?case
  proof (cases "re = []")
    case False
    then show ?thesis
      using 1 unfolding matchhere.simps [of re t] atoms.simps [of re]
      by (cases t) (auto simp: matches_one admits_def)
  qed (simp add: matchhere.simps atoms.simps)
next
  case (2 c re t)
  then show ?case
    unfolding matchstar.simps [of c re t] matches_star_step [of c "atoms re" t]
    by (auto simp: admits_def)
qed

lemma match_from_matches:
  "match_from re t \<longleftrightarrow> (\<exists>pre post. t = pre @ post \<and> matches (atoms re) post)"
proof (induction t)
  case (Cons c t)
  then show ?case by (simp add: matchhere_matches Cons_eq_append_conv) blast
qed (simp add: matchhere_matches)

text \<open>
  C27: The matcher of grep implements the meaning of its patterns. A pattern is read as a sequence of atoms: a
  character or a dot, such a character with a star, and a final dollar. The text matches when some part of it
  splits into a piece for each atom; with a leading \<^verbatim>\<open>^\<close> that part begins at the start of the text.
\<close>

theorem grep_match_correct:
  "grep_match re text \<longleftrightarrow>
     (if str_hd re = chr CHR ''^'' then matches (atoms (tl re)) text
      else (\<exists>pre post. text = pre @ post \<and> matches (atoms re) post))"
  by (simp add: grep_match_def matchhere_matches match_from_matches)

section \<open>grep on a file\<close>

lemma split_lines_no_nl: "10 \<notin> set s \<Longrightarrow> split_lines s = ([], s)"
  by (induction s) auto

lemma split_lines_nl: "10 \<notin> set l \<Longrightarrow> split_lines (l @ 10 # s) = (l # fst (split_lines s), snd (split_lines s))"
  by (induction l) (auto simp: split_beta)

lemma split_lines_append:
  "split_lines (a @ b) =
     (fst (split_lines a) @ fst (split_lines (snd (split_lines a) @ b)), snd (split_lines (snd (split_lines a) @ b)))"
  by (induction a) (auto simp: split_beta split: list.splits)

lemma split_lines_rest: "10 \<notin> set (snd (split_lines s))" "set (snd (split_lines s)) \<subseteq> set s"
  "length (snd (split_lines s)) \<le> length s"
  by (induction s) (auto simp: split_beta split: list.splits)

lemma grep_lines_split:
  "0 \<notin> set buf \<Longrightarrow>
     grep_lines pattern buf = (matching_lines pattern (fst (split_lines buf)), snd (split_lines buf))"
proof (induction pattern buf rule: grep_lines.induct)
  case (1 pattern buf)
  define line where "line = takeWhile (\<lambda>c. c \<noteq> 10 \<and> c \<noteq> 0) buf"
  define rest where "rest = drop (length line) buf"
  have b: "buf = line @ rest" unfolding line_def rest_def by (simp add: takeWhile_eq_take [symmetric] dropWhile_eq_drop [symmetric])
  have nl: "10 \<notin> set line" by (auto simp: line_def dest: set_takeWhileD)
  have u: "grep_lines pattern buf = (if rest = [] \<or> hd rest = 0 then ([], buf)
      else let (out, left) = grep_lines pattern (tl rest)
           in ((if grep_match pattern line then line @ [10] else []) @ out, left))"
    unfolding grep_lines.simps [of pattern buf] by (simp add: line_def rest_def Let_def)
  show ?case
  proof (cases "rest = []")
    case True
    then have "10 \<notin> set buf" using b nl by (metis append_Nil2)
    then show ?thesis using True unfolding u by (simp add: split_lines_no_nl matching_lines_def)
  next
    case False
    have "rest = dropWhile (\<lambda>c. c \<noteq> 10 \<and> c \<noteq> 0) buf" unfolding rest_def line_def by (simp add: dropWhile_eq_drop)
    then have "hd rest = 10 \<or> hd rest = 0" using False hd_dropWhile [of "\<lambda>c. c \<noteq> 10 \<and> c \<noteq> 0" buf] by simp
    moreover have "hd rest \<in> set buf" using hd_in_set [OF False] in_set_dropD [of "hd rest" "length line" buf] by (simp add: rest_def)
    ultimately have h: "hd rest = 10" "hd rest \<noteq> 0" using 1(2) by auto
    have "set (tl rest) \<subseteq> set buf" unfolding rest_def by (metis drop_Suc tl_drop set_drop_subset)
    then have z: "0 \<notin> set (tl rest)" using 1(2) by blast
    have i: "grep_lines pattern (tl rest) = (matching_lines pattern (fst (split_lines (tl rest))), snd (split_lines (tl rest)))"
      using 1(1) [OF line_def rest_def _ z] False h by blast
    have "rest = 10 # tl rest" using False h by (metis list.collapse)
    then have "split_lines buf = (line # fst (split_lines (tl rest)), snd (split_lines (tl rest)))"
      using split_lines_nl [OF nl, of "tl rest"] b by metis
    then show ?thesis using False h unfolding u i by (simp add: matching_lines_def)
  qed
qed

lemma short_lines_rest:
  assumes "short_lines n (a @ b)" shows "length (snd (split_lines a)) \<le> n" "short_lines n (snd (split_lines a) @ b)"
proof -
  let ?r = "snd (split_lines a)"
  have s: "short_lines n (?r @ b)"
    using assms by (auto simp: short_lines_def split_lines_append [of a b] split_beta)
  have "length ?r \<le> n" if "short_lines n (r @ b)" "10 \<notin> set r" "r = ?r" for r
  proof (cases "10 \<in> set b")
    case True
    then obtain l t where bl: "b = l @ 10 # t" "10 \<notin> set l" by (meson split_list_first)
    then have "split_lines (r @ b) = ((r @ l) # fst (split_lines t), snd (split_lines t))"
      using split_lines_nl [of "r @ l" t] that by simp
    then show ?thesis using that by (simp add: short_lines_def)
  next
    case False
    then have "split_lines (r @ b) = ([], r @ b)" using that by (simp add: split_lines_no_nl)
    then show ?thesis using that by (simp add: short_lines_def)
  qed
  then show "length ?r \<le> n" using s split_lines_rest(1) by blast
  show "short_lines n (?r @ b)" by (fact s)
qed

lemma grep_loop_lines:
  assumes "reads rd"
  shows "\<lbrakk>length inp < k; 0 \<notin> set (buf @ inp); 10 \<notin> set buf; short_lines 1022 (buf @ inp)\<rbrakk> \<Longrightarrow>
    grep_loop k rd pattern buf inp = matching_lines pattern (fst (split_lines (buf @ inp)))"
proof (induction k arbitrary: buf inp)
  case (Suc k)
  let ?n = "rd (1024 - length buf - 1) inp"
  have len: "length buf \<le> 1022"
    using short_lines_rest(1) [OF Suc.prems(4)] Suc.prems(3) by (simp add: split_lines_no_nl)
  show ?case
  proof (cases "inp = []")
    case True
    then have "?n = 0" using assms by (auto simp: reads_def dest!: spec [of _ "1024 - length buf - 1"] spec [of _ "[]"])
    then show ?thesis using Suc.prems True by (simp add: split_lines_no_nl matching_lines_def)
  next
    case False
    then have n: "?n > 0" "?n \<le> length inp" using assms len by (auto simp: reads_def)
    let ?a = "buf @ take ?n inp" and ?b = "drop ?n inp"
    have ab: "buf @ inp = ?a @ ?b" by simp
    let ?r = "snd (split_lines ?a)"
    have "set ?r \<subseteq> set (buf @ inp)" using split_lines_rest(2) [of ?a] by (auto dest: in_set_takeD)
    then have z: "0 \<notin> set (?r @ ?b)" using Suc.prems(2) by (auto dest: in_set_dropD)
    have z': "0 \<notin> set ?a" using Suc.prems(2) by (auto dest: in_set_takeD)
    have sh: "short_lines 1022 (?r @ ?b)" using short_lines_rest(2) [of 1022 ?a ?b] Suc.prems(4) by simp
    have ih: "grep_loop k rd pattern ?r ?b = matching_lines pattern (fst (split_lines (?r @ ?b)))"
      by (rule Suc.IH) (use n Suc.prems(1) z sh split_lines_rest(1) in auto)
    have "fst (split_lines (buf @ inp)) = fst (split_lines ?a) @ fst (split_lines (?r @ ?b))"
      unfolding ab split_lines_append [of ?a ?b] by simp
    then show ?thesis using n ih grep_lines_split [OF z', of pattern]
      by (simp add: matching_lines_def Let_def split_beta)
  qed
qed simp

text \<open>
  C28: grep prints exactly the matching lines of its input, in order, however \<^verbatim>\<open>read\<close> cuts the input into chunks and
  wherever a line lies across them, when no line is longer than 1022 bytes and the input has no NUL.
\<close>

theorem grep_any_chunking:
  assumes "reads rd" "0 \<notin> set inp" "short_lines 1022 inp"
  shows "grep rd pattern inp = matching_lines pattern (fst (split_lines inp))"
  using grep_loop_lines [of rd inp "length inp + 1" "[]" pattern] assms by (simp add: grep_def)

theorem grep_any_chunking_witness:
  "grep (\<lambda>k inp. min k (min 3 (length inp))) (ascii ''b*c'') (ascii ''ab'' @ [10] @ ascii ''bbc'' @ [10]) = ascii ''bbc'' @ [10]"
proof -
  let ?inp = "ascii ''ab'' @ [10] @ ascii ''bbc'' @ [10]"
  have h: "reads (\<lambda>k inp. min k (min 3 (length inp)))" by (auto simp: reads_def)
  have "0 \<notin> set ?inp" "short_lines 1022 ?inp" by code_simp+
  then have "grep (\<lambda>k inp. min k (min 3 (length inp))) (ascii ''b*c'') ?inp =
      matching_lines (ascii ''b*c'') (fst (split_lines ?inp))"
    by (rule grep_any_chunking [OF h])
  also have "\<dots> = ascii ''bbc'' @ [10]" by code_simp
  finally show ?thesis .
qed

section \<open>Long lines, and wc\<close>

lemma grep_loop_stuck:
  assumes "reads rd" "length l \<ge> 1023" "10 \<notin> set l" "0 \<notin> set l"
  shows "\<lbrakk>length buf \<le> 1023; buf @ inp = l @ rest\<rbrakk> \<Longrightarrow> grep_loop k rd pattern buf inp = []"
proof (induction k arbitrary: buf inp)
  case (Suc k)
  let ?n = "rd (1024 - length buf - 1) inp"
  have n: "?n \<le> 1024 - length buf - 1" "?n \<le> length inp" using assms(1) by (auto simp: reads_def)
  let ?b = "buf @ take ?n inp"
  have len: "length ?b \<le> 1023" using n Suc.prems by simp
  have "?b = take (length ?b) (buf @ inp)" using n by simp
  also have "\<dots> = take (length ?b) l" using len assms(2) unfolding Suc.prems by simp
  finally have p: "set ?b \<subseteq> set l" using set_take_subset by metis
  have z: "0 \<notin> set ?b" and nl: "10 \<notin> set ?b" using p assms by blast+
  have g: "grep_lines pattern ?b = ([], ?b)"
    unfolding grep_lines_split [OF z] split_lines_no_nl [OF nl] by (simp add: matching_lines_def)
  have "grep_loop k rd pattern ?b (drop ?n inp) = []"
    by (rule Suc.IH) (use len Suc.prems in simp_all)
  then show ?case using g by (simp add: Let_def)
qed simp

text \<open>
  C29: A line that fills the buffer ends grep. When the input starts with a line of 1023 bytes or more, grep prints
  nothing of the whole input: its buffer is full, the next \<^verbatim>\<open>read\<close> asks for no bytes and returns 0, and grep takes that
  for the end of the file.
\<close>

theorem grep_stops_at_long_line:
  assumes "reads rd" "length l \<ge> 1023" "10 \<notin> set l" "0 \<notin> set l"
  shows "grep rd pattern (l @ rest) = []"
  unfolding grep_def by (rule grep_loop_stuck [OF assms]) simp_all

theorem grep_stops_at_long_line_witness:
  "grep (\<lambda>k inp. min k (length inp)) [97] (replicate 1023 97 @ [10, 97, 10]) = []"
proof (rule grep_stops_at_long_line)
  show "reads (\<lambda>k inp. min k (length inp))" by (simp add: reads_def)
qed simp_all

lemma word_starts_snoc:
  "word_starts (s @ [c]) =
     word_starts s \<union> (if \<not> wc_space c \<and> (s = [] \<or> wc_space (last s)) then {length s} else {})"
proof (cases "s = []")
  case False
  then show ?thesis by (auto simp: word_starts_def nth_append last_conv_nth less_Suc_eq)
qed (auto simp: word_starts_def)

lemma finite_word_starts [simp]: "finite (word_starts s)"
  by (rule finite_subset [of _ "{..<length s}"]) (auto simp: word_starts_def)

lemma wc_fold:
  "foldl wc_char \<lparr>wc_l = 0, wc_w = 0, wc_c = 0, wc_inword = False\<rparr> s =
     \<lparr>wc_l = int (count_list s 10), wc_w = int (card (word_starts s)), wc_c = int (length s),
      wc_inword = (s \<noteq> [] \<and> \<not> wc_space (last s))\<rparr>"
proof (induction s rule: rev_induct)
  case (snoc c s)
  have "length s \<notin> word_starts s" by (simp add: word_starts_def)
  then show ?case using snoc by (auto simp: wc_char_def Let_def word_starts_snoc)
qed (simp add: word_starts_def)

lemma foldl_foldl: "foldl (foldl f) a xss = foldl f a (concat xss)"
  by (induction xss arbitrary: a) simp_all


section \<open>Numbers and copies\<close>

lemma digits_upper_dec: "d < 10 \<Longrightarrow> digits_upper ! d = of_nat (48 + d)"
proof -
  assume "d < 10"
  then have "d \<in> {0, 1, 2, 3, 4, 5, 6, 7, 8, 9}" by auto
  then show ?thesis by (auto simp: digits_upper_def ascii_def of_char_def)
qed

lemma foldl_dec_mono: "n \<le> foldl (\<lambda>n d. n * 10 + d) n ds" for n :: nat
proof (induction ds arbitrary: n)
  case (Cons d ds)
  have "n \<le> n * 10 + d" by simp
  then show ?case using Cons [of "n * 10 + d"] by simp
qed simp

lemma atoi_loop_digits:
  "\<lbrakk>list_all (\<lambda>d. d < 10) ds; foldl (\<lambda>n d. n * 10 + d) n ds < 2147483648\<rbrakk> \<Longrightarrow>
     atoi_loop (int n) (map ((!) digits_upper) ds) = int (foldl (\<lambda>n d. n * 10 + d) n ds)"
proof (induction ds arbitrary: n)
  case (Cons d ds)
  have b: "n * 10 + d < 2147483648" using foldl_dec_mono [of "n * 10 + d" ds] Cons.prems by simp
  have d: "d < 10" using Cons.prems by simp
  have u: "unat (of_nat (48 + d) :: u8) = 48 + d" by (simp only: unat_of_nat) (use d in simp)
  have "i32 (int n * 10 + uint (of_nat (48 + d) :: u8) - 48) = int (n * 10 + d)"
    using b u by (simp add: uint_nat del: of_nat_add)
  moreover have "48 \<le> (of_nat (48 + d) :: u8) \<and> (of_nat (48 + d) :: u8) \<le> 57"
    using d u by (simp add: word_le_nat_alt del: of_nat_add)
  ultimately show ?case using Cons d by (simp add: digits_upper_dec del: of_nat_add)
qed simp

lemma uprintf_d: "uprintf (ascii ''%d'') [PW x] = printint digits_upper (va_int 32 True x) 10 True"
  by (cases "printint digits_upper (va_int 32 True x) 10 True")
     (simp_all add: uprintf_def ascii_def chr_def of_char_def conversion_def fmt_at_def Let_def)

lemma sint_word_of_int_small:
  "\<lbrakk>0 \<le> n; n < 2 ^ (LENGTH('a) - 1)\<rbrakk> \<Longrightarrow> sint (word_of_int n :: 'a::len word) = n"
  by (simp add: signed_of_int signed_take_bit_int_eq_self)

text \<open>
  C32: What \<^verbatim>\<open>printf\<close> prints for a non-negative \<^verbatim>\<open>int\<close> with \<^verbatim>\<open>%d\<close>, \<^verbatim>\<open>atoi\<close> reads back.
\<close>

theorem printf_atoi:
  assumes "0 \<le> n" "n < 2147483648"
  shows "map_option atoi (uprintf (ascii ''%d'') [PW (word_of_int n)]) = Some n"
proof -
  have "i32_of_u64 (word_of_int n) = n"
    using assms by (simp add: i32_of_u64_def unsigned_of_int take_bit_int_eq_self sint_word_of_int_small)
  then have v: "sint (va_int 32 True (word_of_int n)) = n"
    using assms by (simp add: va_int_def sint_word_of_int_small)
  then have "printint digits_upper (va_int 32 True (word_of_int n)) 10 True = Some (map ((!) digits_upper) (digs 10 (nat n)))"
    using printint_digs [of 10 digits_upper "va_int 32 True (word_of_int n)" True] assms by simp
  then show ?thesis
    using atoi_loop_digits [of "digs 10 (nat n)" 0] digs_value [of 10 "nat n"] digs_lt [of 10 "nat n"] assms
    by (simp add: uprintf_d atoi_def)
qed

theorem printf_atoi_witness:
  "map_option atoi (uprintf (ascii ''%d'') [PW (word_of_int 42)]) = Some 42"
  by (rule printf_atoi) simp_all

lemma umemmove_apply:
  assumes "unat dst + n \<le> 2 ^ 64" "unat src + n \<le> 2 ^ 64"
  shows "umemmove dst src n m x = (if unat (x - dst) < n then m (src + (x - dst)) else m x)"
  using copy_up_apply [of dst n src m x] copy_down_apply [of dst n src m x] assms
  by (auto simp: umemmove_def word_less_nat_alt)



end
