(* ===== verification/Sh.thy ===== *)
theory Sh
  imports Ulib
begin

text \<open>
  The parser of the shell, \<^verbatim>\<open>user/sh.c\<close>.

  The text between \<^verbatim>\<open>*ps\<close> and \<^verbatim>\<open>es\<close> is a list of characters without NUL; a token is the characters between \<^verbatim>\<open>q\<close> and \<^verbatim>\<open>eq\<close>,
  which \<^verbatim>\<open>nulterminate\<close> makes into a string once the whole line is parsed. A call of \<^verbatim>\<open>panic\<close> prints its message and ends
  the process: \<open>Err\<close>.

  The parser functions are mutually recursive; the number \<open>k\<close> bounds the depth of their recursion and \<open>Deep\<close> is
  running out of it. \<open>parsecmd\<close> gives them four levels for every character of the line and four more.
\<close>

section \<open>Data\<close>

abbreviation (input) MAXARGS :: nat where "MAXARGS \<equiv> 10"

datatype cmd =
    EXEC "u8 list list"
  | REDIR cmd "u8 list" int int
  | PIPE cmd cmd
  | LIST cmd cmd
  | BACK cmd

datatype 'a parse = OK 'a "u8 list" | Err string | Deep

definition pbind :: "'a parse \<Rightarrow> ('a \<Rightarrow> u8 list \<Rightarrow> 'b parse) \<Rightarrow> 'b parse" where
  "pbind r f = (case r of OK x s \<Rightarrow> f x s | Err e \<Rightarrow> Err e | Deep \<Rightarrow> Deep)"

definition sh_whitespace :: "u8 list" where
  "sh_whitespace = [32, 9, 13, 10, 11]"

definition sh_symbols :: "u8 list" where
  "sh_symbols = ascii ''<|>&;()''"

definition is_space :: "u8 \<Rightarrow> bool" where
  "is_space c \<longleftrightarrow> strchr sh_whitespace c \<noteq> None"

definition is_symbol :: "u8 \<Rightarrow> bool" where
  "is_symbol c \<longleftrightarrow> strchr sh_symbols c \<noteq> None"

definition skip_space :: "u8 list \<Rightarrow> u8 list" where
  "skip_space s = dropWhile is_space s"

section \<open>Tokens\<close>

text \<open>The kind of the token, its text, and the rest of the line.\<close>

definition gettoken :: "u8 list \<Rightarrow> u8 \<times> u8 list \<times> u8 list" where
  "gettoken s =
     (let s = skip_space s; c = str_hd s;
          (ret, tok) =
            (if c = 0 then (0, [])
             else if c \<in> set (ascii ''|();&<'') then (c, [c])
             else if c = chr CHR ''>'' then
               (if str_hd (tl s) = chr CHR ''>'' then (chr CHR ''+'', take 2 s) else (c, [c]))
             else (chr CHR ''a'', takeWhile (\<lambda>c. \<not> is_space c \<and> \<not> is_symbol c) s))
      in (ret, tok, skip_space (drop (length tok) s)))"

definition peek :: "u8 list \<Rightarrow> string \<Rightarrow> bool \<times> u8 list" where
  "peek s toks = (let s = skip_space s in (str_hd s \<noteq> 0 \<and> strchr (ascii toks) (str_hd s) \<noteq> None, s))"

section \<open>The grammar\<close>

definition redir_of :: "u8 \<Rightarrow> cmd \<Rightarrow> u8 list \<Rightarrow> cmd" where
  "redir_of tok cmd file =
     (if tok = chr CHR ''<'' then REDIR cmd file 0 0
      else if tok = chr CHR ''>'' then REDIR cmd file (0x001 OR 0x200 OR 0x400) 1
      else if tok = chr CHR ''+'' then REDIR cmd file (0x001 OR 0x200) 1
      else cmd)"

text \<open>The loop of \<^verbatim>\<open>parseredirs\<close> takes at least one character in every turn.\<close>

primrec redirs_loop :: "nat \<Rightarrow> cmd \<Rightarrow> u8 list \<Rightarrow> cmd parse" where
  "redirs_loop 0 cmd s = Deep"
| "redirs_loop (Suc k) cmd s =
     (let (b, s) = peek s ''<>'' in
      if \<not> b then OK cmd s
      else let (tok, _, s) = gettoken s; (a, file, s) = gettoken s in
        if a \<noteq> chr CHR ''a'' then Err ''missing file for redirection''
        else redirs_loop k (redir_of tok cmd file) s)"

definition parseredirs :: "cmd \<Rightarrow> u8 list \<Rightarrow> cmd parse" where
  "parseredirs cmd s = redirs_loop (length s + 1) cmd s"

text \<open>
  \<^verbatim>\<open>parseexec\<close> keeps a pointer to its \<^verbatim>\<open>execcmd\<close> inside the redirections around it, and adds the arguments there.
\<close>

primrec add_arg :: "u8 list \<Rightarrow> cmd \<Rightarrow> cmd" where
  "add_arg a (EXEC argv) = EXEC (argv @ [a])"
| "add_arg a (REDIR c file mode fd) = REDIR (add_arg a c) file mode fd"
| "add_arg a (PIPE l r) = PIPE l r"
| "add_arg a (LIST l r) = LIST l r"
| "add_arg a (BACK c) = BACK c"

primrec exec_loop :: "nat \<Rightarrow> cmd \<Rightarrow> nat \<Rightarrow> u8 list \<Rightarrow> cmd parse" where
  "exec_loop 0 ret argc s = Deep"
| "exec_loop (Suc k) ret argc s =
     (let (b, s) = peek s ''|)&;'' in
      if b then OK ret s
      else let (tok, a, s) = gettoken s in
        if tok = 0 then OK ret s
        else if tok \<noteq> chr CHR ''a'' then Err ''syntax''
        else if argc + 1 \<ge> MAXARGS then Err ''too many args''
        else pbind (parseredirs (add_arg a ret) s) (\<lambda>ret s. exec_loop k ret (argc + 1) s))"

text \<open>The loop of \<^verbatim>\<open>parseline\<close> over the \<^verbatim>\<open>&\<close> behind a command.\<close>

primrec back_loop :: "nat \<Rightarrow> cmd \<Rightarrow> u8 list \<Rightarrow> cmd parse" where
  "back_loop 0 cmd s = Deep"
| "back_loop (Suc k) cmd s =
     (let (b, s) = peek s ''&'' in
      if b then let (_, _, s) = gettoken s in back_loop k (BACK cmd) s else OK cmd s)"

fun parseline :: "nat \<Rightarrow> u8 list \<Rightarrow> cmd parse"
and parsepipe :: "nat \<Rightarrow> u8 list \<Rightarrow> cmd parse"
and parseexec :: "nat \<Rightarrow> u8 list \<Rightarrow> cmd parse"
and parseblock :: "nat \<Rightarrow> u8 list \<Rightarrow> cmd parse" where
  "parseline 0 s = Deep"
| "parseline (Suc k) s = pbind (parsepipe k s) (\<lambda>cmd s. pbind (back_loop (length s + 1) cmd s) (\<lambda>cmd s.
     let (b, s) = peek s '';'' in
     if b then let (_, _, s) = gettoken s in pbind (parseline k s) (\<lambda>right s. OK (LIST cmd right) s)
     else OK cmd s))"
| "parsepipe 0 s = Deep"
| "parsepipe (Suc k) s = pbind (parseexec k s) (\<lambda>cmd s.
     let (b, s) = peek s ''|'' in
     if b then let (_, _, s) = gettoken s in pbind (parsepipe k s) (\<lambda>right s. OK (PIPE cmd right) s)
     else OK cmd s)"
| "parseexec 0 s = Deep"
| "parseexec (Suc k) s =
     (let (b, s) = peek s ''('' in
      if b then parseblock k s
      else pbind (parseredirs (EXEC []) s) (\<lambda>ret s. exec_loop (length s + 1) ret 0 s))"
| "parseblock 0 s = Deep"
| "parseblock (Suc k) s =
     (let (b, s) = peek s ''('' in
      if \<not> b then Err ''parseblock''
      else let (_, _, s) = gettoken s in pbind (parseline k s) (\<lambda>cmd s.
        let (b, s) = peek s '')'' in
        if \<not> b then Err ''syntax - missing )''
        else let (_, _, s) = gettoken s in parseredirs cmd s))"

definition parsecmd :: "u8 list \<Rightarrow> cmd parse" where
  "parsecmd s = pbind (parseline (4 * length s + 4) s) (\<lambda>cmd s.
     let (_, s) = peek s '''' in
     if s \<noteq> [] then Err ''syntax'' else OK cmd [])"

section \<open>Well-formed commands\<close>

text \<open>
  What the parser promises \<^verbatim>\<open>runcmd\<close>: an \<^verbatim>\<open>execcmd\<close> has fewer than \<^verbatim>\<open>MAXARGS\<close> arguments, so there is room for the null
  pointer behind them, every argument and file name is a non-empty run of characters that are neither blank nor
  special, and a redirection has one of the three modes with its file descriptor. \<open>good n\<close> is a result of a parser
  function called on \<open>n\<close> characters.
\<close>

definition word :: "u8 list \<Rightarrow> bool" where
  "word w \<longleftrightarrow> w \<noteq> [] \<and> hd w \<noteq> 0 \<and> list_all (\<lambda>c. \<not> is_space c \<and> \<not> is_symbol c) w"

primrec wf_cmd :: "cmd \<Rightarrow> bool" where
  "wf_cmd (EXEC argv) \<longleftrightarrow> length argv < MAXARGS \<and> list_all word argv"
| "wf_cmd (REDIR c file mode fd) \<longleftrightarrow> wf_cmd c \<and> word file \<and> (mode, fd) \<in> {(0, 0), (0x601, 1), (0x201, 1)}"
| "wf_cmd (PIPE l r) \<longleftrightarrow> wf_cmd l \<and> wf_cmd r"
| "wf_cmd (LIST l r) \<longleftrightarrow> wf_cmd l \<and> wf_cmd r"
| "wf_cmd (BACK c) \<longleftrightarrow> wf_cmd c"

fun is_exec :: "cmd \<Rightarrow> bool" where
  "is_exec (EXEC argv) = True"
| "is_exec (REDIR c _ _ _) = is_exec c"
| "is_exec _ = False"

fun exec_args_of :: "cmd \<Rightarrow> nat" where
  "exec_args_of (EXEC argv) = length argv"
| "exec_args_of (REDIR c _ _ _) = exec_args_of c"
| "exec_args_of _ = 0"

definition good :: "nat \<Rightarrow> cmd parse \<Rightarrow> bool" where
  "good n r \<longleftrightarrow> (case r of OK c s \<Rightarrow> wf_cmd c \<and> length s \<le> n | Err _ \<Rightarrow> True | Deep \<Rightarrow> False)"

section \<open>Printing a command\<close>

text \<open>
  A line that means a given command: words are followed by a blank, and parentheses stand around a command that is
  not of the level of the grammar its place asks for (0 is \<^verbatim>\<open>parseline\<close>, 1 a command that may end in \<^verbatim>\<open>&\<close>, 2 \<^verbatim>\<open>parsepipe\<close>,
  3 \<^verbatim>\<open>parseexec\<close>).
\<close>

definition show_redir :: "u8 list \<times> int \<times> int \<Rightarrow> u8 list" where
  "show_redir = (\<lambda>(f, mode, fd). (if mode = 0 then [60] else if mode = 0x601 then [62] else [62, 62]) @ f @ [32])"

definition show_words :: "u8 list list \<Rightarrow> u8 list" where
  "show_words ws = concat (map (\<lambda>a. a @ [32]) ws)"

definition paren :: "bool \<Rightarrow> u8 list \<Rightarrow> u8 list" where
  "paren b s = (if b then [40] @ s @ [41] else s)"

primrec show_cmd :: "cmd \<Rightarrow> nat \<Rightarrow> u8 list" where
  "show_cmd (EXEC argv) lv = show_words argv"
| "show_cmd (REDIR c f mode fd) lv = show_cmd c 3 @ show_redir (f, mode, fd)"
| "show_cmd (PIPE l r) lv = paren (lv > 2) (show_cmd l 3 @ [124] @ show_cmd r 2)"
| "show_cmd (LIST l r) lv = paren (lv > 0) (show_cmd l 1 @ [59] @ show_cmd r 0)"
| "show_cmd (BACK c) lv = paren (lv > 1) (show_cmd c 1 @ [38])"

definition redir_ok :: "u8 list \<times> int \<times> int \<Rightarrow> bool" where
  "redir_ok = (\<lambda>(f, mode, fd). word f \<and> (mode, fd) \<in> {(0, 0), (0x601, 1), (0x201, 1)})"

definition apply_redirs :: "cmd \<Rightarrow> (u8 list \<times> int \<times> int) list \<Rightarrow> cmd" where
  "apply_redirs = foldl (\<lambda>c (f, mode, fd). REDIR c f mode fd)"

definition starts :: "string \<Rightarrow> u8 list \<Rightarrow> bool" where
  "starts toks rest \<longleftrightarrow> rest = [] \<or> hd rest \<in> set (ascii toks)"

text \<open>
  That the parser function of a level reads back what was printed for that level, when a character follows at which
  that function stops.
\<close>

definition exec_shows :: "cmd \<Rightarrow> bool" where
  "exec_shows c \<longleftrightarrow> (\<forall>rs rest. list_all redir_ok rs \<longrightarrow> starts ''|)&;'' rest \<longrightarrow>
     (\<exists>k. parseexec k (show_cmd c 3 @ concat (map show_redir rs) @ rest) = OK (apply_redirs c rs) rest))"

definition pipe_shows :: "cmd \<Rightarrow> bool" where
  "pipe_shows c \<longleftrightarrow> (\<forall>rest. starts '')&;'' rest \<longrightarrow> (\<exists>k. parsepipe k (show_cmd c 2 @ rest) = OK c rest))"

definition back_shows :: "cmd \<Rightarrow> bool" where
  "back_shows c \<longleftrightarrow> (\<forall>n rest. starts '');'' rest \<longrightarrow>
     (\<exists>k d s. parsepipe k (show_cmd c 1 @ replicate n 38 @ rest) = OK d s \<and>
        back_loop (length s + 1) d s = OK ((BACK ^^ n) c) rest))"

definition line_shows :: "cmd \<Rightarrow> bool" where
  "line_shows c \<longleftrightarrow> (\<forall>rest. starts '')'' rest \<longrightarrow> (\<exists>k. parseline k (show_cmd c 0 @ rest) = OK c rest))"

section \<open>The parser ends and returns well-formed commands\<close>

lemma good_simps [simp]: "good n (OK c s) \<longleftrightarrow> wf_cmd c \<and> length s \<le> n" "good n (Err e)" "\<not> good n Deep"
  by (simp_all add: good_def)

lemma good_mono: "good n r \<Longrightarrow> n \<le> m \<Longrightarrow> good m r"
  by (auto simp: good_def split: parse.splits)

lemma good_pbind:
  "\<lbrakk>good n r; \<And>c s. wf_cmd c \<Longrightarrow> length s \<le> n \<Longrightarrow> good m (f c s)\<rbrakk> \<Longrightarrow> good m (pbind r f)"
  by (cases r) (auto simp: pbind_def)

lemma strchr_None: "strchr s c = None \<longleftrightarrow> c \<notin> set s"
  by (induction s) auto

lemma is_symbol_iff: "is_symbol c \<longleftrightarrow> c \<in> set sh_symbols"
  using strchr_None [of sh_symbols c] by (simp add: is_symbol_def)

lemma is_space_iff: "is_space c \<longleftrightarrow> c \<in> set sh_whitespace"
  using strchr_None [of sh_whitespace c] by (simp add: is_space_def)

lemma skip_space_length: "length (skip_space s) \<le> length s"
  by (simp add: skip_space_def length_dropWhile_le)

lemma skip_space_hd: "skip_space s = c # t \<Longrightarrow> \<not> is_space c"
  unfolding skip_space_def using hd_dropWhile [of is_space s] by auto

lemma skip_space_idem [simp]: "skip_space (skip_space s) = skip_space s"
  unfolding skip_space_def by (rule dropWhile_idem)

lemma peek_length: "length (snd (peek s toks)) \<le> length s"
  by (simp add: peek_def Let_def skip_space_length)

lemma peek_true: "fst (peek s toks) \<Longrightarrow> str_hd (skip_space (snd (peek s toks))) \<noteq> 0"
  by (simp add: peek_def Let_def)

lemma gettoken_word:
  assumes "skip_space s = c # t" "c \<noteq> 0" "\<not> is_symbol c"
  shows "gettoken s = (chr CHR ''a'', takeWhile (\<lambda>c. \<not> is_space c \<and> \<not> is_symbol c) (c # t),
    skip_space (dropWhile (\<lambda>c. \<not> is_space c \<and> \<not> is_symbol c) (c # t)))"
proof -
  have "c \<notin> set (ascii ''|();&<'') \<and> c \<noteq> chr CHR ''>''"
    using assms(3) by (auto simp: is_symbol_iff sh_symbols_def ascii_def chr_def)
  then show ?thesis
    using assms(1,2) unfolding gettoken_def
    by (simp add: Let_def str_hd_def dropWhile_eq_drop del: takeWhile.simps dropWhile.simps)
qed

lemma is_symbolE:
  assumes "is_symbol c"
  shows "c \<in> set (ascii ''|();&<'') \<or> c = chr CHR ''>''"
  using assms by (auto simp: is_symbol_iff sh_symbols_def ascii_def chr_def)

lemma gettoken_length:
  "length (snd (snd (gettoken s))) \<le> length s"
  "str_hd (skip_space s) \<noteq> 0 \<Longrightarrow> length (snd (snd (gettoken s))) < length s"
proof -
  show "length (snd (snd (gettoken s))) < length s" if z: "str_hd (skip_space s) \<noteq> 0"
  proof -
    obtain c t where s: "skip_space s = c # t" "c \<noteq> 0" using z by (cases "skip_space s") (auto simp: str_hd_def)
    have l: "Suc (length t) \<le> length s" using skip_space_length [of s] s by simp
    show ?thesis
    proof (cases "is_symbol c")
      case True
      have "length (snd (snd (gettoken s))) \<le> length t"
        using is_symbolE [OF True] s skip_space_length
        by (auto simp: gettoken_def Let_def str_hd_def intro: le_trans [OF skip_space_length])
      then show ?thesis using l by simp
    next
      case False
      let ?P = "\<lambda>c. \<not> is_space c \<and> \<not> is_symbol c"
      have "dropWhile ?P (c # t) = dropWhile ?P t" using False skip_space_hd [OF s(1)] by simp
      then have "length (snd (snd (gettoken s))) \<le> length (dropWhile ?P t)"
        using gettoken_word [OF s False] skip_space_length [of "dropWhile ?P t"] by simp
      also have "\<dots> \<le> length t" by (rule length_dropWhile_le)
      finally show ?thesis using l by simp
    qed
  qed
  then show "length (snd (snd (gettoken s))) \<le> length s"
  proof (cases "str_hd (skip_space s) = 0")
    case True
    then show ?thesis by (simp add: gettoken_def Let_def skip_space_length)
  qed simp
qed

lemma gettoken_a:
  assumes "fst (gettoken s) = chr CHR ''a''" shows "word (fst (snd (gettoken s)))" "str_hd (skip_space s) \<noteq> 0"
proof -
  obtain c t where s: "skip_space s = c # t" "c \<noteq> 0"
    using assms by (cases "skip_space s") (auto simp: gettoken_def Let_def str_hd_def chr_def split: if_splits)
  have "\<not> is_symbol c"
    using assms s by (auto simp: gettoken_def Let_def str_hd_def chr_def ascii_def split: if_splits dest: is_symbolE)
  moreover have "\<not> is_space c" using s skip_space_hd by blast
  ultimately show "word (fst (snd (gettoken s)))"
    using gettoken_word [OF s] s by (auto simp: word_def list_all_iff dest: set_takeWhileD)
  show "str_hd (skip_space s) \<noteq> 0" using s by (simp add: str_hd_def)
qed

lemma add_arg_wf: "\<lbrakk>is_exec c; wf_cmd c; word a; exec_args_of c + 1 < MAXARGS\<rbrakk> \<Longrightarrow> wf_cmd (add_arg a c)"
  by (induction c) auto

lemma add_arg_args [simp]: "is_exec c \<Longrightarrow> exec_args_of (add_arg a c) = Suc (exec_args_of c)"
  "is_exec (add_arg a c) = is_exec c"
  by (induction c) auto

lemma redirs_loop_good:
  "\<lbrakk>length s < k; wf_cmd c\<rbrakk> \<Longrightarrow> good (length s) (redirs_loop k c s) \<and>
     (\<forall>c' s'. redirs_loop k c s = OK c' s' \<longrightarrow> is_exec c' = is_exec c \<and> exec_args_of c' = exec_args_of c)"
proof (induction k arbitrary: c s)
  case (Suc k)
  obtain b s1 where p: "peek s ''<>'' = (b, s1)" by fastforce
  obtain tok x s2 where g1: "gettoken s1 = (tok, x, s2)" by (metis prod_cases3)
  obtain a fl s3 where g2: "gettoken s2 = (a, fl, s3)" by (metis prod_cases3)
  have l1: "length s1 \<le> length s" using peek_length [of s "''<>''"] p by simp
  let ?c = "redir_of tok c fl"
  show ?case
  proof (cases "b \<and> a = chr CHR ''a''")
    case True
    then have "str_hd (skip_space s1) \<noteq> 0" using peek_true [of s "''<>''"] p by simp
    then have l2: "length s2 < length s1" using gettoken_length(2) [of s1] g1 by simp
    have l3: "length s3 \<le> length s2" using gettoken_length(1) [of s2] g2 by simp
    have w: "word fl" using gettoken_a(1) [of s2] g2 True by simp
    have wf: "wf_cmd ?c" "is_exec ?c = is_exec c" "exec_args_of ?c = exec_args_of c"
      using w Suc.prems by (auto simp: redir_of_def)
    have e: "redirs_loop (Suc k) c s = redirs_loop k ?c s3" using True by (simp add: p g1 g2)
    show ?thesis unfolding e
      using Suc.IH [of s3 ?c] wf l1 l2 l3 Suc.prems(1) good_mono [of "length s3" _ "length s"] by auto
  next
    case False
    then show ?thesis using Suc.prems l1 by (auto simp: p g1 g2)
  qed
qed simp

lemma parseredirs_good:
  assumes "wf_cmd c"
  shows "good (length s) (parseredirs c s)"
    "parseredirs c s = OK c' s' \<Longrightarrow> is_exec c' = is_exec c \<and> exec_args_of c' = exec_args_of c"
  using redirs_loop_good [of s "length s + 1" c] assms by (simp_all add: parseredirs_def)

lemma exec_loop_good:
  "\<lbrakk>length s < k; wf_cmd c; is_exec c; exec_args_of c = argc\<rbrakk> \<Longrightarrow> good (length s) (exec_loop k c argc s)"
proof (induction k arbitrary: c argc s)
  case (Suc k)
  obtain b s1 where p: "peek s ''|)&;'' = (b, s1)" by fastforce
  obtain tok a s2 where g: "gettoken s1 = (tok, a, s2)" by (metis prod_cases3)
  have l1: "length s1 \<le> length s" using peek_length [of s "''|)&;''"] p by simp
  have l2: "length s2 \<le> length s1" using gettoken_length(1) [of s1] g by simp
  show ?case
  proof (cases "\<not> b \<and> tok = chr CHR ''a'' \<and> argc + 1 < MAXARGS")
    case True
    have w: "word a" and l: "length s2 < length s1"
      using gettoken_a [of s1] gettoken_length(2) [of s1] g True by simp_all
    have wf: "wf_cmd (add_arg a c)" using add_arg_wf Suc.prems w True by simp
    have r: "good (length s2) (parseredirs (add_arg a c) s2)" by (rule parseredirs_good(1) [OF wf])
    have e: "exec_loop (Suc k) c argc s = pbind (parseredirs (add_arg a c) s2) (\<lambda>ret s. exec_loop k ret (argc + 1) s)"
      using True by (simp add: p g chr_def)
    show ?thesis
    proof (cases "parseredirs (add_arg a c) s2")
      case (OK c3 s3)
      then have "good (length s3) (exec_loop k c3 (argc + 1) s3)"
        using Suc.IH [of s3 c3 "argc + 1"] parseredirs_good(2) [OF wf OK] r Suc.prems l l1 by auto
      then show ?thesis using OK r l l1 good_mono [of "length s3" _ "length s"] unfolding e by (auto simp: pbind_def)
    qed (use r e in \<open>auto simp: pbind_def\<close>)
  next
    case False
    then show ?thesis using Suc.prems l1 l2 by (auto simp: p g)
  qed
qed simp

lemma back_loop_good: "\<lbrakk>length s < k; wf_cmd c\<rbrakk> \<Longrightarrow> good (length s) (back_loop k c s)"
proof (induction k arbitrary: c s)
  case (Suc k)
  obtain b s1 where p: "peek s ''&'' = (b, s1)" by fastforce
  obtain tok a s2 where g: "gettoken s1 = (tok, a, s2)" by (metis prod_cases3)
  have l1: "length s1 \<le> length s" using peek_length [of s "''&''"] p by simp
  show ?case
  proof (cases b)
    case True
    then have "length s2 < length s1" using peek_true [of s "''&''"] gettoken_length(2) [of s1] p g by simp
    then have "good (length s2) (back_loop k (BACK c) s2)" "length s2 \<le> length s"
      using Suc.IH [of s2 "BACK c"] Suc.prems l1 by auto
    then show ?thesis using True good_mono [of "length s2" _ "length s"] by (simp add: p g)
  qed (use Suc.prems l1 in \<open>simp add: p\<close>)
qed simp

lemma sep_good:
  assumes "peek s toks = (b, s1)" "gettoken s1 = (tok, a, s2)" "length s \<le> n"
  shows "length s1 \<le> n" "b \<Longrightarrow> length s2 < n"
  using peek_length [of s toks] peek_true [of s toks] gettoken_length(2) [of s1] assms by auto

lemma parseline_good_step:
  assumes pipe: "good (length s) (parsepipe k s)"
    and line: "\<And>s'. length s' < length s \<Longrightarrow> good (length s') (parseline k s')"
  shows "good (length s) (parseline (Suc k) s)"
  unfolding parseline.simps(2)
proof (rule good_pbind [OF pipe])
  fix c and s1 :: "u8 list" assume a: "wf_cmd c" "length s1 \<le> length s"
  show "good (length s) (pbind (back_loop (length s1 + 1) c s1) (\<lambda>cmd s.
      let (b, s) = peek s '';'' in
      if b then let (_, _, s) = gettoken s in pbind (parseline k s) (\<lambda>right s. OK (LIST cmd right) s)
      else OK cmd s))"
  proof (rule good_pbind [where n = "length s"])
    show "good (length s) (back_loop (length s1 + 1) c s1)"
      using back_loop_good [of s1 "length s1 + 1" c] good_mono a by auto
    fix c2 and s2 :: "u8 list" assume a2: "wf_cmd c2" "length s2 \<le> length s"
    obtain b s3 where p: "peek s2 '';'' = (b, s3)" by fastforce
    obtain tok x s4 where g: "gettoken s3 = (tok, x, s4)" by (metis prod_cases3)
    note l = sep_good [OF p g a2(2)]
    have "b \<Longrightarrow> good (length s) (pbind (parseline k s4) (\<lambda>right s. OK (LIST c2 right) s))"
      by (intro good_pbind [where n = "length s"]) (use line [of s4] l good_mono [of "length s4"] a2 in auto)
    then show "good (length s) (let (b, s) = peek s2 '';'' in
      if b then let (_, _, s) = gettoken s in pbind (parseline k s) (\<lambda>right s. OK (LIST c2 right) s)
      else OK c2 s)" using l a2 by (simp add: p g)
  qed
qed

lemma parsepipe_good_step:
  assumes exec: "good (length s) (parseexec k s)"
    and pipe: "\<And>s'. length s' < length s \<Longrightarrow> good (length s') (parsepipe k s')"
  shows "good (length s) (parsepipe (Suc k) s)"
  unfolding parsepipe.simps(2)
proof (rule good_pbind [OF exec])
  fix c and s1 :: "u8 list" assume a: "wf_cmd c" "length s1 \<le> length s"
  obtain b s3 where p: "peek s1 ''|'' = (b, s3)" by fastforce
  obtain tok x s4 where g: "gettoken s3 = (tok, x, s4)" by (metis prod_cases3)
  note l = sep_good [OF p g a(2)]
  have "b \<Longrightarrow> good (length s) (pbind (parsepipe k s4) (\<lambda>right s. OK (PIPE c right) s))"
    by (intro good_pbind [where n = "length s"]) (use pipe [of s4] l good_mono [of "length s4"] a in auto)
  then show "good (length s) (let (b, s) = peek s1 ''|'' in
    if b then let (_, _, s) = gettoken s in pbind (parsepipe k s) (\<lambda>right s. OK (PIPE c right) s)
    else OK c s)" using l a by (simp add: p g)
qed

lemma parseexec_good_step:
  assumes block: "\<And>s'. length s' \<le> length s \<Longrightarrow> good (length s') (parseblock k s')"
  shows "good (length s) (parseexec (Suc k) s)"
proof -
  obtain b s1 where p: "peek s ''('' = (b, s1)" by fastforce
  have l: "length s1 \<le> length s" using peek_length [of s "''(''"] p by simp
  have "good (length s) (parseblock k s1)" using block [OF l] l good_mono by auto
  moreover have "good (length s) (pbind (parseredirs (EXEC []) s1) (\<lambda>ret s. exec_loop (length s + 1) ret 0 s))"
  proof (cases "parseredirs (EXEC []) s1")
    case (OK c2 s2)
    have "wf_cmd c2" "length s2 \<le> length s1" "is_exec c2" "exec_args_of c2 = 0"
      using parseredirs_good(1) [of "EXEC []" s1] parseredirs_good(2) [of "EXEC []", OF _ OK] OK by auto
    then have "good (length s2) (exec_loop (length s2 + 1) c2 0 s2)" by (intro exec_loop_good) simp_all
    then show ?thesis using OK \<open>length s2 \<le> length s1\<close> l good_mono by (auto simp: pbind_def)
  qed (use parseredirs_good(1) [of "EXEC []" s1] in \<open>auto simp: pbind_def\<close>)
  ultimately show ?thesis by (simp add: p)
qed

lemma parseblock_good_step:
  assumes line: "\<And>s'. length s' < length s \<Longrightarrow> good (length s') (parseline k s')"
  shows "good (length s) (parseblock (Suc k) s)"
proof -
  obtain b s1 where p: "peek s ''('' = (b, s1)" by fastforce
  obtain tok x s2 where g: "gettoken s1 = (tok, x, s2)" by (metis prod_cases3)
  note l = sep_good [OF p g order_refl]
  have "b \<Longrightarrow> good (length s) (pbind (parseline k s2) (\<lambda>cmd s.
      let (b, s) = peek s '')'' in
      if \<not> b then Err ''syntax - missing )''
      else let (_, _, s) = gettoken s in parseredirs cmd s))"
  proof (rule good_pbind [where n = "length s2"])
    assume b
    show "good (length s2) (parseline k s2)" by (rule line) (use l(2) \<open>b\<close> in simp)
    fix c and s3 :: "u8 list" assume a: "wf_cmd c" "length s3 \<le> length s2"
    obtain b' s4 where p': "peek s3 '')'' = (b', s4)" by fastforce
    obtain tok' x' s5 where g': "gettoken s4 = (tok', x', s5)" by (metis prod_cases3)
    note l' = sep_good [OF p' g' a(2)]
    have "b' \<Longrightarrow> good (length s) (parseredirs c s5)"
      using parseredirs_good(1) [OF a(1), of s5] l' l(2) [OF \<open>b\<close>] good_mono by auto
    then show "good (length s) (let (b, s) = peek s3 '')'' in
      if \<not> b then Err ''syntax - missing )''
      else let (_, _, s) = gettoken s in parseredirs c s)" by (simp add: p' g')
  qed
  then show ?thesis by (simp add: p g)
qed

lemma parse_good:
  "4 * length s + 4 \<le> k \<Longrightarrow> good (length s) (parseline k s)"
  "4 * length s + 3 \<le> k \<Longrightarrow> good (length s) (parsepipe k s)"
  "4 * length s + 2 \<le> k \<Longrightarrow> good (length s) (parseexec k s)"
  "4 * length s + 1 \<le> k \<Longrightarrow> good (length s) (parseblock k s)"
proof (induction k arbitrary: s)
  case (Suc k)
  { case 1 show ?case by (rule parseline_good_step) (use Suc.IH 1 in auto) }
  { case 2 show ?case by (rule parsepipe_good_step) (use Suc.IH 2 in auto) }
  { case 3 show ?case by (rule parseexec_good_step) (use Suc.IH 3 in auto) }
  { case 4 show ?case by (rule parseblock_good_step) (use Suc.IH 4 in auto) }
qed simp_all

text \<open>
  C25: Parsing ends. For every line the recursion of the parser functions and their loops stop within four levels for
  every character of the line and four more: the parser returns a command or one of its error messages.
\<close>

theorem parsecmd_terminates: "parsecmd s \<noteq> Deep"
  using parse_good(1) [of s "4 * length s + 4"]
  by (cases "parseline (4 * length s + 4) s") (simp_all add: parsecmd_def pbind_def split_beta)

text \<open>
  C26: A command the parser returns is well formed, and the whole line was read. In particular an \<^verbatim>\<open>execcmd\<close> never holds more
  arguments than its array has room for, every word is non-empty, and every redirection has a mode and a descriptor
  that \<^verbatim>\<open>runcmd\<close> can open.
\<close>

theorem parsecmd_type:
  assumes "parsecmd s = OK c r" shows "wf_cmd c \<and> r = []"
  using parse_good(1) [of s "4 * length s + 4"] assms
  by (cases "parseline (4 * length s + 4) s") (auto simp: parsecmd_def pbind_def split_beta split: if_splits)

theorem parsecmd_type_witness:
  "parsecmd (ascii ''cat <in | (wc; ls) >>out &'') =
     OK (BACK (PIPE (REDIR (EXEC [ascii ''cat'']) (ascii ''in'') 0 0)
                    (REDIR (LIST (EXEC [ascii ''wc'']) (EXEC [ascii ''ls''])) (ascii ''out'') 0x201 1))) [] \<and>
   wf_cmd (BACK (PIPE (REDIR (EXEC [ascii ''cat'']) (ascii ''in'') 0 0)
                    (REDIR (LIST (EXEC [ascii ''wc'']) (EXEC [ascii ''ls''])) (ascii ''out'') 0x201 1)))"
proof -
  have p: "parsecmd (ascii ''cat <in | (wc; ls) >>out &'') =
     OK (BACK (PIPE (REDIR (EXEC [ascii ''cat'']) (ascii ''in'') 0 0)
                    (REDIR (LIST (EXEC [ascii ''wc'']) (EXEC [ascii ''ls''])) (ascii ''out'') 0x201 1))) []"
    by code_simp
  show ?thesis using p parsecmd_type [OF p] by blast
qed

section \<open>Parsing what was printed\<close>

lemma space32 [simp]: "is_space 32" "\<not> is_space 60" "\<not> is_space 62" "\<not> is_space 40" "\<not> is_space 41"
  "\<not> is_space 124" "\<not> is_space 59" "\<not> is_space 38"
  by (simp_all add: is_space_iff sh_whitespace_def)

lemma symbols [simp]: "is_symbol 60" "is_symbol 62" "is_symbol 40" "is_symbol 41"
  "is_symbol 124" "is_symbol 59" "is_symbol 38" "\<not> is_symbol 32"
  by (simp_all add: is_symbol_iff sh_symbols_def ascii_def)

lemma skip_space_Cons [simp]: "skip_space [] = []" "skip_space (c # s) = (if is_space c then skip_space s else c # s)"
  by (simp_all add: skip_space_def)

lemma gettoken_skip: "gettoken (skip_space s) = gettoken s"
  by (simp add: gettoken_def)

lemma peek_skip: "peek (skip_space s) toks = peek s toks"
  by (simp add: peek_def)

lemma gettoken_show:
  assumes "word w"
  shows "gettoken (w @ 32 # t) = (97, w, skip_space t)"
proof -
  obtain c w' where w: "w = c # w'" "c \<noteq> 0" "\<not> is_space c" "\<not> is_symbol c"
    using assms by (cases w) (auto simp: word_def)
  let ?P = "\<lambda>c. \<not> is_space c \<and> \<not> is_symbol c"
  have P: "\<And>x. x \<in> set w \<Longrightarrow> ?P x" using assms by (simp add: word_def list_all_iff)
  have tw: "takeWhile ?P (w @ 32 # t) = w" "dropWhile ?P (w @ 32 # t) = 32 # t"
    using takeWhile_append2 [of w ?P "32 # t"] dropWhile_append2 [of w ?P "32 # t"] P by simp_all
  have s: "skip_space (w @ 32 # t) = c # w' @ 32 # t" using w(1,3) by simp
  have e: "c # w' @ 32 # t = w @ 32 # t" by (simp add: w(1))
  show ?thesis unfolding gettoken_word [OF s w(2,4)] unfolding e tw by (simp add: chr_def)
qed

lemma take_two: "take 2 (a # b # t) = [a, b]"
  by (simp add: numeral_2_eq_2)

lemma gettoken_sym:
  assumes "c \<in> set (ascii ''|();&<'')"
  shows "gettoken (c # t) = (c, [c], skip_space t)"
proof -
  have "\<not> is_space c \<and> c \<noteq> 0" using assms by (auto simp: ascii_def)
  then show ?thesis using assms by (simp add: gettoken_def Let_def str_hd_def)
qed

lemma gettoken_gt:
  "str_hd t \<noteq> 62 \<Longrightarrow> gettoken (62 # t) = (62, [62], skip_space t)"
  "gettoken (62 # 62 # t) = (43, [62, 62], skip_space t)"
proof -
  have "62 \<notin> set (ascii ''|();&<'')" by (simp add: ascii_def)
  then show "str_hd t \<noteq> 62 \<Longrightarrow> gettoken (62 # t) = (62, [62], skip_space t)"
    "gettoken (62 # 62 # t) = (43, [62, 62], skip_space t)"
    by (simp_all add: gettoken_def Let_def str_hd_def chr_def take_two)
qed

lemma peek_sym:
  "peek s toks = (str_hd (skip_space s) \<in> set (ascii toks) \<and> str_hd (skip_space s) \<noteq> 0, skip_space s)"
  using strchr_None [of "ascii toks" "str_hd (skip_space s)"] by (auto simp: peek_def Let_def)

lemma word_hd: "word w \<Longrightarrow> \<not> is_space (hd w) \<and> \<not> is_symbol (hd w) \<and> hd w \<noteq> 0 \<and> w \<noteq> []"
  by (cases w) (auto simp: word_def)

lemma word_not_sym: "word w \<Longrightarrow> str_hd (w @ t) \<noteq> 62"
  using word_hd [of w] by (cases w) (auto simp: str_hd_def)

lemma show_redir_tokens:
  assumes "redir_ok (f, mode, fd)"
  shows "\<exists>tok x s. gettoken (show_redir (f, mode, fd) @ t) = (tok, x, s) \<and> gettoken s = (97, f, skip_space t) \<and>
    redir_of tok c f = REDIR c f mode fd"
proof -
  have w: "word f" and m: "(mode, fd) \<in> {(0, 0), (0x601, 1), (0x201, 1)}" using assms by (auto simp: redir_ok_def)
  have k: "gettoken (skip_space (f @ 32 # t)) = (97, f, skip_space t)"
    using gettoken_show [OF w] by (simp add: gettoken_skip)
  have h: "str_hd (f @ 32 # t) \<noteq> 62" by (rule word_not_sym [OF w])
  from m consider "mode = 0 \<and> fd = 0" | "mode = 0x601 \<and> fd = 1" | "mode = 0x201 \<and> fd = 1" by auto
  then show ?thesis
    by cases (use k gettoken_sym [of 60] gettoken_gt(1) [OF h] gettoken_gt(2) in
      \<open>simp_all add: show_redir_def chr_def redir_of_def ascii_def\<close>)
qed

lemma show_redir_hd: "\<exists>y. show_redir r = 60 # y \<or> show_redir r = 62 # y"
  by (cases r) (auto simp: show_redir_def)

lemma redirs_loop_show:
  "\<lbrakk>list_all redir_ok rs; str_hd (skip_space rest) \<noteq> 60; str_hd (skip_space rest) \<noteq> 62; length rs < k\<rbrakk> \<Longrightarrow>
     redirs_loop k c (concat (map show_redir rs) @ rest) = OK (apply_redirs c rs) (skip_space rest)"
proof (induction rs arbitrary: k c)
  case Nil
  then obtain j where "k = Suc j" by (cases k) auto
  then show ?case using Nil by (auto simp: peek_sym ascii_def apply_redirs_def)
next
  case (Cons r rs)
  obtain f mode fd where r: "r = (f, mode, fd)" by (cases r) auto
  obtain j where k: "k = Suc j" using Cons.prems by (cases k) auto
  let ?t = "concat (map show_redir rs) @ rest"
  have ok: "redir_ok (f, mode, fd)" using Cons.prems r by simp
  obtain tok x s where g: "gettoken (show_redir r @ ?t) = (tok, x, s)" "gettoken s = (97, f, skip_space ?t)"
    "redir_of tok c f = REDIR c f mode fd"
    using show_redir_tokens [OF ok, of ?t c] r by blast
  have p: "peek (show_redir r @ ?t) ''<>'' = (True, show_redir r @ ?t)"
    using show_redir_hd [of r] by (auto simp: peek_sym ascii_def str_hd_def)
  have "redirs_loop k c (show_redir r @ ?t) = redirs_loop j (REDIR c f mode fd) (skip_space ?t)"
    using g unfolding k by (simp add: p chr_def)
  also have "\<dots> = redirs_loop j (REDIR c f mode fd) ?t" by (cases j) (simp_all add: peek_skip)
  also have "\<dots> = OK (apply_redirs (REDIR c f mode fd) rs) (skip_space rest)"
    using Cons.IH [of j "REDIR c f mode fd"] Cons.prems k by simp
  finally show ?case by (simp add: r apply_redirs_def)
qed

lemma pbind_OK [simp]: "pbind (OK x s) f = f x s"
  by (simp add: pbind_def)

lemma pbind_eq_OK: "pbind r f = OK y t \<longleftrightarrow> (\<exists>x s. r = OK x s \<and> f x s = OK y t)"
  by (cases r) (auto simp: pbind_def)

lemma pbind_mono:
  assumes "pbind r f \<noteq> Deep" "r \<noteq> Deep \<Longrightarrow> r' = r" "\<And>x s. f x s \<noteq> Deep \<Longrightarrow> g x s = f x s"
  shows "pbind r' g = pbind r f"
  using assms by (cases r) (auto simp: pbind_def)

lemma sep_mono:
  assumes "(let (b, s) = peek s toks in if b then let (_, _, s) = gettoken s in f s else e s) \<noteq> Deep"
    "\<And>s. f s \<noteq> Deep \<Longrightarrow> g s = f s"
  shows "(let (b, s) = peek s toks in if b then let (_, _, s) = gettoken s in g s else e s) =
    (let (b, s) = peek s toks in if b then let (_, _, s) = gettoken s in f s else e s)"
  using assms by (simp add: split_beta Let_def split: if_splits)

lemma parse_Suc:
  "parseline k s \<noteq> Deep \<Longrightarrow> parseline (Suc k) s = parseline k s"
  "parsepipe k s \<noteq> Deep \<Longrightarrow> parsepipe (Suc k) s = parsepipe k s"
  "parseexec k s \<noteq> Deep \<Longrightarrow> parseexec (Suc k) s = parseexec k s"
  "parseblock k s \<noteq> Deep \<Longrightarrow> parseblock (Suc k) s = parseblock k s"
proof (induction k arbitrary: s)
  case (Suc k)
  { case 1
    show ?case unfolding parseline.simps(2) [of _ s]
      by (rule pbind_mono [OF 1 [unfolded parseline.simps(2) [of _ s]] Suc.IH(2)], assumption)
         (erule pbind_mono, rule refl, erule sep_mono, erule pbind_mono, erule Suc.IH(1), rule refl) }
  { case 2
    show ?case unfolding parsepipe.simps(2) [of _ s]
      by (rule pbind_mono [OF 2 [unfolded parsepipe.simps(2) [of _ s]] Suc.IH(3)], assumption)
         (erule sep_mono, erule pbind_mono, erule Suc.IH(2), rule refl) }
  { case 3
    obtain b s' where p: "peek s ''('' = (b, s')" by fastforce
    show ?case using 3 Suc.IH(4) [of s'] unfolding parseexec.simps(2) [of _ s] p
      by (cases b) (simp_all del: parseblock.simps) }
  { case 4
    obtain b s' where p: "peek s ''('' = (b, s')" by fastforce
    obtain tok x s2 where g: "gettoken s' = (tok, x, s2)" by (metis prod_cases3)
    show ?case
      using 4 unfolding parseblock.simps(2) [of _ s] p
      by (cases b) (simp_all add: g del: parseline.simps, erule pbind_mono, erule Suc.IH(1), rule refl) }
qed simp_all

lemma parse_mono:
  "k \<le> k' \<Longrightarrow> parseline k s \<noteq> Deep \<Longrightarrow> parseline k' s = parseline k s"
  "k \<le> k' \<Longrightarrow> parsepipe k s \<noteq> Deep \<Longrightarrow> parsepipe k' s = parsepipe k s"
  "k \<le> k' \<Longrightarrow> parseexec k s \<noteq> Deep \<Longrightarrow> parseexec k' s = parseexec k s"
  by (induction rule: dec_induct) (metis parse_Suc)+

lemma parse_skip:
  "parseexec k (skip_space s) = parseexec k s"
  "parsepipe k (skip_space s) = parsepipe k s"
  "parseline k (skip_space s) = parseline k s"
proof -
  show e: "parseexec k (skip_space s) = parseexec k s" for k by (cases k) (simp_all add: peek_skip)
  show p: "parsepipe k (skip_space s) = parsepipe k s" for k by (cases k) (simp_all add: e)
  show "parseline k (skip_space s) = parseline k s" by (cases k) (simp_all add: p)
qed

lemma redirs_loop_skip: "redirs_loop k c (skip_space s) = redirs_loop k c s"
  by (cases k) (simp_all add: peek_skip)

lemma starts_facts:
  assumes "starts toks rest" "set (ascii toks) \<subseteq> {124, 41, 38, 59}"
  shows "skip_space rest = rest" "str_hd rest = 0 \<longleftrightarrow> rest = []" "str_hd rest \<in> {0, 124, 41, 38, 59}"
  using assms by (cases rest; fastforce simp: starts_def str_hd_def)+

lemma exec_starts:
  assumes "starts ''|)&;'' rest"
  shows "skip_space rest = rest" "str_hd rest = 0 \<longleftrightarrow> rest = []" "str_hd rest \<in> {0, 124, 41, 38, 59}"
  by (rule starts_facts [OF assms], simp add: ascii_def)+

lemma exec_loop_stops:
  assumes "starts ''|)&;'' rest"
  shows "exec_loop (Suc k) c argc rest = OK c rest"
proof (cases "rest = []")
  case True
  then show ?thesis by (simp add: peek_sym gettoken_def Let_def str_hd_def)
next
  case False
  then show ?thesis using exec_starts [OF assms] by (auto simp: peek_sym ascii_def)
qed

lemma show_redir_length: "1 \<le> length (show_redir r)"
  using show_redir_hd [of r] by auto

lemma redirs_length: "length rs \<le> length (skip_space (concat (map show_redir rs) @ rest))"
proof (cases rs)
  case (Cons r rs')
  have "length rs \<le> length (concat (map show_redir rs))"
    by (induction rs) (use add_mono [OF show_redir_length] in simp_all)
  moreover have "skip_space (concat (map show_redir rs) @ rest) = concat (map show_redir rs) @ rest"
    using show_redir_hd [of r] by (auto simp: Cons)
  ultimately show ?thesis by simp
qed simp

lemma parseredirs_show:
  assumes "list_all redir_ok rs" "str_hd (skip_space rest) \<notin> {60, 62}"
  shows "parseredirs c (concat (map show_redir rs) @ rest) = OK (apply_redirs c rs) (skip_space rest)"
    "parseredirs c (skip_space (concat (map show_redir rs) @ rest)) = OK (apply_redirs c rs) (skip_space rest)"
  unfolding parseredirs_def redirs_loop_skip
  by (rule redirs_loop_show; use assms redirs_length [of rs rest]
        le_trans [OF redirs_length [of rs rest] skip_space_length] in \<open>simp add: less_Suc_eq_le\<close>)+

lemma words_hd:
  assumes "list_all word ws" "ws \<noteq> []"
  shows "\<exists>c t. show_words ws @ s = c # t \<and> \<not> is_space c \<and> \<not> is_symbol c \<and> c \<noteq> 0"
proof -
  obtain w ws' where ws: "ws = w # ws'" using assms by (cases ws) auto
  then obtain c w' where w: "w = c # w'" using assms word_hd [of w] by (cases w) auto
  then show ?thesis using ws assms word_hd [of w] by (simp add: show_words_def)
qed

lemma peek_not_symbol:
  assumes "\<not> is_space c" "\<not> is_symbol c" "set (ascii toks) \<subseteq> set sh_symbols"
  shows "peek (c # t) toks = (False, c # t)"
  using assms by (auto simp: peek_sym str_hd_def is_symbol_iff)

lemma exec_loop_word:
  assumes "word w" "argc + 1 < MAXARGS"
  shows "exec_loop (Suc k) c argc (w @ 32 # t) =
    pbind (parseredirs (add_arg w c) (skip_space t)) (\<lambda>ret s. exec_loop k ret (argc + 1) s)"
proof -
  obtain d w' where w: "w = d # w'" "\<not> is_space d" "\<not> is_symbol d"
    using word_hd [OF assms(1)] by (cases w) auto
  have "peek (w @ 32 # t) ''|)&;'' = (False, w @ 32 # t)"
    using peek_not_symbol [OF w(2,3), of "''|)&;''"] w(1) by (simp add: sh_symbols_def ascii_def)
  then show ?thesis using gettoken_show [OF assms(1), of t] assms(2) by (simp add: chr_def)
qed

lemma exec_loop_show:
  "\<lbrakk>list_all word ws; ws \<noteq> []; length argv + length ws < MAXARGS; length ws < k; list_all redir_ok rs;
    starts ''|)&;'' rest\<rbrakk> \<Longrightarrow>
     exec_loop k (EXEC argv) (length argv) (show_words ws @ concat (map show_redir rs) @ rest) =
       OK (apply_redirs (EXEC (argv @ ws)) rs) rest"
proof (induction ws arbitrary: argv k)
  case (Cons w ws)
  obtain j where k: "k = Suc j" using Cons.prems by (cases k) auto
  let ?t = "show_words ws @ concat (map show_redir rs) @ rest"
  have e: "exec_loop k (EXEC argv) (length argv) (w @ 32 # ?t) =
      pbind (parseredirs (EXEC (argv @ [w])) (skip_space ?t)) (\<lambda>ret s. exec_loop j ret (length argv + 1) s)"
    unfolding k using exec_loop_word [of w "length argv" j "EXEC argv" ?t] Cons.prems by simp
  have st: "str_hd (skip_space rest) \<notin> {60, 62}" "skip_space rest = rest" using exec_starts [OF Cons.prems(6)] by auto
  show ?case
  proof (cases "ws = []")
    case True
    obtain i where j: "j = Suc i" using Cons.prems k True by (cases j) auto
    show ?thesis
      using e parseredirs_show(2) [OF Cons.prems(5) st(1), of "EXEC (argv @ [w])"] st(2)
        exec_loop_stops [OF Cons.prems(6)]
      by (simp add: True show_words_def j del: exec_loop.simps)
  next
    case False
    obtain d t where h: "?t = d # t" "\<not> is_space d" "\<not> is_symbol d"
      using words_hd [of ws "concat (map show_redir rs) @ rest"] Cons.prems False by auto
    have "str_hd (skip_space ?t) \<notin> {60, 62}" using h by (auto simp: str_hd_def)
    then have "parseredirs (EXEC (argv @ [w])) (skip_space ?t) = OK (EXEC (argv @ [w])) ?t"
      using parseredirs_show(2) [of "[]" ?t "EXEC (argv @ [w])"] h by (simp add: apply_redirs_def)
    then show ?thesis
      using e Cons.IH [of "argv @ [w]" j] Cons.prems False k by (simp add: show_words_def del: exec_loop.simps)
  qed
qed simp

lemma exec_shows_EXEC:
  assumes "wf_cmd (EXEC argv)" shows "exec_shows (EXEC argv)"
  unfolding exec_shows_def
proof (intro allI impI)
  fix rs rest assume a: "list_all redir_ok rs" "starts ''|)&;'' rest"
  let ?s = "show_words argv @ concat (map show_redir rs) @ rest"
  have st: "str_hd (skip_space rest) \<notin> {60, 62}" "skip_space rest = rest" "str_hd rest \<noteq> 40"
    using exec_starts [OF a(2)] by auto
  have "parseexec 1 ?s = OK (apply_redirs (EXEC argv) rs) rest"
  proof (cases "argv = []")
    case True
    have "str_hd (skip_space ?s) \<noteq> 40"
    proof (cases rs)
      case (Cons r rs')
      then show ?thesis using show_redir_hd [of r] True by (auto simp: show_words_def str_hd_def)
    qed (use True st in \<open>simp add: show_words_def\<close>)
    then have "peek ?s ''('' = (False, skip_space ?s)" by (simp add: peek_sym ascii_def)
    then show ?thesis
      using parseredirs_show(2) [OF a(1) st(1), of "EXEC []"] st(2) exec_loop_stops [OF a(2)]
      by (simp add: True show_words_def del: exec_loop.simps)
  next
    case False
    obtain d t where h: "?s = d # t" "\<not> is_space d" "\<not> is_symbol d"
      using words_hd [of argv "concat (map show_redir rs) @ rest"] assms False by auto
    have p: "peek ?s ''('' = (False, ?s)"
      using peek_not_symbol [OF h(2,3), of "''(''" t] h(1) by (simp add: sh_symbols_def ascii_def)
    have "str_hd (skip_space ?s) \<notin> {60, 62}" using h by (auto simp: str_hd_def)
    then have r: "parseredirs (EXEC []) ?s = OK (EXEC []) ?s"
      using parseredirs_show(1) [of "[]" ?s "EXEC []"] h by (simp add: apply_redirs_def)
    have "length argv \<le> length (show_words argv)"
      unfolding show_words_def by (induction argv) auto
    then have "exec_loop (length ?s + 1) (EXEC []) 0 ?s = OK (apply_redirs (EXEC argv) rs) rest"
      using exec_loop_show [of argv "[]" "length ?s + 1" rs rest] assms False a by simp
    then show ?thesis using p r by (simp del: exec_loop.simps)
  qed
  then show "\<exists>k. parseexec k (show_cmd (EXEC argv) 3 @ concat (map show_redir rs) @ rest) =
      OK (apply_redirs (EXEC argv) rs) rest" by (intro exI [of _ 1]) simp
qed

lemma exec_shows_REDIR:
  assumes "exec_shows c" "wf_cmd (REDIR c f mode fd)" shows "exec_shows (REDIR c f mode fd)"
  unfolding exec_shows_def
proof (intro allI impI)
  fix rs rest assume a: "list_all redir_ok rs" "starts ''|)&;'' rest"
  have "list_all redir_ok ((f, mode, fd) # rs)" using a assms(2) by (simp add: redir_ok_def)
  then obtain k where "parseexec k (show_cmd c 3 @ concat (map show_redir ((f, mode, fd) # rs)) @ rest) =
      OK (apply_redirs c ((f, mode, fd) # rs)) rest"
    using assms(1) a(2) unfolding exec_shows_def by blast
  then show "\<exists>k. parseexec k (show_cmd (REDIR c f mode fd) 3 @ concat (map show_redir rs) @ rest) =
      OK (apply_redirs (REDIR c f mode fd) rs) rest" by (auto simp: apply_redirs_def)
qed

lemma starts_close: "starts '')'' (41 # t)"
  by (simp add: starts_def ascii_def)

lemma exec_shows_paren:
  assumes "line_shows c" "show_cmd c 3 = 40 # show_cmd c 0 @ [41]" shows "exec_shows c"
  unfolding exec_shows_def
proof (intro allI impI)
  fix rs rest assume a: "list_all redir_ok rs" "starts ''|)&;'' rest"
  let ?t = "concat (map show_redir rs) @ rest"
  have st: "str_hd (skip_space rest) \<notin> {60, 62}" "skip_space rest = rest" using exec_starts [OF a(2)] by auto
  obtain k where k: "parseline k (show_cmd c 0 @ 41 # ?t) = OK c (41 # ?t)"
    using assms(1) unfolding line_shows_def by (meson starts_close)
  have g: "gettoken (40 # show_cmd c 0 @ 41 # ?t) = (40, [40], skip_space (show_cmd c 0 @ 41 # ?t))"
    "gettoken (41 # ?t) = (41, [41], skip_space ?t)"
    by (rule gettoken_sym, simp add: ascii_def)+
  have p: "peek (40 # show_cmd c 0 @ 41 # ?t) ''('' = (True, 40 # show_cmd c 0 @ 41 # ?t)"
    "peek (41 # ?t) '')'' = (True, 41 # ?t)"
    by (simp_all add: peek_sym str_hd_def ascii_def)
  have "parseexec (Suc (Suc k)) (40 # show_cmd c 0 @ 41 # ?t) = OK (apply_redirs c rs) rest"
    using parseredirs_show(2) [OF a(1) st(1)] st(2) k by (simp add: p g parse_skip)
  then show "\<exists>k. parseexec k (show_cmd c 3 @ ?t) = OK (apply_redirs c rs) rest"
    unfolding assms(2) by (intro exI [of _ "Suc (Suc k)"]) (simp del: parseexec.simps)
qed

lemma starts_mono: "starts toks rest \<Longrightarrow> set (ascii toks) \<subseteq> set (ascii toks') \<Longrightarrow> starts toks' rest"
  by (auto simp: starts_def)

lemma peek_starts:
  assumes "starts toks rest" "set (ascii toks) \<subseteq> {124, 41, 38, 59}" "set (ascii toks') \<inter> set (ascii toks) = {}"
  shows "peek rest toks' = (False, rest)"
  using starts_facts(1) [OF assms(1,2)] assms by (cases rest) (auto simp: peek_sym str_hd_def starts_def)

lemma pipe_shows_exec:
  assumes "exec_shows c" "show_cmd c 2 = show_cmd c 3" shows "pipe_shows c"
  unfolding pipe_shows_def
proof (intro allI impI)
  fix rest assume a: "starts '')&;'' rest"
  then have "starts ''|)&;'' rest" by (rule starts_mono) (auto simp: ascii_def)
  then obtain k where "parseexec k (show_cmd c 3 @ concat (map show_redir []) @ rest) = OK (apply_redirs c []) rest"
    using assms(1) unfolding exec_shows_def by (meson list.pred_inject(1))
  moreover have "peek rest ''|'' = (False, rest)" by (rule peek_starts [OF a]) (auto simp: ascii_def)
  ultimately have "parsepipe (Suc k) (show_cmd c 2 @ rest) = OK c rest" by (simp add: assms(2) apply_redirs_def)
  then show "\<exists>k. parsepipe k (show_cmd c 2 @ rest) = OK c rest" by blast
qed

lemma pipe_shows_PIPE:
  assumes "exec_shows l" "pipe_shows r" shows "pipe_shows (PIPE l r)"
  unfolding pipe_shows_def
proof (intro allI impI)
  fix rest assume a: "starts '')&;'' rest"
  let ?t = "show_cmd r 2 @ rest"
  have "starts ''|)&;'' (124 # ?t)" by (simp add: starts_def ascii_def)
  then obtain k1 where "parseexec k1 (show_cmd l 3 @ concat (map show_redir []) @ 124 # ?t) = OK (apply_redirs l []) (124 # ?t)"
    using assms(1) unfolding exec_shows_def by (meson list.pred_inject(1))
  moreover obtain k2 where "parsepipe k2 ?t = OK r rest" using assms(2) a unfolding pipe_shows_def by blast
  ultimately have k: "parseexec (max k1 k2) (show_cmd l 3 @ 124 # ?t) = OK l (124 # ?t)"
    "parsepipe (max k1 k2) ?t = OK r rest"
    using parse_mono(3) [of k1 "max k1 k2"] parse_mono(2) [of k2 "max k1 k2"] by (simp_all add: apply_redirs_def)
  have "gettoken (124 # ?t) = (124, [124], skip_space ?t)" by (rule gettoken_sym) (simp add: ascii_def)
  moreover have "peek (124 # ?t) ''|'' = (True, 124 # ?t)" by (simp add: peek_sym str_hd_def ascii_def)
  ultimately have "parsepipe (Suc (max k1 k2)) (show_cmd l 3 @ 124 # ?t) = OK (PIPE l r) rest"
    using k by (simp add: parse_skip)
  then show "\<exists>k. parsepipe k (show_cmd (PIPE l r) 2 @ rest) = OK (PIPE l r) rest"
    by (intro exI [of _ "Suc (max k1 k2)"]) (simp add: paren_def del: parsepipe.simps)
qed

lemma back_loop_show:
  assumes "starts '');'' rest"
  shows "n < k \<Longrightarrow> back_loop k c (replicate n 38 @ rest) = OK ((BACK ^^ n) c) rest"
proof (induction n arbitrary: k c)
  case 0
  then obtain j where "k = Suc j" by (cases k) auto
  moreover have "peek rest ''&'' = (False, rest)" by (rule peek_starts [OF assms]) (auto simp: ascii_def)
  ultimately show ?case by simp
next
  case (Suc n)
  then obtain j where k: "k = Suc j" by (cases k) auto
  let ?t = "replicate n 38 @ rest"
  have t: "skip_space ?t = ?t"
  proof (cases n)
    case 0
    then show ?thesis using starts_facts(1) [OF assms] by (simp add: ascii_def)
  qed simp
  have "gettoken (38 # ?t) = (38, [38], skip_space ?t)" by (rule gettoken_sym) (simp add: ascii_def)
  moreover have "peek (38 # ?t) ''&'' = (True, 38 # ?t)" by (simp add: peek_sym str_hd_def ascii_def)
  ultimately show ?case using Suc k t by (simp add: funpow_swap1)
qed

lemma back_shows_pipe:
  assumes "pipe_shows c" "show_cmd c 1 = show_cmd c 2" shows "back_shows c"
  unfolding back_shows_def
proof (intro allI impI)
  fix n rest assume a: "starts '');'' rest"
  let ?s = "replicate n 38 @ rest"
  have "starts '')&;'' ?s"
    using starts_mono [OF a, of "'')&;''"] by (cases n) (auto simp: ascii_def starts_def)
  then obtain k where "parsepipe k (show_cmd c 2 @ ?s) = OK c ?s" using assms(1) unfolding pipe_shows_def by blast
  moreover have "back_loop (length ?s + 1) c ?s = OK ((BACK ^^ n) c) rest" by (rule back_loop_show [OF a]) simp
  ultimately show "\<exists>k d s. parsepipe k (show_cmd c 1 @ ?s) = OK d s \<and> back_loop (length s + 1) d s = OK ((BACK ^^ n) c) rest"
    unfolding assms(2) by blast
qed

lemma back_shows_BACK:
  assumes "back_shows c" shows "back_shows (BACK c)"
  unfolding back_shows_def
proof (intro allI impI)
  fix n rest assume a: "starts '');'' rest"
  have "show_cmd (BACK c) 1 @ replicate n 38 @ rest = show_cmd c 1 @ replicate (Suc n) 38 @ rest"
    by (simp add: paren_def)
  moreover have "(BACK ^^ Suc n) c = (BACK ^^ n) (BACK c)" by (simp add: funpow_swap1)
  ultimately show "\<exists>k d s. parsepipe k (show_cmd (BACK c) 1 @ replicate n 38 @ rest) = OK d s \<and>
      back_loop (length s + 1) d s = OK ((BACK ^^ n) (BACK c)) rest"
    using assms a unfolding back_shows_def by metis
qed

lemma line_shows_back:
  assumes "back_shows c" "show_cmd c 0 = show_cmd c 1" shows "line_shows c"
  unfolding line_shows_def
proof (intro allI impI)
  fix rest assume a: "starts '')'' rest"
  then have "starts '');'' rest" by (rule starts_mono) (auto simp: ascii_def)
  then obtain k d s where "parsepipe k (show_cmd c 1 @ replicate 0 38 @ rest) = OK d s"
      "back_loop (length s + 1) d s = OK ((BACK ^^ 0) c) rest"
    using assms(1) unfolding back_shows_def by blast
  moreover have "peek rest '';'' = (False, rest)" by (rule peek_starts [OF a]) (auto simp: ascii_def)
  ultimately have "parseline (Suc k) (show_cmd c 0 @ rest) = OK c rest"
    by (simp add: assms(2) del: back_loop.simps)
  then show "\<exists>k. parseline k (show_cmd c 0 @ rest) = OK c rest" by blast
qed

lemma line_shows_LIST:
  assumes "back_shows l" "line_shows r" shows "line_shows (LIST l r)"
  unfolding line_shows_def
proof (intro allI impI)
  fix rest assume a: "starts '')'' rest"
  let ?t = "show_cmd r 0 @ rest"
  have "starts '');'' (59 # ?t)" by (simp add: starts_def ascii_def)
  then obtain k1 d s where k1: "parsepipe k1 (show_cmd l 1 @ replicate 0 38 @ 59 # ?t) = OK d s"
      "back_loop (length s + 1) d s = OK ((BACK ^^ 0) l) (59 # ?t)"
    using assms(1) unfolding back_shows_def by blast
  obtain k2 where "parseline k2 ?t = OK r rest" using assms(2) a unfolding line_shows_def by blast
  then have k: "parsepipe (max k1 k2) (show_cmd l 1 @ 59 # ?t) = OK d s" "parseline (max k1 k2) ?t = OK r rest"
    using k1 parse_mono(2) [of k1 "max k1 k2"] parse_mono(1) [of k2 "max k1 k2"] by simp_all
  have "gettoken (59 # ?t) = (59, [59], skip_space ?t)" by (rule gettoken_sym) (simp add: ascii_def)
  moreover have "peek (59 # ?t) '';'' = (True, 59 # ?t)" by (simp add: peek_sym str_hd_def ascii_def)
  ultimately have "parseline (Suc (max k1 k2)) (show_cmd l 1 @ 59 # ?t) = OK (LIST l r) rest"
    using k k1(2) by (simp add: parse_skip del: back_loop.simps)
  then show "\<exists>k. parseline k (show_cmd (LIST l r) 0 @ rest) = OK (LIST l r) rest"
    by (intro exI [of _ "Suc (max k1 k2)"]) (simp add: paren_def del: parseline.simps)
qed

lemma all_shows: "wf_cmd c \<Longrightarrow> exec_shows c \<and> pipe_shows c \<and> back_shows c \<and> line_shows c"
proof (induction c)
  case (EXEC argv)
  then have e: "exec_shows (EXEC argv)" by (rule exec_shows_EXEC)
  then have p: "pipe_shows (EXEC argv)" by (rule pipe_shows_exec) simp
  then have b: "back_shows (EXEC argv)" by (rule back_shows_pipe) simp
  then have "line_shows (EXEC argv)" by (rule line_shows_back) simp
  with e p b show ?case by simp
next
  case (REDIR c f mode fd)
  let ?c = "REDIR c f mode fd"
  have e: "exec_shows ?c" by (rule exec_shows_REDIR) (use REDIR in simp_all)
  then have p: "pipe_shows ?c" by (rule pipe_shows_exec) simp
  then have b: "back_shows ?c" by (rule back_shows_pipe) simp
  then have "line_shows ?c" by (rule line_shows_back) simp
  with e p b show ?case by simp
next
  case (PIPE l r)
  then have p: "pipe_shows (PIPE l r)" by (intro pipe_shows_PIPE) simp_all
  then have b: "back_shows (PIPE l r)" by (rule back_shows_pipe) (simp add: paren_def)
  then have l: "line_shows (PIPE l r)" by (rule line_shows_back) (simp add: paren_def)
  then have "exec_shows (PIPE l r)" by (rule exec_shows_paren) (simp add: paren_def)
  with p b l show ?case by simp
next
  case (LIST l r)
  then have l: "line_shows (LIST l r)" by (intro line_shows_LIST) simp_all
  then have e: "exec_shows (LIST l r)" by (rule exec_shows_paren) (simp add: paren_def)
  then have p: "pipe_shows (LIST l r)" by (rule pipe_shows_exec) (simp add: paren_def)
  then have "back_shows (LIST l r)" by (rule back_shows_pipe) (simp add: paren_def)
  with e p l show ?case by simp
next
  case (BACK c)
  then have b: "back_shows (BACK c)" by (intro back_shows_BACK) simp_all
  then have l: "line_shows (BACK c)" by (rule line_shows_back) (simp add: paren_def)
  then have e: "exec_shows (BACK c)" by (rule exec_shows_paren) (simp add: paren_def)
  then have "pipe_shows (BACK c)" by (rule pipe_shows_exec) (simp add: paren_def)
  with b e l show ?case by simp
qed

text \<open>
  C24: Printing and parsing. Every well-formed command, however its pipes, lists, background commands and redirections
  are nested, is the parse of the line printed for it; so the precedence of \<^verbatim>\<open>|\<close>, \<^verbatim>\<open>&\<close> and \<^verbatim>\<open>;\<close>, the grouping by parentheses
  and the order of redirections are what the grammar says.
\<close>

theorem parse_show:
  assumes "wf_cmd c" shows "parsecmd (show_cmd c 0) = OK c []"
proof -
  let ?s = "show_cmd c 0" and ?n = "4 * length (show_cmd c 0) + 4"
  have "starts '')'' []" by (simp add: starts_def)
  then obtain k where k: "parseline k (?s @ []) = OK c []"
    using all_shows [OF assms] unfolding line_shows_def by blast
  have "parseline ?n ?s = parseline (max k ?n) ?s"
    using parse_mono(1) [of ?n "max k ?n" ?s] parse_good(1) [of ?s ?n] by (metis good_simps(3) le_refl max.cobounded2)
  also have "\<dots> = OK c []" using parse_mono(1) [of k "max k ?n" ?s] k by simp
  finally have "parseline ?n ?s = OK c []" .
  then show ?thesis by (simp add: parsecmd_def peek_sym)
qed

theorem parse_show_witness:
  "parsecmd (show_cmd (PIPE (EXEC [ascii ''cat'', ascii ''f'']) (LIST (BACK (EXEC [ascii ''ls''])) (REDIR (EXEC [ascii ''wc'']) (ascii ''out'') 0x201 1))) 0) =
     OK (PIPE (EXEC [ascii ''cat'', ascii ''f'']) (LIST (BACK (EXEC [ascii ''ls''])) (REDIR (EXEC [ascii ''wc'']) (ascii ''out'') 0x201 1))) []"
  by (rule parse_show) code_simp

end
