(* ===== verification/Mkfs.thy ===== *)
theory Mkfs
  imports Fs Ulib
begin

text \<open>
  The program that builds the disk image, \<^verbatim>\<open>mkfs/mkfs.c\<close>.

  The image is a function from block numbers to blocks; a failing \<^verbatim>\<open>assert\<close> is \<^const>\<open>None\<close>. \<^verbatim>\<open>xshort\<close> and \<^verbatim>\<open>xint\<close> bring a number into
  little-endian order, which is how \<^const>\<open>wr16\<close> and \<^const>\<open>wr32\<close> store it. The files are given with their contents, which
  \<^verbatim>\<open>main\<close> reads a block at a time.
\<close>

section \<open>Data\<close>

abbreviation (input) FSSIZE :: nat where "FSSIZE \<equiv> 2000"
abbreviation (input) NINODES :: nat where "NINODES \<equiv> 200"

definition nbitmap :: nat where "nbitmap = FSSIZE div BPB + 1"
definition ninodeblocks :: nat where "ninodeblocks = NINODES div IPB + 1"
definition nlog :: nat where "nlog = LOGBLOCKS + 1"
definition nmeta :: nat where "nmeta = 2 + nlog + ninodeblocks + nbitmap"

definition mkfs_sb :: superblock where
  "mkfs_sb = \<lparr>sb_magic = FSMAGIC, sb_size = of_nat FSSIZE, sb_nblocks = of_nat (FSSIZE - nmeta), sb_ninodes = of_nat NINODES,
     sb_nlog = of_nat nlog, sb_logstart = 2, sb_inodestart = of_nat (2 + nlog),
     sb_bmapstart = of_nat (2 + nlog + ninodeblocks)\<rparr>"

record img =
  im_blocks :: "nat \<Rightarrow> u8 list"
  im_freeinode :: u32
  im_freeblock :: u32

section \<open>Sectors and inodes\<close>

definition wsect :: "u32 \<Rightarrow> u8 list \<Rightarrow> img \<Rightarrow> img" where
  "wsect sec buf im = im\<lparr>im_blocks := (im_blocks im)(unat sec := buf)\<rparr>"

definition rsect :: "u32 \<Rightarrow> img \<Rightarrow> u8 list" where
  "rsect sec im = im_blocks im (unat sec)"

definition winode :: "u32 \<Rightarrow> dinode \<Rightarrow> img \<Rightarrow> img" where
  "winode inum di im = (let bn = IBLOCK inum mkfs_sb in wsect bn (wr_dinode (rsect bn im) (unat inum mod IPB) di) im)"

definition rinode :: "u32 \<Rightarrow> img \<Rightarrow> dinode" where
  "rinode inum im = rd_dinode (rsect (IBLOCK inum mkfs_sb) im) (unat inum mod IPB)"

definition mkfs_ialloc :: "u16 \<Rightarrow> img \<Rightarrow> u32 \<times> img" where
  "mkfs_ialloc type im =
     (let inum = im_freeinode im; im = im\<lparr>im_freeinode := inum + 1\<rparr>
      in (inum, winode inum \<lparr>d_type = type, d_major = 0, d_minor = 0, d_nlink = 1, d_size = 0,
                             d_addrs = replicate (NDIRECT + 1) 0\<rparr> im))"

definition mkfs_balloc :: "nat \<Rightarrow> img \<Rightarrow> img option" where
  "mkfs_balloc used im =
     (if used < BPB then Some (wsect (sb_bmapstart mkfs_sb) (foldl (\<lambda>buf i. bit_mark i buf) (replicate 1024 0) [0..<used]) im)
      else None)"

section \<open>Appending to a file\<close>

definition fresh_block :: "img \<Rightarrow> u32 \<times> img" where
  "fresh_block im = (im_freeblock im, im\<lparr>im_freeblock := im_freeblock im + 1\<rparr>)"

text \<open>The block \<^verbatim>\<open>x\<close> of a turn of \<^verbatim>\<open>iappend\<close>'s loop, allocated when it is missing.\<close>

definition iappend_block :: "nat \<Rightarrow> dinode \<Rightarrow> img \<Rightarrow> u32 \<times> dinode \<times> img" where
  "iappend_block fbn din im =
     (if fbn < NDIRECT then
        (if d_addrs din ! fbn = 0
         then let (b, im) = fresh_block im in (b, din\<lparr>d_addrs := (d_addrs din)[fbn := b]\<rparr>, im)
         else (d_addrs din ! fbn, din, im))
      else
        let (din, im) = (if d_addrs din ! NDIRECT = 0
              then let (b, im) = fresh_block im in (din\<lparr>d_addrs := (d_addrs din)[NDIRECT := b]\<rparr>, im)
              else (din, im));
            ind = d_addrs din ! NDIRECT; k = fbn - NDIRECT; buf = rsect ind im
        in if rd32 buf (4 * k) = 0
           then let (b, im) = fresh_block im in (b, din, wsect ind (wr32 buf (4 * k) b) im)
           else (rd32 buf (4 * k), din, im))"

text \<open>Every turn copies at least one byte.\<close>

primrec iappend_loop :: "nat \<Rightarrow> dinode \<Rightarrow> nat \<Rightarrow> u8 list \<Rightarrow> img \<Rightarrow> (dinode \<times> nat \<times> img) option" where
  "iappend_loop 0 din off p im = Some (din, off, im)"
| "iappend_loop (Suc k) din off p im =
     (if p = [] then Some (din, off, im)
      else let fbn = off div 1024 in
        if \<not> fbn < MAXFILE then None
        else let (x, din, im) = iappend_block fbn din im;
                 n1 = min (length p) ((fbn + 1) * 1024 - off);
                 at = off - fbn * 1024; buf = rsect x im;
                 im = wsect x (take at buf @ take n1 p @ drop (at + n1) buf) im
             in iappend_loop k din (off + n1) (drop n1 p) im)"

definition iappend :: "u32 \<Rightarrow> u8 list \<Rightarrow> img \<Rightarrow> img option" where
  "iappend inum p im =
     (let din = rinode inum im in
      case iappend_loop (length p) din (unat (d_size din)) p im of
        None \<Rightarrow> None
      | Some (din, off, im) \<Rightarrow> Some (winode inum (din\<lparr>d_size := of_nat off\<rparr>) im))"

section \<open>The image\<close>

definition mkfs_dirent :: "u32 \<Rightarrow> u8 list \<Rightarrow> u8 list" where
  "mkfs_dirent inum name = encode_dirent \<lparr>de_inum = ucast inum, de_name = take DIRSIZ (name @ replicate DIRSIZ 0)\<rparr>"

definition encode_sb :: "superblock \<Rightarrow> u8 list" where
  "encode_sb x = foldl (\<lambda>d (i, v). wr32 d (4 * i) v) (replicate 1024 0)
     [(0, sb_magic x), (1, sb_size x), (2, sb_nblocks x), (3, sb_ninodes x), (4, sb_nlog x), (5, sb_logstart x),
      (6, sb_inodestart x), (7, sb_bmapstart x)]"

definition mkfs_start :: img where
  "mkfs_start = wsect 1 (encode_sb mkfs_sb)
     \<lparr>im_blocks = (\<lambda>_. replicate 1024 0), im_freeinode = 1, im_freeblock = of_nat nmeta\<rparr>"

definition mkfs_name :: "u8 list \<Rightarrow> u8 list option" where
  "mkfs_name path =
     (let short = (if take 5 path = ascii ''user/'' then drop 5 path else path) in
      if SLASH \<in> set short then None
      else let short = (if str_hd short = chr CHR ''_'' then tl short else short) in
        if length short \<le> DIRSIZ then Some short else None)"

primrec mkfs_chunks :: "u32 \<Rightarrow> u8 list list \<Rightarrow> img \<Rightarrow> img option" where
  "mkfs_chunks inum [] im = Some im"
| "mkfs_chunks inum (c # cs) im = (case iappend inum c im of None \<Rightarrow> None | Some im \<Rightarrow> mkfs_chunks inum cs im)"

primrec mkfs_files :: "(u8 list \<times> u8 list list) list \<Rightarrow> img \<Rightarrow> img option" where
  "mkfs_files [] im = Some im"
| "mkfs_files (f # fs) im = (case mkfs_name (fst f) of
     None \<Rightarrow> None
   | Some short \<Rightarrow> let (inum, im) = mkfs_ialloc T_FILE im in
       (case iappend ROOTINO (mkfs_dirent inum short) im of
          None \<Rightarrow> None
        | Some im \<Rightarrow> (case mkfs_chunks inum (snd f) im of None \<Rightarrow> None | Some im \<Rightarrow> mkfs_files fs im)))"

definition mkfs :: "(u8 list \<times> u8 list list) list \<Rightarrow> img option" where
  "mkfs files =
     (let (rootino, im) = mkfs_ialloc T_DIR mkfs_start in
      if rootino \<noteq> ROOTINO then None
      else case iappend rootino (mkfs_dirent rootino [46]) im of None \<Rightarrow> None | Some im \<Rightarrow>
      case iappend rootino (mkfs_dirent rootino [46, 46]) im of None \<Rightarrow> None | Some im \<Rightarrow>
      case mkfs_files files im of None \<Rightarrow> None | Some im \<Rightarrow>
        let din = rinode rootino im; off = (d_size din div 1024 + 1) * 1024 in
        mkfs_balloc (unat (im_freeblock im)) (winode rootino (din\<lparr>d_size := off\<rparr>) im))"

end
