(* ===== verification/Spec2Isabelle.thy ===== *)
theory Spec2Isabelle
  imports Eevdf PtTree Trap Sh Mkfs
begin

text \<open>
  A verification of the xv6-riscv kernel with EEVDF scheduling, nice values and mmap.
\<close>

end
